(* ===== verification/Kv_Prelude.thy ===== *)
theory Kv_Prelude
  imports Main "HOL-Library.Word" "HOL-Library.AList"
begin

unbundle bit_operations_syntax

text \<open>
  The shared vocabulary of the development: machine integers and byte strings, the ways a
  Rust function can fail to return a value, checked slicing and indexing, little-endian
  integer encodings, and the interface that every length-prefixed byte format of the program
  satisfies (wire requests, wire responses, write-ahead-log records).

  The program is modelled as the release build runs it: \<open>u64\<close> arithmetic wraps,
  \<open>debug_assert\<close> is not executed (that the asserted equations hold is proved instead), and
  \<open>usize\<close> is 64 bits wide, so that a \<open>u32\<close> length plus a small constant cannot overflow;
  \<open>usize\<close> values are therefore natural numbers.
\<close>

section \<open>Machine integers, bytes and failures\<close>

type_synonym u8 = "8 word"
type_synonym u32 = "32 word"
type_synonym u64 = "64 word"
type_synonym bytes = "u8 list"

text \<open>
  What a Rust function can do instead of returning: panic (an index or a slice out of range,
  a failed assertion, an unreachable arm, an explicit panic) or leave early with the
  \<open>?\<close> operator on an I/O error.
\<close>

datatype failure =
    IndexOutOfBounds
  | SliceOutOfBounds
  | AssertFailed
  | UnreachableReached
  | ExplicitPanic
  | ExpectFailed
  | IoError

type_synonym 'a outcome = "failure + 'a"

named_theorems outcome_simps \<open>evaluation rules of the failure monad\<close>
named_theorems slice_simps \<open>evaluation rules of checked slicing and of fixed-width reads\<close>
named_theorems codec_simps \<open>length and round-trip facts of the byte formats\<close>

text \<open>Sequencing: the first failure ends the computation.\<close>

definition obind :: "'a outcome \<Rightarrow> ('a \<Rightarrow> 'b outcome) \<Rightarrow> 'b outcome" where
  "obind m f = (case m of Inl e \<Rightarrow> Inl e | Inr x \<Rightarrow> f x)"

text \<open>\<open>assert_eq!\<close>, \<open>unreachable!\<close> and their kin: continue only if the condition holds.\<close>

definition ensure :: "failure \<Rightarrow> bool \<Rightarrow> unit outcome" where
  "ensure e b = (if b then Inr () else Inl e)"

section \<open>Checked slicing\<close>

text \<open>\<open>b[i]\<close>, \<open>&b[i..j]\<close> and \<open>&b[i..]\<close>: Rust panics when the range leaves the slice.\<close>

definition index_at :: "'a list \<Rightarrow> nat \<Rightarrow> 'a outcome" where
  "index_at b i = (if i < length b then Inr (b ! i) else Inl IndexOutOfBounds)"

definition slice :: "'a list \<Rightarrow> nat \<Rightarrow> nat \<Rightarrow> 'a list outcome" where
  "slice b i j = (if i \<le> j \<and> j \<le> length b then Inr (take (j - i) (drop i b))
                  else Inl SliceOutOfBounds)"

definition slice_from :: "'a list \<Rightarrow> nat \<Rightarrow> 'a list outcome" where
  "slice_from b i = (if i \<le> length b then Inr (drop i b) else Inl SliceOutOfBounds)"

section \<open>Little-endian integers\<close>

text \<open>
  \<open>to_le_bytes\<close> of a word, least significant byte first, and \<open>from_le_bytes\<close> of a byte
  string; the width in bytes is explicit, the word's type gives its width in bits.
\<close>

fun le_bytes :: "nat \<Rightarrow> 'a::len word \<Rightarrow> bytes" where
  "le_bytes 0 w = []"
| "le_bytes (Suc n) w = ucast w # le_bytes n (drop_bit 8 w)"

fun le_word :: "bytes \<Rightarrow> 'a::len word" where
  "le_word [] = 0"
| "le_word (b # bs) = ucast b OR push_bit 8 (le_word bs)"

definition le32 :: "u32 \<Rightarrow> bytes" where
  "le32 w = le_bytes 4 w"

definition le64 :: "u64 \<Rightarrow> bytes" where
  "le64 w = le_bytes 8 w"

text \<open>The cast \<open>n as u32\<close> of a length: it keeps the low 32 bits.\<close>

definition as_u32 :: "nat \<Rightarrow> u32" where
  "as_u32 n = of_nat n"

section \<open>Rules of the failure monad\<close>

lemma obind_Inl [simp, outcome_simps]: "obind (Inl e) f = Inl e"
  by (simp add: obind_def)

lemma obind_Inr [simp, outcome_simps]: "obind (Inr x) f = f x"
  by (simp add: obind_def)

lemma obind_eq_Inr [outcome_simps]: "obind m f = Inr y \<longleftrightarrow> (\<exists>x. m = Inr x \<and> f x = Inr y)"
  by (cases m) auto

lemma obind_eq_Inl: "obind m f = Inl e \<longleftrightarrow> m = Inl e \<or> (\<exists>x. m = Inr x \<and> f x = Inl e)"
  by (cases m) auto

lemma obind_assoc: "obind (obind m f) g = obind m (\<lambda>x. obind (f x) g)"
  by (cases m) auto

lemma obind_cong [fundef_cong]:
  "m = m' \<Longrightarrow> (\<And>x. m' = Inr x \<Longrightarrow> f x = f' x) \<Longrightarrow> obind m f = obind m' f'"
  by (cases m') auto

lemma ensure_True [simp, outcome_simps]: "b \<Longrightarrow> ensure e b = Inr ()"
  by (simp add: ensure_def)

lemma ensure_False [simp]: "\<not> b \<Longrightarrow> ensure e b = Inl e"
  by (simp add: ensure_def)

lemma ensure_eq_Inr [simp]: "ensure e b = Inr u \<longleftrightarrow> b"
  by (simp add: ensure_def)

section \<open>Rules of slicing\<close>

lemma index_at_0_Cons [simp, slice_simps]: "index_at (x # xs) 0 = Inr x"
  by (simp add: index_at_def)

lemma index_at_Nil [simp, slice_simps]: "index_at [] i = Inl IndexOutOfBounds"
  by (simp add: index_at_def)

lemma index_at_lt [slice_simps]: "i < length b \<Longrightarrow> index_at b i = Inr (b ! i)"
  by (simp add: index_at_def)

lemma index_at_eq_Inr: "index_at b i = Inr x \<longleftrightarrow> i < length b \<and> x = b ! i"
  by (auto simp: index_at_def)

lemma slice_ok [slice_simps]:
  "i \<le> j \<Longrightarrow> j \<le> length b \<Longrightarrow> slice b i j = Inr (take (j - i) (drop i b))"
  by (simp add: slice_def)

lemma slice_fails: "length b < j \<Longrightarrow> slice b i j = Inl SliceOutOfBounds"
  by (simp add: slice_def)

lemma slice_eq_Inr: "slice b i j = Inr s \<longleftrightarrow> i \<le> j \<and> j \<le> length b \<and> s = take (j - i) (drop i b)"
  by (auto simp: slice_def)

lemma slice_from_ok [slice_simps]: "i \<le> length b \<Longrightarrow> slice_from b i = Inr (drop i b)"
  by (simp add: slice_from_def)

lemma slice_from_eq_Inr: "slice_from b i = Inr s \<longleftrightarrow> i \<le> length b \<and> s = drop i b"
  by (auto simp: slice_from_def)

text \<open>The middle of three pieces, and the last of two.\<close>

lemma slice_mid [slice_simps]:
  "i = length a \<Longrightarrow> j = length a + length m \<Longrightarrow> slice (a @ m @ c) i j = Inr m"
  by (simp add: slice_def)

lemma slice_from_append [slice_simps]: "i = length a \<Longrightarrow> slice_from (a @ c) i = Inr c"
  by (simp add: slice_from_def)

text \<open>Reading and writing one element of the middle or of the end of three pieces.\<close>

lemma nth_mid: "length p \<le> i \<Longrightarrow> i < length p + length q \<Longrightarrow> (p @ q @ r) ! i = q ! (i - length p)"
  by (auto simp: nth_append)

lemma nth_end: "length p + length q \<le> i \<Longrightarrow> (p @ q @ r) ! i = r ! (i - (length p + length q))"
  by (auto simp: nth_append)

lemma update_mid:
  "length p \<le> i \<Longrightarrow> i < length p + length q \<Longrightarrow> (p @ q @ r)[i := b] = p @ q[i - length p := b] @ r"
  by (auto simp: list_update_append)

lemma update_end:
  "length p + length q \<le> i \<Longrightarrow> (p @ q @ r)[i := b] = p @ q @ r[i - (length p + length q) := b]"
  by (auto simp: list_update_append)

text \<open>
  Cutting a concatenation short of its end leaves whole pieces and a proper prefix of the next.
\<close>

lemma zip_snoc: "length ys < length xs \<Longrightarrow> zip xs (ys @ [y]) = zip xs ys @ [(xs ! length ys, y)]"
proof (induction ys arbitrary: xs)
  case Nil
  then show ?case by (cases xs) auto
next
  case (Cons z zs)
  then show ?case by (cases xs) auto
qed

lemma zip_longer: "length xs \<le> length ys \<Longrightarrow> zip xs (ys @ zs) = zip xs ys"
  by (simp add: zip_append2)

lemma take_concat_split:
  assumes "n < length (concat (map f xs))"
  shows "\<exists>m < length xs. \<exists>j < length (f (xs ! m)).
           take n (concat (map f xs)) = concat (map f (take m xs)) @ take j (f (xs ! m))"
  using assms
proof (induction xs arbitrary: n)
  case Nil
  then show ?case by simp
next
  case (Cons x xs)
  show ?case
  proof (cases "n < length (f x)")
    case True
    then show ?thesis by (intro exI [of _ 0] conjI exI [of _ n]) simp_all
  next
    case False
    with Cons.prems have "n - length (f x) < length (concat (map f xs))" by simp
    from Cons.IH [OF this] obtain m j where "m < length xs" "j < length (f (xs ! m))"
      "take (n - length (f x)) (concat (map f xs)) = concat (map f (take m xs)) @ take j (f (xs ! m))"
      by blast
    then show ?thesis using False by (intro exI [of _ "Suc m"] conjI exI [of _ j]) simp_all
  qed
qed

section \<open>Rules of little-endian integers\<close>

lemma length_le_bytes [simp, codec_simps]: "length (le_bytes n w) = n"
  by (induction n arbitrary: w) auto

lemma length_le32 [simp, codec_simps]: "length (le32 w) = 4"
  by (simp add: le32_def)

lemma length_le64 [simp, codec_simps]: "length (le64 w) = 8"
  by (simp add: le64_def)

lemma le_word_le_bytes: "le_word (le_bytes n w) = take_bit (8 * n) (w :: 'a::len word)"
proof (induction n arbitrary: w)
  case 0
  then show ?case by simp
next
  case (Suc n)
  show ?case
  proof (rule bit_word_eqI)
    fix i assume i: "i < LENGTH('a)"
    show "bit (le_word (le_bytes (Suc n) w) :: 'a word) i = bit (take_bit (8 * Suc n) w) i"
      using i by (auto simp: Suc bit_simps)
  qed
qed

lemma le_word_le32 [simp, codec_simps]: "le_word (le32 w) = w"
  by (simp add: le32_def le_word_le_bytes take_bit_word_eq_self)

lemma le_word_le64 [simp, codec_simps]: "le_word (le64 w) = w"
  by (simp add: le64_def le_word_le_bytes take_bit_word_eq_self)

lemma le_bytes_le_word:
  "8 * length bs \<le> LENGTH('a) \<Longrightarrow> le_bytes (length bs) (le_word bs :: 'a::len word) = bs"
proof (induction bs)
  case Nil
  then show ?case by simp
next
  case (Cons b bs)
  have low: "ucast (le_word (b # bs) :: 'a word) = b"
    using Cons.prems by (intro bit_word_eqI) (auto simp: bit_simps)
  have "drop_bit 8 (le_word (b # bs) :: 'a word) = take_bit (LENGTH('a) - 8) (le_word bs)"
    using Cons.prems by (intro bit_word_eqI) (auto simp: bit_simps dest: bit_imp_le_length)
  moreover have "take_bit (LENGTH('a) - 8) (le_word bs :: 'a word) = le_word bs"
  proof -
    have "(le_word bs :: 'a word) = le_word (le_bytes (length bs) (le_word bs :: 'a word))"
      using Cons by simp
    also have "\<dots> = take_bit (8 * length bs) (le_word bs)"
      by (rule le_word_le_bytes)
    finally have *: "(le_word bs :: 'a word) = take_bit (8 * length bs) (le_word bs)" .
    have "8 * length bs \<le> LENGTH('a) - 8" using Cons.prems by simp
    then show ?thesis using *
      by (metis min.absorb2 take_bit_take_bit)
  qed
  ultimately show ?case using Cons low by simp
qed

lemma le32_le_word: "length bs = 4 \<Longrightarrow> le32 (le_word bs) = bs"
  using le_bytes_le_word [of bs, where 'a = 32] by (simp add: le32_def)

lemma le64_le_word: "length bs = 8 \<Longrightarrow> le64 (le_word bs) = bs"
  using le_bytes_le_word [of bs, where 'a = 64] by (simp add: le64_def)

lemma unat_u64_lt: "unat (w :: u64) < 2 ^ 64"
  using unsigned_less [of w, where 'a = nat] by simp

lemma unat_as_u32 [simp, codec_simps]: "n < 2 ^ 32 \<Longrightarrow> unat (as_u32 n) = n"
  by (simp add: as_u32_def unat_of_nat)

end
