(* ===== verification/Framing.thy ===== *)
theory Framing
  imports Kv_Prelude
begin

text \<open>
  The contract shared by the three length-prefixed byte formats of the program: request
  frames read by stage 1, response frames read by the client, records of the write-ahead log.
  A decoder looks at the front of a byte string and returns either nothing (more bytes are
  needed, or the front is not a frame) or one value and the number of bytes it took.
  \<open>frames\<close> is the loop that every reader of the program runs around its decoder; the locale
  proves once what that loop does on well-formed, on chunked and on truncated input, and
  each format interprets it.
\<close>

section \<open>The reading loop\<close>

function frames :: "(bytes \<Rightarrow> ('a \<times> nat) option) \<Rightarrow> bytes \<Rightarrow> 'a list \<times> bytes" where
  "frames dec bs =
     (case dec bs of
        None \<Rightarrow> ([], bs)
      | Some (x, n) \<Rightarrow>
          (if 0 < n \<and> n \<le> length bs
           then (let (xs, r) = frames dec (drop n bs) in (x # xs, r))
           else ([], bs)))"
  by pat_completeness auto
termination
  by (relation "measure (\<lambda>(dec, bs). length bs)") auto

declare frames.simps [simp del]

lemma frames_None: "dec bs = None \<Longrightarrow> frames dec bs = ([], bs)"
  by (simp add: frames.simps [of dec bs])

lemma frames_Some:
  "dec bs = Some (x, n) \<Longrightarrow> 0 < n \<Longrightarrow> n \<le> length bs \<Longrightarrow>
   frames dec bs = (x # fst (frames dec (drop n bs)), snd (frames dec (drop n bs)))"
  by (simp add: frames.simps [of dec bs] case_prod_beta Let_def)

section \<open>Cut concatenations\<close>

lemma concat_map_split:
  assumes "m < length xs"
  shows "concat (map f xs) = concat (map f (take m xs)) @ f (xs ! m) @ concat (map f (drop (Suc m) xs))"
proof -
  have "map f xs = map f (take m xs @ xs ! m # drop (Suc m) xs)" using id_take_nth_drop [OF assms] by simp
  then show ?thesis by simp
qed

text \<open>What is left of a cut concatenation after its whole parts is a part of the next one.\<close>

lemma cut_rest:
  assumes cut: "take n (concat (map f xs)) = concat (map f (take m xs)) @ t"
    and m: "m < length xs" and t: "length t < length (f (xs ! m))"
  shows "t = take (length t) (f (xs ! m))"
proof -
  have "concat (map f (take m xs)) @ f (xs ! m) @ concat (map f (drop (Suc m) xs)) =
      (concat (map f (take m xs)) @ t) @ drop n (concat (map f xs))"
    unfolding cut [symmetric] append_take_drop_id by (rule concat_map_split [OF m, symmetric])
  then have "f (xs ! m) @ concat (map f (drop (Suc m) xs)) = t @ drop n (concat (map f xs))" by simp
  then have "take (length t) (f (xs ! m) @ concat (map f (drop (Suc m) xs))) = t" by simp
  then show ?thesis using t by simp
qed

text \<open>A cut behind the first \<open>q\<close> parts keeps at least those.\<close>

lemma cut_covers:
  assumes cut: "take n (concat (map f xs)) = concat (map f (take m xs)) @ t"
    and t: "m < length xs \<Longrightarrow> length t < length (f (xs ! m))"
    and q: "q \<le> length xs" "length (concat (map f (take q xs))) \<le> n" and m: "m \<le> length xs"
  shows "q \<le> m"
proof (rule ccontr)
  assume "\<not> q \<le> m"
  then have lt: "m < q" by simp
  have "take m (take q xs) = take m xs" using lt by simp
  then have "concat (map f (take q xs)) =
      concat (map f (take m xs)) @ f (xs ! m) @ concat (map f (drop (Suc m) (take q xs)))"
    using concat_map_split [of m "take q xs" f] lt q(1) by simp
  then have "length (concat (map f (take m xs))) + length (f (xs ! m)) \<le> length (concat (map f (take q xs)))" by simp
  moreover have "length (concat (map f (take q xs))) \<le> length (concat (map f xs))"
    by (metis append_take_drop_id concat_append le_add1 length_append map_append)
  ultimately have "length (concat (map f (take m xs))) + length (f (xs ! m)) \<le> length (take n (concat (map f xs)))"
    using q(2) by simp
  then show False unfolding cut using t lt q(1) by simp
qed

section \<open>The interface\<close>

locale frame_codec =
  fixes enc :: "'a \<Rightarrow> bytes"
    and dec :: "bytes \<Rightarrow> ('a \<times> nat) option"
    and ok :: "'a \<Rightarrow> bool"
  assumes dec_enc: "ok x \<Longrightarrow> dec (enc x) = Some (x, length (enc x))"
    and dec_bounds: "dec bs = Some (x, n) \<Longrightarrow> 0 < n \<and> n \<le> length bs"
    and dec_extend: "dec bs = Some r \<Longrightarrow> dec (bs @ cs) = Some r"
begin

lemma dec_enc_append: "ok x \<Longrightarrow> dec (enc x @ rest) = Some (x, length (enc x))"
  by (rule dec_extend) (rule dec_enc)

lemma enc_nonempty: "ok x \<Longrightarrow> enc x \<noteq> []"
  using dec_enc dec_bounds by fastforce

text \<open>A frame cut short is not decoded: the reader waits, it never sees a wrong value.\<close>

lemma dec_truncated:
  assumes "ok x" and "n < length (enc x)"
  shows "dec (take n (enc x)) = None"
proof (rule ccontr)
  assume "dec (take n (enc x)) \<noteq> None"
  then obtain y k where yk: "dec (take n (enc x)) = Some (y, k)" by auto
  then have "dec (take n (enc x) @ drop n (enc x)) = Some (y, k)" by (rule dec_extend)
  then have "Some (y, k) = Some (x, length (enc x))"
    unfolding append_take_drop_id dec_enc [OF assms(1)] ..
  then have "k = length (enc x)" by simp
  moreover have "k \<le> n" using dec_bounds [OF yk] by simp
  ultimately show False using assms(2) by simp
qed

text \<open>Reading a concatenation of encoded values yields those values, in order.\<close>

lemma frames_encoded_append:
  assumes "list_all ok xs"
  shows "frames dec (concat (map enc xs) @ rest) = (xs @ fst (frames dec rest), snd (frames dec rest))"
  using assms
proof (induction xs)
  case Nil
  then show ?case by simp
next
  case (Cons x xs)
  then have okx: "ok x" by simp
  have "dec (enc x @ concat (map enc xs) @ rest) = Some (x, length (enc x))"
    using okx by (rule dec_enc_append)
  moreover have "0 < length (enc x)" using enc_nonempty [OF okx] by simp
  ultimately show ?case using Cons by (simp add: frames_Some)
qed

lemma frames_encoded:
  assumes "list_all ok xs"
  shows "frames dec (concat (map enc xs)) = (xs, [])"
proof -
  have "dec [] = None" using dec_bounds [of "[]"] by (cases "dec []") auto
  then have "frames dec [] = ([], [])" by (rule frames_None)
  then show ?thesis using frames_encoded_append [OF assms, of "[]"] by simp
qed

text \<open>
  The chunks in which bytes arrive do not matter: keeping the unread rest and reading again
  when more arrives yields the same values as reading everything at once.
\<close>

lemma frames_chunked:
  "frames dec (a @ b) =
     (fst (frames dec a) @ fst (frames dec (snd (frames dec a) @ b)),
      snd (frames dec (snd (frames dec a) @ b)))"
proof (induction a rule: length_induct)
  case (1 a)
  show ?case
  proof (cases "dec a")
    case None
    then show ?thesis by (simp add: frames_None)
  next
    case (Some r)
    obtain x n where r: "r = (x, n)" by (cases r)
    have n: "0 < n" "n \<le> length a" using dec_bounds Some r by auto
    have "dec (a @ b) = Some (x, n)" using dec_extend Some r by simp
    then have "frames dec (a @ b) =
        (x # fst (frames dec (drop n a @ b)), snd (frames dec (drop n a @ b)))"
      using n by (simp add: frames_Some)
    moreover have "frames dec a = (x # fst (frames dec (drop n a)), snd (frames dec (drop n a)))"
      using Some r n by (simp add: frames_Some)
    moreover have "length (drop n a) < length a" using n by simp
    ultimately show ?thesis using 1 by simp
  qed
qed

text \<open>
  A stream cut at any byte yields a prefix of the values, and the unread rest is a proper
  prefix of the next frame.
\<close>

lemma frames_truncated:
  assumes "list_all ok xs"
  shows "\<exists>m \<le> length xs. \<exists>t.
      frames dec (take n (concat (map enc xs))) = (take m xs, t) \<and>
      take n (concat (map enc xs)) = concat (map enc (take m xs)) @ t \<and>
      (if m < length xs then length t < length (enc (xs ! m)) else t = [])"
  using assms
proof (induction xs arbitrary: n)
  case Nil
  then show ?case using frames_encoded [of "[]"] by simp
next
  case (Cons x xs)
  then have okx: "ok x" by simp
  show ?case
  proof (cases "n < length (enc x)")
    case True
    then have "frames dec (take n (enc x)) = ([], take n (enc x))"
      using okx by (simp add: frames_None dec_truncated)
    then show ?thesis using True by (intro exI [of _ 0]) auto
  next
    case False
    have "list_all ok xs" using Cons.prems by simp
    from Cons.IH [OF this, of "n - length (enc x)"] obtain m t where m: "m \<le> length xs"
      and f: "frames dec (take (n - length (enc x)) (concat (map enc xs))) = (take m xs, t)"
      and c: "take (n - length (enc x)) (concat (map enc xs)) = concat (map enc (take m xs)) @ t"
      and l: "if m < length xs then length t < length (enc (xs ! m)) else t = []"
      by blast
    have "frames dec (enc x @ take (n - length (enc x)) (concat (map enc xs))) = (x # take m xs, t)"
      using frames_encoded_append [of "[x]"] okx f by simp
    then show ?thesis using False m c l by (intro exI [of _ "Suc m"]) auto
  qed
qed

end

end
