(* ===== verification/Wire.thy ===== *)
theory Wire
  imports Framing
begin

text \<open>
  The wire protocol (\<open>crates/wire/src/lib.rs\<close>): operation codes, the request body
  \<open>[op:1][klen:u32][key][val]\<close>, its length-prefixed encoding, the accessors the server uses
  on a received body, and the response codes. The accessors index and slice the body, so
  each of them can panic; when they do is stated exactly.
\<close>

section \<open>Operation codes\<close>

definition OP_GET :: u8 where
  "OP_GET = 0"

definition OP_PUT :: u8 where
  "OP_PUT = 1"

definition BODY_HDR :: nat where
  "BODY_HDR = 5"

datatype operation = Get | Put | Unknown u8

text \<open>The conversions derived by \<open>FromPrimitive\<close> (with a catch-all) and \<open>IntoPrimitive\<close>.\<close>

definition operation_from :: "u8 \<Rightarrow> operation" where
  "operation_from b = (if b = OP_GET then Get else if b = OP_PUT then Put else Unknown b)"

fun operation_into :: "operation \<Rightarrow> u8" where
  "operation_into Get = OP_GET"
| "operation_into Put = OP_PUT"
| "operation_into (Unknown b) = b"

section \<open>Fixed-width reads\<close>

definition rd_u32 :: "bytes \<Rightarrow> nat outcome" where
  "rd_u32 b =
     obind (index_at b 0) (\<lambda>b0. obind (index_at b 1) (\<lambda>b1.
     obind (index_at b 2) (\<lambda>b2. obind (index_at b 3) (\<lambda>b3.
       Inr (unat (le_word [b0, b1, b2, b3] :: u32))))))"

definition rd_u64 :: "bytes \<Rightarrow> u64 outcome" where
  "rd_u64 b =
     obind (index_at b 0) (\<lambda>b0. obind (index_at b 1) (\<lambda>b1.
     obind (index_at b 2) (\<lambda>b2. obind (index_at b 3) (\<lambda>b3.
     obind (index_at b 4) (\<lambda>b4. obind (index_at b 5) (\<lambda>b5.
     obind (index_at b 6) (\<lambda>b6. obind (index_at b 7) (\<lambda>b7.
       Inr (le_word [b0, b1, b2, b3, b4, b5, b6, b7])))))))))"

section \<open>Encoding requests\<close>

text \<open>\<open>value.map(|v| v.len()).unwrap_or(0)\<close>, and the bytes an optional value contributes.\<close>

definition opt_bytes :: "bytes option \<Rightarrow> bytes" where
  "opt_bytes v = (case v of None \<Rightarrow> [] | Some x \<Rightarrow> x)"

definition encode_raw :: "bytes \<Rightarrow> operation \<Rightarrow> bytes \<Rightarrow> bytes option \<Rightarrow> bytes \<times> nat" where
  "encode_raw buf oper k v =
     (let len_before = length buf in
      if oper = Put \<and> v = None then (buf, 0)
      else
        let body_len = 1 + 4 + length k + (case v of None \<Rightarrow> 0 | Some x \<Rightarrow> length x);
            buf = buf @ le32 (as_u32 body_len);
            buf = buf @ [operation_into oper];
            buf = buf @ le32 (as_u32 (length k));
            buf = buf @ k;
            buf = (case v of Some x \<Rightarrow> buf @ x | None \<Rightarrow> buf)
        in (buf, length buf - len_before))"

definition encode :: "operation \<Rightarrow> bytes \<Rightarrow> bytes option \<Rightarrow> bytes option" where
  "encode oper k v =
     (let (buf, n) = encode_raw [] oper k v in if n \<noteq> 0 then Some buf else None)"

section \<open>Accessors of a request body\<close>

definition wire_op :: "bytes \<Rightarrow> u8 outcome" where
  "wire_op body = index_at body 0"

definition klen :: "bytes \<Rightarrow> nat outcome" where
  "klen body = obind (slice body 1 5) rd_u32"

definition wire_key :: "bytes \<Rightarrow> bytes outcome" where
  "wire_key body = obind (klen body) (\<lambda>k. slice body BODY_HDR (BODY_HDR + k))"

definition split_kv :: "bytes \<Rightarrow> (bytes \<times> bytes) outcome" where
  "split_kv body =
     obind (klen body) (\<lambda>k.
     obind (slice body BODY_HDR (BODY_HDR + k)) (\<lambda>kb.
     obind (slice_from body (BODY_HDR + k)) (\<lambda>vb.
       Inr (kb, vb))))"

section \<open>Responses\<close>

datatype resp = Value bytes | Ok | Miss | UnknownOp | UnknownResp

fun to_proto_code :: "resp \<Rightarrow> u8" where
  "to_proto_code (Value v) = 0"
| "to_proto_code Ok = 1"
| "to_proto_code Miss = 2"
| "to_proto_code UnknownOp = 3"
| "to_proto_code UnknownResp = 4"

definition from_proto_code :: "bytes \<Rightarrow> resp" where
  "from_proto_code body =
     (case body of
        [] \<Rightarrow> UnknownResp
      | c # rest \<Rightarrow>
          (if c = 0 then Value rest
           else if c = 1 then Ok
           else if c = 2 then Miss
           else if c = 3 then UnknownOp
           else UnknownResp))"

section \<open>Well-formed bodies\<close>

text \<open>
  The bodies on which the accessors succeed: the five header bytes are there and the declared
  key length stays inside the body. \<open>put_body\<close> is the body that \<open>encode_raw\<close> writes.
\<close>

definition wf_body :: "bytes \<Rightarrow> bool" where
  "wf_body body \<longleftrightarrow>
     BODY_HDR \<le> length body \<and>
     BODY_HDR + unat (le_word (take 4 (drop 1 body)) :: u32) \<le> length body"

definition req_body :: "operation \<Rightarrow> bytes \<Rightarrow> bytes \<Rightarrow> bytes" where
  "req_body oper k v = [operation_into oper] @ le32 (as_u32 (length k)) @ k @ v"

text \<open>The key and value of a well-formed body.\<close>

definition kv_of :: "bytes \<Rightarrow> bytes \<times> bytes" where
  "kv_of body = (case split_kv body of Inr kv \<Rightarrow> kv | Inl _ \<Rightarrow> ([], []))"

section \<open>Facts about fixed-width reads\<close>

lemma take_4_nth: "4 \<le> length b \<Longrightarrow> take 4 b = [b ! 0, b ! 1, b ! 2, b ! 3]"
  by (auto simp: numeral_eq_Suc Suc_le_length_iff)

lemma take_8_nth:
  "8 \<le> length b \<Longrightarrow> take 8 b = [b ! 0, b ! 1, b ! 2, b ! 3, b ! 4, b ! 5, b ! 6, b ! 7]"
  by (auto simp: numeral_eq_Suc Suc_le_length_iff)

lemma rd_u32_ok [slice_simps]:
  "4 \<le> length b \<Longrightarrow> rd_u32 b = Inr (unat (le_word (take 4 b) :: u32))"
  by (auto simp: rd_u32_def index_at_def take_4_nth)

lemma rd_u32_short: "length b < 4 \<Longrightarrow> rd_u32 b = Inl IndexOutOfBounds"
  by (auto simp: rd_u32_def index_at_def obind_def)

lemma rd_u64_ok [slice_simps]: "8 \<le> length b \<Longrightarrow> rd_u64 b = Inr (le_word (take 8 b))"
  by (auto simp: rd_u64_def index_at_def take_8_nth)

lemma rd_u64_short: "length b < 8 \<Longrightarrow> rd_u64 b = Inl IndexOutOfBounds"
  by (auto simp: rd_u64_def index_at_def obind_def)

lemma rd_u32_le32 [slice_simps]: "rd_u32 (le32 w @ rest) = Inr (unat w)"
  by (simp add: rd_u32_ok)

lemma rd_u64_le64 [slice_simps]: "rd_u64 (le64 w @ rest) = Inr w"
  by (simp add: rd_u64_ok)

section \<open>Facts about the codes\<close>

lemma operation_into_from [simp]: "operation_into (operation_from b) = b"
  by (simp add: operation_from_def)

lemma operation_from_GET [simp]: "operation_from OP_GET = Get"
  by (simp add: operation_from_def)

lemma operation_from_PUT [simp]: "operation_from OP_PUT = Put"
  by (simp add: operation_from_def OP_GET_def OP_PUT_def)

lemma operation_from_eq_Put: "operation_from b = Put \<longleftrightarrow> b = OP_PUT"
  by (auto simp: operation_from_def OP_GET_def OP_PUT_def)

lemma operation_from_eq_Get: "operation_from b = Get \<longleftrightarrow> b = OP_GET"
  by (auto simp: operation_from_def)

section \<open>Facts about encoding\<close>

lemma length_req_body [simp, codec_simps]: "length (req_body oper k v) = 5 + length k + length v"
  by (simp add: req_body_def)

lemma encode_raw_eq:
  "encode_raw buf oper k v =
     (if oper = Put \<and> v = None then (buf, 0)
      else (buf @ le32 (as_u32 (length (req_body oper k (opt_bytes v)))) @ req_body oper k (opt_bytes v),
            4 + length (req_body oper k (opt_bytes v))))"
  by (auto simp: encode_raw_def req_body_def opt_bytes_def Let_def add.assoc split: option.splits)

lemma encode_eq:
  "encode oper k v =
     (if oper = Put \<and> v = None then None
      else Some (le32 (as_u32 (length (req_body oper k (opt_bytes v)))) @ req_body oper k (opt_bytes v)))"
  by (simp add: encode_def encode_raw_eq)

lemma wire_op_req_body [slice_simps]: "wire_op (req_body oper k v) = Inr (operation_into oper)"
  by (simp add: wire_op_def req_body_def)

lemma klen_req_body [slice_simps]:
  "length k < 2 ^ 32 \<Longrightarrow> klen (req_body oper k v) = Inr (length k)"
  by (simp add: klen_def req_body_def slice_def rd_u32_ok)

lemma split_kv_req_body [slice_simps]:
  "length k < 2 ^ 32 \<Longrightarrow> split_kv (req_body oper k v) = Inr (k, v)"
  by (simp add: split_kv_def klen_req_body)
     (simp add: req_body_def slice_def slice_from_def BODY_HDR_def add.commute [of 5] drop_drop [symmetric])

lemma wire_key_req_body [slice_simps]:
  "length k < 2 ^ 32 \<Longrightarrow> wire_key (req_body oper k v) = Inr k"
  by (simp add: wire_key_def klen_req_body) (simp add: req_body_def slice_def BODY_HDR_def)

section \<open>Facts about the accessors\<close>

lemma klen_ok: "5 \<le> length body \<Longrightarrow> klen body = Inr (unat (le_word (take 4 (drop 1 body)) :: u32))"
  by (simp add: klen_def slice_def rd_u32_ok)

lemma klen_short: "length body < 5 \<Longrightarrow> klen body = Inl SliceOutOfBounds"
  by (simp add: klen_def slice_def)

lemma wf_body_klen: "wf_body body \<Longrightarrow> \<exists>n. klen body = Inr n \<and> 5 + n \<le> length body"
  by (auto simp: wf_body_def BODY_HDR_def klen_ok)

lemma split_kv_wf:
  assumes "wf_body body"
  shows "\<exists>k v. split_kv body = Inr (k, v) \<and> wire_key body = Inr k \<and> body = take 5 body @ k @ v"
proof -
  obtain n where n: "klen body = Inr n" "5 + n \<le> length body"
    using wf_body_klen [OF assms] by blast
  have "body = take 5 body @ take n (drop 5 body) @ drop (5 + n) body"
    by (metis add.commute append_take_drop_id drop_drop)
  then show ?thesis using n
    by (simp add: split_kv_def wire_key_def slice_def slice_from_def BODY_HDR_def)
qed

lemma kv_of_wf: "wf_body body \<Longrightarrow> split_kv body = Inr (kv_of body)"
  using split_kv_wf [of body] by (auto simp: kv_of_def)

lemma wire_key_wf: "wf_body body \<Longrightarrow> wire_key body = Inr (fst (kv_of body))"
  using split_kv_wf [of body] by (auto simp: kv_of_def)

lemma kv_of_req_body [simp]: "length k < 2 ^ 32 \<Longrightarrow> kv_of (req_body oper k v) = (k, v)"
  by (simp add: kv_of_def split_kv_req_body)

lemma split_kv_not_wf: "\<not> wf_body body \<Longrightarrow> split_kv body = Inl SliceOutOfBounds"
  by (cases "length body < 5")
     (auto simp: split_kv_def klen_short klen_ok wf_body_def BODY_HDR_def slice_def)

lemma wire_key_not_wf: "\<not> wf_body body \<Longrightarrow> wire_key body = Inl SliceOutOfBounds"
  by (cases "length body < 5")
     (auto simp: wire_key_def klen_short klen_ok wf_body_def BODY_HDR_def slice_def)

lemma wf_body_req_body [simp]: "length k < 2 ^ 32 \<Longrightarrow> wf_body (req_body oper k v)"
  by (simp add: wf_body_def BODY_HDR_def req_body_def)

lemma wire_op_nonempty: "body \<noteq> [] \<Longrightarrow> wire_op body = Inr (hd body)"
  by (cases body) (simp_all add: wire_op_def)

lemma wf_body_nonempty: "wf_body body \<Longrightarrow> body \<noteq> []"
  by (auto simp: wf_body_def BODY_HDR_def)

lemma from_to_proto_code:
  "r \<noteq> UnknownResp \<Longrightarrow> from_proto_code (to_proto_code r # (case r of Value v \<Rightarrow> v | _ \<Rightarrow> [])) = r"
  by (cases r) (simp_all add: from_proto_code_def)

section \<open>Properties\<close>

text \<open>
  C16. Round trip of requests. For every operation, key and optional value that fit in the
  format's 32-bit lengths, \<open>encode\<close> refuses exactly a PUT without a value; otherwise it
  produces a frame whose prefix is the length of its body, and the server's accessors read
  back from that body the operation code, the key and the value.
\<close>

theorem wire_roundtrip:
  assumes "5 + length k + length (opt_bytes v) < 2 ^ 32"
  shows "if oper = Put \<and> v = None then encode oper k v = None
         else (\<exists>body. encode oper k v = Some (le32 (as_u32 (length body)) @ body) \<and>
                 rd_u32 (le32 (as_u32 (length body))) = Inr (length body) \<and>
                 wire_op body = Inr (operation_into oper) \<and>
                 wire_key body = Inr k \<and>
                 split_kv body = Inr (k, opt_bytes v))"
proof -
  have "length k < 2 ^ 32" using assms by simp
  moreover have "rd_u32 (le32 (as_u32 (5 + length k + length (opt_bytes v)))) =
      Inr (5 + length k + length (opt_bytes v))"
    using rd_u32_le32 [where rest = "[]"] assms by simp
  ultimately show ?thesis
    by (auto simp: encode_eq wire_op_req_body wire_key_req_body split_kv_req_body)
qed

theorem wire_roundtrip_witness:
  "\<exists>body. encode Put [107] (Some [118, 119]) = Some (le32 (as_u32 (length body)) @ body) \<and>
     rd_u32 (le32 (as_u32 (length body))) = Inr (length body) \<and>
     wire_op body = Inr (operation_into Put) \<and>
     wire_key body = Inr [107] \<and>
     split_kv body = Inr ([107], opt_bytes (Some [118, 119]))"
  using wire_roundtrip [of "[107]" "Some [118, 119]" Put] by (simp add: opt_bytes_def)

text \<open>
  When the body accessors panic. \<open>split_kv\<close> and \<open>key\<close> succeed exactly on the bodies that
  hold the five header bytes and the declared key; there the header, key and value make up
  the whole body, and on every other body both panic on a slice out of range.
\<close>

lemma split_kv_exact:
  "if wf_body body
   then (\<exists>k v. split_kv body = Inr (k, v) \<and> wire_key body = Inr k \<and> body = take 5 body @ k @ v)
   else split_kv body = Inl SliceOutOfBounds \<and> wire_key body = Inl SliceOutOfBounds"
  using split_kv_wf split_kv_not_wf wire_key_not_wf by simp

end
