(* ===== verification/Batches.thy ===== *)
theory Batches
  imports Wire "HOL-Library.Multiset"
begin

text \<open>
  What travels through the pipeline: durability modes (\<open>crates/server/src/args.rs\<close>), requests
  and batches (\<open>types.rs\<close>), and the acknowledgement policy that decides at which durability
  level a request is answered (\<open>acker.rs\<close>). A reply channel is a number, the connection it
  belongs to; sending a response on it is recorded as a pair of connection and response.
  That \<open>blocking_send\<close> waits on a full channel and fails silently on a closed one is modelled
  with the connections (theories \<open>Connections\<close> and \<open>Service\<close>).
\<close>

section \<open>Modes, requests, batches\<close>

datatype mode = NoFsync | Sync | Async

record request =
  data :: bytes
  reply :: nat
  resp :: "resp option"

definition req_op :: "request \<Rightarrow> operation outcome" where
  "req_op r = obind (wire_op (data r)) (\<lambda>b. Inr (operation_from b))"

definition req_key :: "request \<Rightarrow> bytes outcome" where
  "req_key r = wire_key (data r)"

definition req_split_kv :: "request \<Rightarrow> (bytes \<times> bytes) outcome" where
  "req_split_kv r = split_kv (data r)"

definition is_read_only :: "request \<Rightarrow> bool outcome" where
  "is_read_only r = obind (req_op r) (\<lambda>oper. Inr (oper = Get))"

record batch =
  items :: "request list"
  out :: bytes
  lsn_low :: u64
  lsn_hi :: u64

definition batch_new :: batch where
  "batch_new = \<lparr>items = [], out = [], lsn_low = 0, lsn_hi = 0\<rparr>"

definition recycle :: "batch \<Rightarrow> batch" where
  "recycle b = b\<lparr>items := [], out := [], lsn_low := 0, lsn_hi := 0\<rparr>"

definition has_wal_work :: "batch \<Rightarrow> bool" where
  "has_wal_work b \<longleftrightarrow> lsn_low b < lsn_hi b"

datatype wal_msg = WalWrite batch | WalRotate u64 | WalRetire u64

section \<open>Acknowledgement\<close>

datatype ack_point = Applied | Written | Durable

text \<open>The derived order follows the declaration: each level implies the previous ones.\<close>

fun ack_rank :: "ack_point \<Rightarrow> nat" where
  "ack_rank Applied = 1"
| "ack_rank Written = 2"
| "ack_rank Durable = 3"

instantiation ack_point :: linorder
begin

definition less_eq_ack_point :: "ack_point \<Rightarrow> ack_point \<Rightarrow> bool" where
  "less_eq_ack_point a b \<longleftrightarrow> ack_rank a \<le> ack_rank b"

definition less_ack_point :: "ack_point \<Rightarrow> ack_point \<Rightarrow> bool" where
  "less_ack_point a b \<longleftrightarrow> ack_rank a < ack_rank b"

instance
proof
  fix a b c :: ack_point
  show "a < b \<longleftrightarrow> a \<le> b \<and> \<not> b \<le> a" by (auto simp: less_eq_ack_point_def less_ack_point_def)
  show "a \<le> a" by (simp add: less_eq_ack_point_def)
  show "a \<le> b \<Longrightarrow> b \<le> c \<Longrightarrow> a \<le> c" by (simp add: less_eq_ack_point_def)
  show "a \<le> b \<Longrightarrow> b \<le> a \<Longrightarrow> a = b"
    by (cases a; cases b) (simp_all add: less_eq_ack_point_def)
  show "a \<le> b \<or> b \<le> a" by (auto simp: less_eq_ack_point_def)
qed

end

fun ack_of_mode :: "mode \<Rightarrow> ack_point" where
  "ack_of_mode NoFsync = Applied"
| "ack_of_mode Async = Written"
| "ack_of_mode Sync = Durable"

record acker =
  level :: ack_point

definition acker_new :: "mode \<Rightarrow> acker" where
  "acker_new m = \<lparr>level = ack_of_mode m\<rparr>"

definition required :: "acker \<Rightarrow> request \<Rightarrow> ack_point outcome" where
  "required ack r = obind (is_read_only r) (\<lambda>ro. Inr (if ro then Applied else level ack))"

text \<open>\<open>req.resp.take()\<close> and the send: the response, if any, leaves the request.\<close>

definition take_resp :: "request \<Rightarrow> request \<times> (nat \<times> resp) list" where
  "take_resp r =
     (case resp r of
        Some x \<Rightarrow> (r\<lparr>resp := None\<rparr>, [(reply r, x)])
      | None \<Rightarrow> (r, []))"

fun advance_items :: "acker \<Rightarrow> ack_point \<Rightarrow> request list \<Rightarrow> (request list \<times> (nat \<times> resp) list) outcome" where
  "advance_items ack reached [] = Inr ([], [])"
| "advance_items ack reached (r # rs) =
     obind (required ack r) (\<lambda>need.
     let (r', sent) = (if need \<le> reached then take_resp r else (r, [])) in
     obind (advance_items ack reached rs) (\<lambda>(rs', sents).
       Inr (r' # rs', sent @ sents)))"

definition advance :: "acker \<Rightarrow> batch \<Rightarrow> ack_point \<Rightarrow> (batch \<times> (nat \<times> resp) list) outcome" where
  "advance ack b reached =
     obind (advance_items ack reached (items b)) (\<lambda>(rs, sent). Inr (b\<lparr>items := rs\<rparr>, sent))"

definition is_settled :: "batch \<Rightarrow> bool" where
  "is_settled b \<longleftrightarrow> list_all (\<lambda>r. resp r = None) (items b)"

section \<open>Facts about requests\<close>

text \<open>
  A request is well formed when serving it cannot panic: its body is not empty, and a GET or a
  PUT has a well-formed body. \<open>kind\<close> is its operation.
\<close>

definition wf_req :: "request \<Rightarrow> bool" where
  "wf_req r \<longleftrightarrow> data r \<noteq> [] \<and>
     (hd (data r) = OP_GET \<or> hd (data r) = OP_PUT \<longrightarrow> wf_body (data r))"

definition kind :: "request \<Rightarrow> operation" where
  "kind r = operation_from (hd (data r))"

definition is_put :: "request \<Rightarrow> bool" where
  "is_put r \<longleftrightarrow> kind r = Put"

lemma req_op_nonempty: "data r \<noteq> [] \<Longrightarrow> req_op r = Inr (kind r)"
  by (simp add: req_op_def kind_def wire_op_nonempty)

lemma req_op_wf: "wf_req r \<Longrightarrow> req_op r = Inr (kind r)"
  by (simp add: wf_req_def req_op_nonempty)

lemma wf_req_body: "wf_req r \<Longrightarrow> kind r = Get \<or> kind r = Put \<Longrightarrow> wf_body (data r)"
  by (auto simp: wf_req_def kind_def operation_from_eq_Get operation_from_eq_Put)

lemma required_nonempty:
  "data r \<noteq> [] \<Longrightarrow> required ack r = Inr (if kind r = Get then Applied else level ack)"
  by (simp add: required_def is_read_only_def req_op_nonempty)

section \<open>Facts about the order of levels\<close>

lemma ack_le_simps [simp]:
  "Applied \<le> p" "p \<le> Durable" "(p \<le> Applied) = (p = Applied)" "(Durable \<le> p) = (p = Durable)"
  by (cases p; simp add: less_eq_ack_point_def)+

lemma Written_le [simp]: "(Written \<le> p) = (p \<noteq> Applied)"
  by (cases p) (simp_all add: less_eq_ack_point_def)

section \<open>Facts about advancing\<close>

text \<open>
  Whether a request is answered when a level is reached, and what advancing does: it maps
  \<open>settle\<close> over the requests and sends the responses of those answered, in queue order.
\<close>

definition answered_at :: "acker \<Rightarrow> ack_point \<Rightarrow> request \<Rightarrow> bool" where
  "answered_at ack reached r \<longleftrightarrow> (if kind r = Get then Applied else level ack) \<le> reached"

definition settle :: "acker \<Rightarrow> ack_point \<Rightarrow> request \<Rightarrow> request" where
  "settle ack reached r = (if answered_at ack reached r then r\<lparr>resp := None\<rparr> else r)"

definition response_of :: "request \<Rightarrow> (nat \<times> resp) list" where
  "response_of r = (case resp r of Some x \<Rightarrow> [(reply r, x)] | None \<Rightarrow> [])"

lemma take_resp_eq: "take_resp r = (r\<lparr>resp := None\<rparr>, response_of r)"
  by (cases r) (simp add: take_resp_def response_of_def split: option.splits)

lemma advance_items_eq:
  "list_all (\<lambda>r. data r \<noteq> []) rs \<Longrightarrow>
   advance_items ack reached rs =
     Inr (map (settle ack reached) rs,
          concat (map response_of (filter (answered_at ack reached) rs)))"
  by (induction rs)
     (auto simp: required_nonempty answered_at_def settle_def take_resp_eq Let_def)

lemma advance_eq:
  "list_all (\<lambda>r. data r \<noteq> []) (items b) \<Longrightarrow>
   advance ack b reached =
     Inr (b\<lparr>items := map (settle ack reached) (items b)\<rparr>,
          concat (map response_of (filter (answered_at ack reached) (items b))))"
  by (simp add: advance_def advance_items_eq)

lemma settle_simps [simp]:
  "data (settle ack p r) = data r" "reply (settle ack p r) = reply r" "kind (settle ack p r) = kind r"
  by (simp_all add: settle_def kind_def)

lemma answered_at_settle [simp]: "answered_at ack q (settle ack p r) = answered_at ack q r"
  by (simp add: answered_at_def)

lemma answered_at_Durable [simp]: "answered_at ack Durable r"
  by (simp add: answered_at_def)

lemma answered_at_mono: "answered_at ack p r \<Longrightarrow> p \<le> q \<Longrightarrow> answered_at ack q r"
  unfolding answered_at_def by (rule order_trans)

lemma wf_reqs_nonempty: "list_all wf_req rs \<Longrightarrow> list_all (\<lambda>r. data r \<noteq> []) rs"
  by (auto simp: list_all_iff wf_req_def)

lemma recycle_eq [simp]: "recycle b = batch_new"
  by (cases b) (simp add: recycle_def batch_new_def)

lemma response_of_settle: "response_of (settle ack p r) = (if answered_at ack p r then [] else response_of r)"
  by (simp add: settle_def response_of_def)

text \<open>Reaching a higher level sends exactly the responses the lower level left.\<close>

lemma mset_responses_step:
  assumes "p \<le> q"
  shows "mset (concat (map response_of (filter (answered_at ack p) rs))) +
         mset (concat (map response_of (filter (answered_at ack q) (map (settle ack p) rs)))) =
         mset (concat (map response_of (filter (answered_at ack q) rs)))"
  using answered_at_mono [OF _ assms]
  by (induction rs) (auto simp: response_of_settle)

lemma settle_settle: "p \<le> q \<Longrightarrow> settle ack q (settle ack p r) = settle ack q r"
  using answered_at_mono [of ack p r q] by (auto simp: settle_def answered_at_def kind_def)

section \<open>Requests of one connection\<close>

text \<open>The positions of a connection's requests in the order in which stage 2 serves them.\<close>

definition positions :: "nat \<Rightarrow> request list \<Rightarrow> nat list" where
  "positions conn rs = filter (\<lambda>i. reply (rs ! i) = conn) [0..<length rs]"

text \<open>The responses sent on a connection.\<close>

definition replies_on :: "nat \<Rightarrow> (nat \<times> resp) list \<Rightarrow> resp list" where
  "replies_on conn sent = map snd (filter (\<lambda>p. fst p = conn) sent)"

lemma filter_positions: "filter (\<lambda>r. reply r = conn) rs = map (\<lambda>i. rs ! i) (positions conn rs)"
proof -
  have "filter (\<lambda>r. reply r = conn) (map (\<lambda>i. rs ! i) [0..<length rs]) = map (\<lambda>i. rs ! i) (positions conn rs)"
    by (simp add: positions_def filter_map o_def)
  then show ?thesis by (simp add: map_nth)
qed

lemma replies_on_positions:
  "replies_on conn (map (\<lambda>i. (reply (rs ! i), f i)) [0..<length rs]) = map f (positions conn rs)"
  by (simp add: replies_on_def positions_def filter_map o_def)

section \<open>Properties\<close>

text \<open>
  C19. Every response is sent exactly once. Carrying a batch through the three durability
  levels sends, over the three calls of \<open>advance\<close>, each response of the batch once; after
  \<open>Durable\<close> nothing is owed; and nothing but the responses of GETs is sent below the
  configured level.
\<close>

theorem advance_exactly_once:
  assumes ne: "list_all (\<lambda>r. data r \<noteq> []) (items b)"
    and a1: "advance ack b Applied = Inr (b1, s1)"
    and a2: "advance ack b1 Written = Inr (b2, s2)"
    and a3: "advance ack b2 Durable = Inr (b3, s3)"
  shows "mset (s1 @ s2 @ s3) = mset (concat (map response_of (items b))) \<and> is_settled b3 \<and>
         (level ack \<noteq> Applied \<longrightarrow>
            s1 = concat (map response_of (filter (\<lambda>r. kind r = Get) (items b)))) \<and>
         (level ack = Durable \<longrightarrow> s2 = [])"
proof -
  let ?rs = "items b"
  have b1: "items b1 = map (settle ack Applied) ?rs"
    and s1: "s1 = concat (map response_of (filter (answered_at ack Applied) ?rs))"
    using a1 ne by (auto simp: advance_eq)
  have ne1: "list_all (\<lambda>r. data r \<noteq> []) (items b1)" using ne by (simp add: b1 list_all_iff)
  have b2: "items b2 = map (settle ack Written) ?rs"
    and s2: "s2 = concat (map response_of (filter (answered_at ack Written) (map (settle ack Applied) ?rs)))"
    using a2 ne1 by (auto simp: advance_eq b1 settle_settle)
  have ne2: "list_all (\<lambda>r. data r \<noteq> []) (items b2)" using ne by (simp add: b2 list_all_iff)
  have b3: "items b3 = map (settle ack Durable) ?rs"
    and s3: "s3 = concat (map response_of (filter (answered_at ack Durable) (map (settle ack Written) ?rs)))"
    using a3 ne2 by (auto simp: advance_eq b2 settle_settle)
  have "mset (s1 @ s2 @ s3) = mset (concat (map response_of ?rs))"
    using mset_responses_step [of Applied Written ack ?rs] mset_responses_step [of Written Durable ack ?rs]
    by (simp add: s1 s2 s3 add.assoc [symmetric])
  moreover have "is_settled b3" by (simp add: is_settled_def b3 list_all_iff settle_def)
  moreover have "level ack \<noteq> Applied \<Longrightarrow> answered_at ack Applied = (\<lambda>r. kind r = Get)"
    by (auto simp: answered_at_def fun_eq_iff)
  moreover have "level ack = Durable \<Longrightarrow> s2 = []"
    unfolding s2 by (auto simp: answered_at_def response_of_settle)
  ultimately show ?thesis by (simp add: s1)
qed

theorem advance_exactly_once_witness:
  "\<exists>b1 s1 b2 s2 b3 s3.
     advance (acker_new Sync) (batch_new\<lparr>items := [\<lparr>data = [1], reply = 0, resp = Some Ok\<rparr>,
        \<lparr>data = [0], reply = 0, resp = Some Miss\<rparr>]\<rparr>) Applied = Inr (b1, s1) \<and>
     advance (acker_new Sync) b1 Written = Inr (b2, s2) \<and>
     advance (acker_new Sync) b2 Durable = Inr (b3, s3) \<and>
     mset (s1 @ s2 @ s3) = {#(0, Ok), (0, Miss)#} \<and> is_settled b3"
proof -
  let ?b = "batch_new\<lparr>items := [\<lparr>data = [1], reply = 0, resp = Some Ok\<rparr>,
        \<lparr>data = [0], reply = 0, resp = Some Miss\<rparr>]\<rparr>"
  let ?b1 = "?b\<lparr>items := map (settle (acker_new Sync) Applied) (items ?b)\<rparr>"
  let ?b2 = "?b1\<lparr>items := map (settle (acker_new Sync) Written) (items ?b1)\<rparr>"
  have ne: "list_all (\<lambda>r. data r \<noteq> []) (items ?b)" "list_all (\<lambda>r. data r \<noteq> []) (items ?b1)"
    "list_all (\<lambda>r. data r \<noteq> []) (items ?b2)" by simp_all
  show ?thesis
    using advance_exactly_once [OF ne(1) advance_eq [OF ne(1)] advance_eq [OF ne(2)] advance_eq [OF ne(3)]]
      advance_eq [OF ne(1)] advance_eq [OF ne(2)] advance_eq [OF ne(3)]
    by (auto simp: response_of_def)
qed

end
