(* ===== verification/Stage1.thy ===== *)
theory Stage1
  imports Batches "HOL-Library.Sublist"
begin

text \<open>
  Stage 1, one connection (\<open>crates/server/src/stage1/mod.rs\<close>): the reader task, which cuts the
  byte stream of a socket into requests, and the writer task, which encodes responses and
  writes them in groups. Here each task is a function of all that arrives before the peer closes
  the socket; theory \<open>Connections\<close> has the tasks step by step, and theory \<open>Service\<close> the accept loop.
\<close>

section \<open>Reading requests\<close>

definition MAX_FRAME :: nat where
  "MAX_FRAME = 8 * 1024 * 1024"

text \<open>
  The reader loop of connection \<open>conn\<close>. \<open>send_ok i\<close> says whether handing the i-th request to
  stage 2 succeeds. The loop ends at the end of the stream, at a frame of length zero or
  beyond the limit, and at a failed send; in all cases the connection is closed.
\<close>

function read_conn :: "(nat \<Rightarrow> bool) \<Rightarrow> nat \<Rightarrow> nat \<Rightarrow> bytes \<Rightarrow> request list" where
  "read_conn send_ok conn i bs =
     (if length bs < 4 then []
      else
        let len = unat (le_word (take 4 bs) :: u32) in
        if len = 0 \<or> MAX_FRAME < len then []
        else if length (drop 4 bs) < len then []
        else
          let req = \<lparr>data = take len (drop 4 bs), reply = conn, resp = None\<rparr> in
          if send_ok i then req # read_conn send_ok conn (Suc i) (drop len (drop 4 bs))
          else [])"
  by pat_completeness auto
termination
  by (relation "measure (\<lambda>(send_ok, conn, i, bs). length bs)") auto

declare read_conn.simps [simp del]

section \<open>Writing responses\<close>

definition encode_resp :: "bytes \<Rightarrow> resp \<Rightarrow> bytes outcome" where
  "encode_resp buf r =
     (case r of
        Value v \<Rightarrow> Inr (buf @ le32 (as_u32 (1 + length v)) @ [to_proto_code r] @ v)
      | UnknownResp \<Rightarrow> Inl UnreachableReached
      | _ \<Rightarrow> Inr (buf @ le32 1 @ [to_proto_code r]))"

text \<open>
  The inner loop of the writer over the responses that are ready (\<open>try_recv\<close>): it stops when
  none is ready or the buffer has reached 256 KiB, and leaves the rest in the queue.
\<close>

fun drain_ready :: "bytes \<Rightarrow> resp list \<Rightarrow> (bytes \<times> resp list) outcome" where
  "drain_ready buf [] = Inr (buf, [])"
| "drain_ready buf (r # rs) =
     obind (encode_resp buf r) (\<lambda>buf'.
       if 256 * 1024 \<le> length buf' then Inr (buf', rs) else drain_ready buf' rs)"

text \<open>
  The writer over a queue of responses. The schedule gives for each turn the number of further
  responses that are ready and the outcome of \<open>write_all\<close>: \<open>None\<close> when the whole buffer is
  written, \<open>Some k\<close> when the write fails after \<open>k\<close> bytes, which ends the task. The result is what
  is written to the socket.
\<close>

fun writer :: "(nat \<times> nat option) list \<Rightarrow> resp list \<Rightarrow> bytes outcome" where
  "writer [] q = Inr []"
| "writer (t # ts) [] = Inr []"
| "writer ((n, wr) # ts) (first # q) =
     obind (encode_resp [] first) (\<lambda>buf.
     obind (drain_ready buf (take n q)) (\<lambda>(buf', left).
       case wr of
         Some k \<Rightarrow> Inr (take k buf')
       | None \<Rightarrow>
           obind (writer ts (left @ drop n q)) (\<lambda>rest.
             Inr (buf' @ rest))))"

section \<open>Requests as frames\<close>

definition frame_bytes :: "bytes \<Rightarrow> bytes" where
  "frame_bytes body = le32 (as_u32 (length body)) @ body"

definition req_dec :: "bytes \<Rightarrow> (bytes \<times> nat) option" where
  "req_dec bs =
     (let len = unat (le_word (take 4 bs) :: u32) in
      if length bs < 4 + len \<or> length bs < 4 \<or> len = 0 \<or> MAX_FRAME < len then None
      else Some (take len (drop 4 bs), 4 + len))"

definition body_ok :: "bytes \<Rightarrow> bool" where
  "body_ok body \<longleftrightarrow> body \<noteq> [] \<and> length body \<le> MAX_FRAME"

interpretation reqf: frame_codec frame_bytes req_dec body_ok
proof unfold_locales
  fix x assume x: "body_ok x"
  then have len: "length x < 2 ^ 32" by (simp add: body_ok_def MAX_FRAME_def)
  then show "req_dec (frame_bytes x) = Some (x, length (frame_bytes x))"
    using x by (simp add: req_dec_def frame_bytes_def body_ok_def)
next
  fix bs x n assume "req_dec bs = Some (x, n)"
  then show "0 < n \<and> n \<le> length bs" by (auto simp: req_dec_def Let_def split: if_splits)
next
  fix bs cs and r :: "bytes \<times> nat" assume "req_dec bs = Some r"
  then show "req_dec (bs @ cs) = Some r" by (auto simp: req_dec_def Let_def split: if_splits)
qed

definition request_of :: "nat \<Rightarrow> bytes \<Rightarrow> request" where
  "request_of conn body = \<lparr>data = body, reply = conn, resp = None\<rparr>"

lemma read_conn_frames:
  "read_conn (\<lambda>_. True) conn i bs = map (request_of conn) (fst (frames req_dec bs))"
proof (induction "\<lambda>_ :: nat. True" conn i bs rule: read_conn.induct)
  case (1 conn i bs)
  let ?len = "unat (le_word (take 4 bs) :: u32)"
  show ?case
  proof (cases "length bs < 4 + ?len \<or> length bs < 4 \<or> ?len = 0 \<or> MAX_FRAME < ?len")
    case True
    then have "req_dec bs = None" by (simp add: req_dec_def)
    moreover have "read_conn (\<lambda>_. True) conn i bs = []"
      using True by (auto simp: read_conn.simps [of _ conn i bs] Let_def)
    ultimately show ?thesis by (simp add: frames_None)
  next
    case False
    then have dec: "req_dec bs = Some (take ?len (drop 4 bs), 4 + ?len)"
      by (simp add: req_dec_def Let_def)
    have fits: "\<not> length (drop 4 bs) < ?len" using False unfolding length_drop by linarith
    have "read_conn (\<lambda>_. True) conn i bs =
        request_of conn (take ?len (drop 4 bs)) # read_conn (\<lambda>_. True) conn (Suc i) (drop ?len (drop 4 bs))"
      using False fits by (simp add: read_conn.simps [of _ conn i bs] Let_def request_of_def del: length_drop)
    moreover have "read_conn (\<lambda>_. True) conn (Suc i) (drop ?len (drop 4 bs)) =
        map (request_of conn) (fst (frames req_dec (drop (4 + ?len) bs)))"
      using 1 False fits by (simp add: add.commute)
    ultimately show ?thesis using False frames_Some [of req_dec bs, OF dec] by simp
  qed
qed

section \<open>Responses as frames\<close>

definition resp_payload :: "resp \<Rightarrow> bytes" where
  "resp_payload r = to_proto_code r # (case r of Value v \<Rightarrow> v | _ \<Rightarrow> [])"

definition resp_bytes :: "resp \<Rightarrow> bytes" where
  "resp_bytes r = le32 (as_u32 (length (resp_payload r))) @ resp_payload r"

definition resp_ok :: "resp \<Rightarrow> bool" where
  "resp_ok r \<longleftrightarrow> r \<noteq> UnknownResp \<and> length (resp_payload r) < 2 ^ 32"

lemma encode_resp_eq: "r \<noteq> UnknownResp \<Longrightarrow> encode_resp buf r = Inr (buf @ resp_bytes r)"
  by (cases r) (simp_all add: encode_resp_def resp_bytes_def resp_payload_def as_u32_def)

lemma drain_ready_eq:
  "UnknownResp \<notin> set rs \<Longrightarrow>
   \<exists>m \<le> length rs. drain_ready buf rs = Inr (buf @ concat (map resp_bytes (take m rs)), drop m rs)"
proof (induction rs arbitrary: buf)
  case Nil
  then show ?case by simp
next
  case (Cons r rs)
  then have r: "encode_resp buf r = Inr (buf @ resp_bytes r)" by (intro encode_resp_eq) auto
  show ?case
  proof (cases "256 * 1024 \<le> length (buf @ resp_bytes r)")
    case True
    then show ?thesis using r by (intro exI [of _ 1]) simp
  next
    case False
    from Cons obtain m where "m \<le> length rs"
      "drain_ready (buf @ resp_bytes r) rs =
        Inr ((buf @ resp_bytes r) @ concat (map resp_bytes (take m rs)), drop m rs)" by fastforce
    then show ?thesis using r False by (intro exI [of _ "Suc m"]) simp
  qed
qed

lemma writer_step:
  assumes q: "UnknownResp \<notin> set (first # q)"
  obtains m where "m \<le> length q"
    "writer ((n, Some k) # ts) (first # q) = Inr (take k (concat (map resp_bytes (first # take m q))))"
    "writer ((n, None) # ts) (first # q) =
       obind (writer ts (drop m q)) (\<lambda>rest. Inr (concat (map resp_bytes (first # take m q)) @ rest))"
proof -
  have first: "encode_resp [] first = Inr (resp_bytes first)"
    using encode_resp_eq [of first "[]"] q by auto
  have "UnknownResp \<notin> set (take n q)" using q by (auto dest: in_set_takeD)
  from drain_ready_eq [OF this] obtain m where m: "m \<le> length (take n q)"
    and dr: "drain_ready (resp_bytes first) (take n q) =
      Inr (resp_bytes first @ concat (map resp_bytes (take m (take n q))), drop m (take n q))" by blast
  have left: "drop m (take n q) @ drop n q = drop m q"
    using m drop_append [of m "take n q" "drop n q"] by simp
  have tk: "take m (take n q) = take m q" using m by simp
  show thesis
    by (rule that [of m]) (use m first dr in \<open>simp_all add: tk left\<close>)
qed

lemma writer_prefix:
  "UnknownResp \<notin> set q \<Longrightarrow>
   \<exists>bs. writer sched q = Inr bs \<and> prefix bs (concat (map resp_bytes q)) \<and>
     (length q \<le> length sched \<and> (\<forall>t \<in> set sched. snd t = None) \<longrightarrow> bs = concat (map resp_bytes q))"
proof (induction sched arbitrary: q)
  case Nil
  then show ?case by simp
next
  case (Cons t ts)
  obtain n wr where t: "t = (n, wr)" by (cases t)
  show ?case
  proof (cases q)
    case Nil
    then show ?thesis by simp
  next
    case q: (Cons first q')
    from Cons.prems q have "UnknownResp \<notin> set (first # q')" by simp
    then show ?thesis
    proof (rule writer_step [of _ _ n "the wr" ts])
      fix m
      let ?head = "concat (map resp_bytes (first # take m q'))"
      assume m: "m \<le> length q'"
        and fail: "writer ((n, Some (the wr)) # ts) (first # q') = Inr (take (the wr) ?head)"
        and ok: "writer ((n, None) # ts) (first # q') =
          obind (writer ts (drop m q')) (\<lambda>rest. Inr (?head @ rest))"
      have split: "concat (map resp_bytes q) = ?head @ concat (map resp_bytes (drop m q'))"
        by (simp add: q flip: concat_append map_append)
      show ?thesis
      proof (cases wr)
        case (Some k)
        have "prefix (take k ?head) (concat (map resp_bytes q))"
          unfolding split by (intro prefix_prefix take_is_prefix)
        then show ?thesis using fail by (simp add: t q Some)
      next
        case None
        have "UnknownResp \<notin> set (drop m q')" using Cons.prems q by (auto dest: in_set_dropD)
        from Cons.IH [OF this] obtain bs where bs: "writer ts (drop m q') = Inr bs"
          "prefix bs (concat (map resp_bytes (drop m q')))"
          "length (drop m q') \<le> length ts \<and> (\<forall>t \<in> set ts. snd t = None) \<longrightarrow>
             bs = concat (map resp_bytes (drop m q'))" by blast
        have "writer (t # ts) q = Inr (?head @ bs)" using ok bs(1) by (simp add: t q None)
        then show ?thesis using bs(2,3) unfolding split by (auto simp: q)
      qed
    qed
  qed
qed

section \<open>Properties\<close>

lemma read_conn_prefix: "prefix (read_conn send_ok conn i bs) (read_conn (\<lambda>_. True) conn j bs)"
proof (induction send_ok conn i bs arbitrary: j rule: read_conn.induct)
  case (1 send_ok conn i bs)
  show ?case
    unfolding read_conn.simps [of send_ok conn i bs] read_conn.simps [of "\<lambda>_. True" conn j bs] Let_def
    using 1 [OF _ refl _ _ refl, of "Suc j"] by simp
qed

text \<open>
  Stage 1 cuts the stream into exactly the frames that were sent. From a concatenation of
  frames with bodies of 1 byte to 8 MiB the reader hands over exactly those bodies, in order and
  tagged with their connection; a stream cut at any byte gives a prefix of them, never a wrong
  request; a length of zero or beyond the limit closes the connection after the frames before
  it, whatever follows; and when stage 2 is gone, what was handed over is still a prefix.
\<close>

lemma read_conn_exact:
  assumes "list_all body_ok xs"
  shows "read_conn (\<lambda>_. True) conn 0 (concat (map frame_bytes xs)) = map (request_of conn) xs \<and>
    (\<exists>m \<le> length xs. read_conn (\<lambda>_. True) conn 0 (take n (concat (map frame_bytes xs))) =
                        map (request_of conn) (take m xs)) \<and>
    (bad = 0 \<or> MAX_FRAME < unat bad \<longrightarrow>
       read_conn (\<lambda>_. True) conn 0 (concat (map frame_bytes xs) @ le32 bad @ rest) = map (request_of conn) xs) \<and>
    prefix (read_conn send_ok conn 0 (concat (map frame_bytes xs))) (map (request_of conn) xs)"
proof -
  have all: "read_conn (\<lambda>_. True) conn 0 (concat (map frame_bytes xs)) = map (request_of conn) xs"
    by (simp add: read_conn_frames reqf.frames_encoded [OF assms])
  moreover have "\<exists>m \<le> length xs. read_conn (\<lambda>_. True) conn 0 (take n (concat (map frame_bytes xs))) =
                        map (request_of conn) (take m xs)"
    using reqf.frames_truncated [OF assms, of n] by (auto simp: read_conn_frames)
  moreover have "read_conn (\<lambda>_. True) conn 0 (concat (map frame_bytes xs) @ le32 bad @ rest) = map (request_of conn) xs"
    if "bad = 0 \<or> MAX_FRAME < unat bad"
  proof -
    have "req_dec (le32 bad @ rest) = None" using that by (auto simp: req_dec_def Let_def)
    then show ?thesis
      by (simp add: read_conn_frames reqf.frames_encoded_append [OF assms] frames_None)
  qed
  ultimately show ?thesis using read_conn_prefix [of send_ok conn 0 "concat (map frame_bytes xs)" 0] by simp
qed

lemma read_conn_exact_example:
  "read_conn (\<lambda>_. True) 3 0 (concat (map frame_bytes [[9], [0, 0, 0, 0, 0]])) =
     [\<lparr>data = [9], reply = 3, resp = None\<rparr>, \<lparr>data = [0, 0, 0, 0, 0], reply = 3, resp = None\<rparr>]"
  using read_conn_exact [of "[[9], [0, 0, 0, 0, 0]]" 3]
  by (simp add: body_ok_def MAX_FRAME_def request_of_def)

text \<open>
  The writer sends the responses in order, however they are grouped. Over every schedule of
  its turns, the writer does not panic on the responses the server produces, and what reaches
  the socket is a prefix of the concatenated response frames in queue order; when no write
  fails and the writer gets enough turns, it is all of them.
\<close>

lemma writer_in_order:
  assumes "UnknownResp \<notin> set q"
  shows "\<exists>bs. writer sched q = Inr bs \<and> prefix bs (concat (map resp_bytes q)) \<and>
     (length q \<le> length sched \<and> list_all (\<lambda>t. snd t = None) sched \<longrightarrow> bs = concat (map resp_bytes q))"
  using writer_prefix [OF assms, of sched] by (auto simp: list_all_iff)

lemma writer_in_order_example:
  "\<exists>bs. writer [(1, None), (0, None)] [Ok, Value [7]] = Inr bs \<and>
     bs = [1, 0, 0, 0, 1, 2, 0, 0, 0, 0, 7]"
proof -
  have "resp_bytes Ok = [1, 0, 0, 0, 1]" "resp_bytes (Value [7]) = [2, 0, 0, 0, 0, 7]"
    by code_simp+
  then show ?thesis
    using writer_in_order [of "[Ok, Value [7]]" "[(1, None), (0, None)]"] by auto
qed

end
