(* ===== verification/Frame_Reader.thy ===== *)
theory Frame_Reader
  imports Stage1
begin

text \<open>
  The frame reader of the clients (\<open>crates/smart_client/src/reader.rs\<close>): a buffer to which the
  caller appends what it read from the socket, and from which it takes complete responses.
  The responses of stage 1 and this reader interpret the framing interface together.
\<close>

section \<open>The reader\<close>

record frame_reader =
  fr_buf :: bytes

definition frame_reader_new :: frame_reader where
  "frame_reader_new = \<lparr>fr_buf = []\<rparr>"

definition FRAME_HDR :: nat where
  "FRAME_HDR = 4"

definition feed :: "frame_reader \<Rightarrow> bytes \<Rightarrow> frame_reader" where
  "feed fr bs = fr\<lparr>fr_buf := fr_buf fr @ bs\<rparr>"

definition try_extract :: "frame_reader \<Rightarrow> (resp option \<times> frame_reader) outcome" where
  "try_extract fr =
     (if length (fr_buf fr) < FRAME_HDR then Inr (None, fr)
      else
        obind (slice (fr_buf fr) 0 FRAME_HDR) (\<lambda>hdr.
        obind (rd_u32 hdr) (\<lambda>body_len.
        let total = FRAME_HDR + body_len in
        if length (fr_buf fr) < total then Inr (None, fr)
        else
          obind (slice (fr_buf fr) FRAME_HDR total) (\<lambda>body.
            Inr (Some (from_proto_code body), fr\<lparr>fr_buf := drop total (fr_buf fr)\<rparr>)))))"

section \<open>Responses as a frame format\<close>

definition resp_dec :: "bytes \<Rightarrow> (resp \<times> nat) option" where
  "resp_dec bs =
     (let len = unat (le_word (take 4 bs) :: u32) in
      if length bs < 4 \<or> length bs < 4 + len then None
      else Some (from_proto_code (take len (drop 4 bs)), 4 + len))"

text \<open>Extraction never panics: the two length checks cover both slices and the header read.\<close>

lemma try_extract_eq:
  "try_extract fr =
     (case resp_dec (fr_buf fr) of
        None \<Rightarrow> Inr (None, fr)
      | Some (r, n) \<Rightarrow> Inr (Some r, fr\<lparr>fr_buf := drop n (fr_buf fr)\<rparr>))"
proof (cases "length (fr_buf fr) < 4")
  case True
  then show ?thesis by (simp add: try_extract_def resp_dec_def FRAME_HDR_def)
next
  case False
  let ?b = "fr_buf fr" and ?len = "unat (le_word (take 4 (fr_buf fr)) :: u32)"
  have hdr: "slice ?b 0 4 = Inr (take 4 ?b)" using False by (simp add: slice_def)
  have len: "rd_u32 (take 4 ?b) = Inr ?len" using False by (simp add: rd_u32_ok)
  show ?thesis
  proof (cases "length ?b < 4 + ?len")
    case True
    then show ?thesis
      using False hdr len by (simp add: try_extract_def resp_dec_def FRAME_HDR_def Let_def)
  next
    case fits: False
    then have "slice ?b 4 (4 + ?len) = Inr (take ?len (drop 4 ?b))" by (simp add: slice_def)
    then show ?thesis
      using False fits hdr len by (simp add: try_extract_def resp_dec_def FRAME_HDR_def Let_def)
  qed
qed

interpretation respf: frame_codec resp_bytes resp_dec resp_ok
proof unfold_locales
  fix r assume r: "resp_ok r"
  then have "from_proto_code (resp_payload r) = r"
    by (simp add: resp_payload_def from_to_proto_code resp_ok_def)
  then show "resp_dec (resp_bytes r) = Some (r, length (resp_bytes r))"
    using r by (simp add: resp_dec_def resp_bytes_def resp_ok_def)
next
  fix bs r n assume "resp_dec bs = Some (r, n)"
  then show "0 < n \<and> n \<le> length bs" by (auto simp: resp_dec_def Let_def split: if_splits)
next
  fix bs cs and r :: "resp \<times> nat" assume "resp_dec bs = Some r"
  then show "resp_dec (bs @ cs) = Some r" by (auto simp: resp_dec_def Let_def split: if_splits)
qed

lemma try_extract_shorter:
  "try_extract fr = Inr (Some r, fr') \<Longrightarrow> length (fr_buf fr') < length (fr_buf fr)"
  by (cases "resp_dec (fr_buf fr)") (use respf.dec_bounds in \<open>fastforce simp: try_extract_eq\<close>)+

text \<open>The loop \<open>while let Some(resp) = framer.try_extract()\<close> of the callers, as they run it after each read.\<close>

function extract_all :: "frame_reader \<Rightarrow> (resp list \<times> frame_reader) outcome" where
  "extract_all fr =
     (case try_extract fr of
        Inl e \<Rightarrow> Inl e
      | Inr (None, fr') \<Rightarrow> Inr ([], fr')
      | Inr (Some r, fr') \<Rightarrow> obind (extract_all fr') (\<lambda>(rs, fr''). Inr (r # rs, fr'')))"
  by pat_completeness auto
termination
  by (relation "measure (\<lambda>fr. length (fr_buf fr))") (auto dest: try_extract_shorter)

declare extract_all.simps [simp del]

lemma extract_all_frames:
  "extract_all fr = Inr (fst (frames resp_dec (fr_buf fr)), fr\<lparr>fr_buf := snd (frames resp_dec (fr_buf fr))\<rparr>)"
proof (induction fr rule: extract_all.induct)
  case (1 fr)
  show ?case
  proof (cases "resp_dec (fr_buf fr)")
    case None
    then show ?thesis by (simp add: extract_all.simps [of fr] try_extract_eq frames_None)
  next
    case (Some rn)
    obtain r n where rn: "rn = (r, n)" by (cases rn)
    let ?fr = "fr\<lparr>fr_buf := drop n (fr_buf fr)\<rparr>"
    have te: "try_extract fr = Inr (Some r, ?fr)" by (simp add: try_extract_eq Some rn)
    have b: "0 < n" "n \<le> length (fr_buf fr)" using respf.dec_bounds Some rn by auto
    from 1 [OF te refl refl] show ?thesis
      using Some rn b by (simp add: extract_all.simps [of fr] te frames_Some)
  qed
qed

fun feed_chunks :: "frame_reader \<Rightarrow> bytes list \<Rightarrow> (resp list \<times> frame_reader) outcome" where
  "feed_chunks fr [] = Inr ([], fr)"
| "feed_chunks fr (c # cs) =
     obind (extract_all (feed fr c)) (\<lambda>(rs, fr').
     obind (feed_chunks fr' cs) (\<lambda>(rs', fr'').
       Inr (rs @ rs', fr'')))"

lemma feed_chunks_frames:
  assumes "frames resp_dec (fr_buf fr) = ([], fr_buf fr)"
  shows "feed_chunks fr cs =
    Inr (fst (frames resp_dec (fr_buf fr @ concat cs)), \<lparr>fr_buf = snd (frames resp_dec (fr_buf fr @ concat cs))\<rparr>)"
  using assms
proof (induction cs arbitrary: fr)
  case Nil
  then show ?case by simp
next
  case (Cons c cs)
  let ?f = "frames resp_dec"
  let ?fr = "\<lparr>fr_buf = snd (?f (fr_buf fr @ c))\<rparr>"
  have ex: "extract_all (feed fr c) = Inr (fst (?f (fr_buf fr @ c)), ?fr)"
    by (simp add: extract_all_frames feed_def)
  have "?f (snd (?f (fr_buf fr @ c))) = ([], snd (?f (fr_buf fr @ c)))"
    using respf.frames_chunked [of "fr_buf fr @ c" "[]"] by (simp add: prod_eq_iff)
  with Cons.IH [of ?fr] show ?case
    using respf.frames_chunked [of "fr_buf fr @ c" "concat cs"] by (simp add: ex)
qed

section \<open>Properties\<close>

text \<open>
  C20. Chunking does not matter. Feed the pieces in which a stream of responses arrives one by one
  and extract after each, the stream complete or cut at any byte. The reader never panics; it
  has returned, in order, exactly the responses whose frames have arrived completely, and keeps
  exactly the bytes behind them, which are fewer than the next frame has. When the stream is
  complete, all responses are returned and the buffer is empty.
\<close>

theorem frame_reader_chunks:
  assumes ok: "list_all resp_ok rs" and bytes: "concat cs = take n (concat (map resp_bytes rs))"
  shows "\<exists>m \<le> length rs. \<exists>rest. feed_chunks frame_reader_new cs = Inr (take m rs, \<lparr>fr_buf = rest\<rparr>) \<and>
    concat cs = concat (map resp_bytes (take m rs)) @ rest \<and>
    (if m < length rs then length rest < length (resp_bytes (rs ! m)) else rest = []) \<and>
    (length (concat (map resp_bytes rs)) \<le> n \<longrightarrow> m = length rs)"
proof -
  let ?all = "concat (map resp_bytes rs)"
  have "frames resp_dec [] = ([], [])" using respf.frames_encoded [of "[]"] by simp
  then have run: "feed_chunks frame_reader_new cs =
      Inr (fst (frames resp_dec (concat cs)), \<lparr>fr_buf = snd (frames resp_dec (concat cs))\<rparr>)"
    using feed_chunks_frames [of frame_reader_new cs] by (simp add: frame_reader_new_def)
  from respf.frames_truncated [OF ok, of n] obtain m rest where m: "m \<le> length rs"
    "frames resp_dec (take n ?all) = (take m rs, rest)" "take n ?all = concat (map resp_bytes (take m rs)) @ rest"
    "if m < length rs then length rest < length (resp_bytes (rs ! m)) else rest = []" by blast
  moreover have "m = length rs" if "length ?all \<le> n"
  proof -
    have "length rs \<le> m" using cut_covers [OF m(3), of "length rs"] m(1,4) that by simp
    then show ?thesis using m(1) by simp
  qed
  ultimately show ?thesis unfolding bytes using run by (intro exI [of _ m] conjI exI [of _ rest]) (simp_all add: bytes)
qed

text \<open>The second frame lacks its last byte.\<close>

theorem frame_reader_chunks_witness:
  "feed_chunks frame_reader_new [[1, 0], [0, 0, 1, 2, 0, 0, 0], [0]] = Inr ([Ok], \<lparr>fr_buf = [2, 0, 0, 0, 0]\<rparr>)"
proof -
  let ?cs = "[[1, 0], [0, 0, 1, 2, 0, 0, 0], [0]] :: bytes list" and ?rs = "[Ok, Value [7]]"
  have b: "concat ?cs = take 10 (concat (map resp_bytes ?rs))"
    and l: "length (resp_bytes Ok) = 5" "length (resp_bytes (Value [7])) = 6" "resp_bytes Ok = [1, 0, 0, 0, 1]"
    by code_simp+
  have "list_all resp_ok ?rs" by (simp add: resp_ok_def resp_payload_def)
  from frame_reader_chunks [OF this b] obtain m rest where m: "m \<le> length ?rs"
    "feed_chunks frame_reader_new ?cs = Inr (take m ?rs, \<lparr>fr_buf = rest\<rparr>)"
    "concat ?cs = concat (map resp_bytes (take m ?rs)) @ rest"
    "if m < length ?rs then length rest < length (resp_bytes (?rs ! m)) else rest = []" by blast
  have "length (concat ?cs) = length (concat (map resp_bytes (take m ?rs))) + length rest" unfolding m(3) by simp
  moreover have "m = 0 \<or> m = 1 \<or> m = 2" using m(1) by auto
  ultimately have "m = 1" using m(4) l by auto
  then show ?thesis using m(2,3) l(3) by simp
qed

end
