(* ===== verification/Sync_Client.thy ===== *)
theory Sync_Client
  imports Frame_Reader
begin

text \<open>
  The blocking client (\<open>crates/smart_client/src/sync.rs\<close>): callers queue calls, a driver thread
  encodes them in groups and writes them to the socket, a reader thread matches responses to
  calls through a FIFO of reply channels. The model is a machine whose events are the steps of
  the three kinds of threads in any order: a caller queues a call, the driver takes a turn, the
  reader reads, the driver finishes a reconnect. Each event says how the system calls in it end.

  A reply channel is a number. \<open>reader_done\<close> is the reader thread's end, from which the FIFO
  refuses new entries; \<open>tx_open\<close> says that the driver still holds the sending side of the FIFO,
  that is, that it is not between dropping it and the next connection.
\<close>

section \<open>Calls and results\<close>

record call =
  call_op :: operation
  call_key :: bytes
  call_value :: "bytes option"
  call_tx :: nat

text \<open>\<open>Client::get\<close> and \<open>Client::put\<close>: the calls a caller can make.\<close>

definition client_get :: "bytes \<Rightarrow> nat \<Rightarrow> call" where
  "client_get k tx = \<lparr>call_op = Get, call_key = k, call_value = None, call_tx = tx\<rparr>"

definition client_put :: "bytes \<Rightarrow> bytes \<Rightarrow> nat \<Rightarrow> call" where
  "client_put k v tx = \<lparr>call_op = Put, call_key = k, call_value = Some v, call_tx = tx\<rparr>"

text \<open>What a caller gets: a response, the error sent by reader or driver, or the error it makes itself when its channel is dropped.\<close>

datatype call_result = Answer resp | ConnectionLost | DriverIsDead

section \<open>State\<close>

record client =
  chan :: "call list"
  fifo :: "nat list"
  framer :: frame_reader
  waiting :: "resp option"
  reader_done :: bool
  tx_open :: bool
  sock_out :: bytes
  results :: "(nat \<times> call_result) list"

definition client_connect :: client where
  "client_connect =
     \<lparr>chan = [], fifo = [], framer = frame_reader_new, waiting = None, reader_done = False,
      tx_open = True, sock_out = [], results = []\<rparr>"

section \<open>The reader thread\<close>

text \<open>
  The loop over the complete frames in the buffer. Each takes the oldest reply channel; when
  there is none, the thread waits for the driver (\<open>fifo.recv()\<close>), holding the response, or ends
  if the driver has dropped its side.
\<close>

definition reader_exit :: "client \<Rightarrow> client" where
  "reader_exit c =
     c\<lparr>reader_done := True, waiting := None, fifo := [],
       results := results c @ map (\<lambda>tx. (tx, ConnectionLost)) (fifo c)\<rparr>"

definition hand_over :: "client \<Rightarrow> resp \<Rightarrow> client" where
  "hand_over c r =
     (case fifo c of
        tx # q \<Rightarrow> c\<lparr>fifo := q, waiting := None, results := results c @ [(tx, Answer r)]\<rparr>
      | [] \<Rightarrow> if tx_open c then c\<lparr>waiting := Some r\<rparr> else reader_exit c)"

function deliver :: "client \<Rightarrow> client outcome" where
  "deliver c =
     (if waiting c \<noteq> None \<or> reader_done c then Inr c
      else
        case try_extract (framer c) of
          Inl e \<Rightarrow> Inl e
        | Inr (None, fr) \<Rightarrow> Inr (c\<lparr>framer := fr\<rparr>)
        | Inr (Some r, fr) \<Rightarrow> deliver (hand_over (c\<lparr>framer := fr\<rparr>) r))"
  by pat_completeness auto
termination
proof (relation "measure (\<lambda>c. length (fr_buf (framer c)))")
  show "wf (measure (\<lambda>c. length (fr_buf (framer c))))" by simp
next
  fix c :: client and z fr y' r
  assume "try_extract (framer c) = Inr z" "(y', fr) = z" "y' = Some r"
  then have "length (fr_buf fr) < length (fr_buf (framer c))" by (auto dest: try_extract_shorter)
  moreover have "framer (hand_over (c\<lparr>framer := fr\<rparr>) r) = fr"
    by (simp add: hand_over_def reader_exit_def split: list.splits)
  ultimately show "(hand_over (c\<lparr>framer := fr\<rparr>) r, c) \<in> measure (\<lambda>c. length (fr_buf (framer c)))" by simp
qed

declare deliver.simps [simp del]

text \<open>The reader resumes when a channel arrives or the driver drops its side while it waits.\<close>

definition resume :: "client \<Rightarrow> client outcome" where
  "resume c =
     (case waiting c of
        None \<Rightarrow> Inr c
      | Some r \<Rightarrow> deliver (hand_over (c\<lparr>waiting := None\<rparr>) r))"

section \<open>The driver thread\<close>

definition encode_calls :: "call list \<Rightarrow> bytes" where
  "encode_calls cs = foldl (\<lambda>buf k. fst (encode_raw buf (call_op k) (call_key k) (call_value k))) [] cs"

text \<open>
  One turn of the writer loop with a call at hand. \<open>saw_dead\<close> is the value of the \<open>dead\<close> flag it
  loads, which may be older than the reader's end; \<open>wr\<close> is \<open>None\<close> when the write succeeds and
  \<open>Some n\<close> when it fails after n bytes. A channel sent to a reader that is gone is dropped, and
  its caller sees that. After a failure the driver drops its side of the FIFO.
\<close>

definition driver_turn :: "bool \<Rightarrow> nat option \<Rightarrow> client \<Rightarrow> client outcome" where
  "driver_turn saw_dead wr c =
     (case chan c of
        [] \<Rightarrow> Inr c
      | first # rest \<Rightarrow>
          if saw_dead then
            resume (c\<lparr>chan := rest, tx_open := False,
                      results := results c @ [(call_tx first, ConnectionLost)]\<rparr>)
          else
            let buf = encode_calls (first # rest);
                txs = map call_tx (first # rest);
                c = c\<lparr>chan := []\<rparr>;
                c = (if reader_done c
                     then c\<lparr>results := results c @ map (\<lambda>tx. (tx, DriverIsDead)) txs\<rparr>
                     else c\<lparr>fifo := fifo c @ txs\<rparr>)
            in
              obind (resume c) (\<lambda>c.
                case wr of
                  None \<Rightarrow> Inr (c\<lparr>sock_out := sock_out c @ buf\<rparr>)
                | Some n \<Rightarrow> resume (c\<lparr>sock_out := sock_out c @ take n buf, tx_open := False\<rparr>)))"

text \<open>After the reader has been joined, the next connection starts with a new FIFO and reader.\<close>

definition next_connection :: "client \<Rightarrow> client" where
  "next_connection c =
     c\<lparr>fifo := [], framer := frame_reader_new, waiting := None, reader_done := False,
       tx_open := True, sock_out := []\<rparr>"

text \<open>The delays between connection attempts, in milliseconds.\<close>

definition next_delay :: "nat \<Rightarrow> nat" where
  "next_delay delay = min (delay * 2) 5000"

fun reconnect_delays :: "nat \<Rightarrow> bool list \<Rightarrow> nat list" where
  "reconnect_delays delay [] = []"
| "reconnect_delays delay (ok # attempts) =
     delay # (if ok then [] else reconnect_delays (next_delay delay) attempts)"

definition reconnect :: "bool list \<Rightarrow> nat list" where
  "reconnect attempts = reconnect_delays 100 attempts"

section \<open>The machine\<close>

datatype client_event =
    EvCall call
  | EvDriver bool "nat option"
  | EvRead bytes
  | EvReadEnd
  | EvReconnected

inductive client_step :: "client \<Rightarrow> client_event \<Rightarrow> client \<Rightarrow> bool" where
  call: "client_step c (EvCall k) (c\<lparr>chan := chan c @ [k]\<rparr>)"
| driver: "tx_open c \<Longrightarrow> chan c \<noteq> [] \<Longrightarrow> saw_dead \<longrightarrow> reader_done c \<Longrightarrow>
    driver_turn saw_dead wr c = Inr c' \<Longrightarrow> client_step c (EvDriver saw_dead wr) c'"
| read: "\<not> reader_done c \<Longrightarrow> waiting c = None \<Longrightarrow>
    deliver (c\<lparr>framer := feed (framer c) bs\<rparr>) = Inr c' \<Longrightarrow> client_step c (EvRead bs) c'"
| read_end: "\<not> reader_done c \<Longrightarrow> waiting c = None \<Longrightarrow> client_step c EvReadEnd (reader_exit c)"
| reconnected: "\<not> tx_open c \<Longrightarrow> reader_done c \<Longrightarrow> client_step c EvReconnected (next_connection c)"

inductive client_run :: "client \<Rightarrow> client_event list \<Rightarrow> client \<Rightarrow> bool" where
  stop: "client_run c [] c"
| step: "client_run c evs c' \<Longrightarrow> client_step c' ev c'' \<Longrightarrow> client_run c (evs @ [ev]) c''"

inductive_cases client_step_callE: "client_step c (EvCall k) c'"
inductive_cases client_step_driverE: "client_step c (EvDriver saw_dead wr) c'"
inductive_cases client_step_readE: "client_step c (EvRead bs) c'"
inductive_cases client_step_read_endE: "client_step c EvReadEnd c'"
inductive_cases client_step_reconnectedE: "client_step c EvReconnected c'"

lemmas client_step_elims = client_step_callE client_step_driverE client_step_readE
  client_step_read_endE client_step_reconnectedE

text \<open>The calls made and the bytes read in a run.\<close>

fun calls_of :: "client_event list \<Rightarrow> call list" where
  "calls_of [] = []"
| "calls_of (EvCall k # evs) = k # calls_of evs"
| "calls_of (_ # evs) = calls_of evs"

fun read_of :: "client_event list \<Rightarrow> bytes" where
  "read_of [] = []"
| "read_of (EvRead bs # evs) = bs @ read_of evs"
| "read_of (_ # evs) = read_of evs"

lemma calls_of_append [simp]: "calls_of (xs @ ys) = calls_of xs @ calls_of ys"
  by (induction xs rule: calls_of.induct) auto

lemma read_of_append [simp]: "read_of (xs @ ys) = read_of xs @ read_of ys"
  by (induction xs rule: read_of.induct) auto

section \<open>Every call is accounted for\<close>

text \<open>The channels that wait or have been served; every step keeps them.\<close>

definition held :: "client \<Rightarrow> nat multiset" where
  "held c = mset (fifo c) + mset (map fst (results c))"

lemma hand_over_simps [simp]:
  "held (hand_over c r) = held c" "chan (hand_over c r) = chan c" "tx_open (hand_over c r) = tx_open c"
  "sock_out (hand_over c r) = sock_out c"
  by (auto simp: hand_over_def reader_exit_def held_def o_def split: list.splits)

lemma held_updates [simp]:
  "held (c\<lparr>framer := fr\<rparr>) = held c" "held (c\<lparr>chan := ks\<rparr>) = held c" "held (c\<lparr>waiting := w\<rparr>) = held c"
  "held (c\<lparr>sock_out := bs\<rparr>) = held c" "held (c\<lparr>tx_open := b\<rparr>) = held c"
  by (simp_all add: held_def)

text \<open>A reader that has ended, and one that waits, have an empty FIFO.\<close>

definition reader_inv :: "client \<Rightarrow> bool" where
  "reader_inv c \<longleftrightarrow> (reader_done c \<longrightarrow> fifo c = [] \<and> waiting c = None) \<and> (waiting c \<noteq> None \<longrightarrow> fifo c = [])"

lemma reader_inv_hand_over:
  "\<not> reader_done c \<Longrightarrow> waiting c = None \<Longrightarrow> reader_inv (hand_over c r)"
  by (auto simp: reader_inv_def hand_over_def reader_exit_def split: list.splits)

lemma deliver_total:
  "reader_inv c \<Longrightarrow> \<exists>c'. deliver c = Inr c' \<and> held c' = held c \<and> chan c' = chan c \<and>
     tx_open c' = tx_open c \<and> sock_out c' = sock_out c \<and> reader_inv c'"
proof (induction c rule: deliver.induct)
  case (1 c)
  show ?case
  proof (cases "waiting c \<noteq> None \<or> reader_done c")
    case True
    then show ?thesis using 1 by (simp add: deliver.simps [of c])
  next
    case False
    show ?thesis
    proof (cases "resp_dec (fr_buf (framer c))")
      case None
      then show ?thesis using 1 False
        by (simp add: deliver.simps [of c] try_extract_eq held_def reader_inv_def)
    next
      case (Some rn)
      obtain r n where rn: "rn = (r, n)" by (cases rn)
      let ?fr = "(framer c)\<lparr>fr_buf := drop n (fr_buf (framer c))\<rparr>"
      have te: "try_extract (framer c) = Inr (Some r, ?fr)" by (simp add: try_extract_eq Some rn)
      have "reader_inv (hand_over (c\<lparr>framer := ?fr\<rparr>) r)" using False by (simp add: reader_inv_hand_over)
      from "1.IH" [OF False te refl refl this] show ?thesis
        using False by (simp add: deliver.simps [of c] te)
    qed
  qed
qed

lemma resume_total:
  assumes "reader_done c \<longrightarrow> fifo c = [] \<and> waiting c = None"
  shows "\<exists>c'. resume c = Inr c' \<and> held c' = held c \<and> chan c' = chan c \<and>
     tx_open c' = tx_open c \<and> sock_out c' = sock_out c \<and> reader_inv c'"
proof (cases "waiting c")
  case None
  then show ?thesis using assms by (simp add: resume_def reader_inv_def)
next
  case (Some r)
  then have "reader_inv (hand_over (c\<lparr>waiting := None\<rparr>) r)"
    using assms by (intro reader_inv_hand_over) auto
  from deliver_total [OF this] show ?thesis by (simp add: resume_def Some)
qed

definition owed :: "client \<Rightarrow> nat multiset" where
  "owed c = mset (map call_tx (chan c)) + held c"

lemma driver_turn_total:
  assumes inv: "reader_inv c"
  shows "\<exists>c'. driver_turn saw_dead wr c = Inr c' \<and> owed c' = owed c \<and> reader_inv c'"
proof (cases "chan c")
  case Nil
  then show ?thesis using inv by (simp add: driver_turn_def)
next
  case (Cons k ks)
  show ?thesis
  proof (cases saw_dead)
    case True
    let ?c = "c\<lparr>chan := ks, tx_open := False, results := results c @ [(call_tx k, ConnectionLost)]\<rparr>"
    have "reader_done ?c \<longrightarrow> fifo ?c = [] \<and> waiting ?c = None" using inv by (simp add: reader_inv_def)
    from resume_total [OF this] show ?thesis
      using True Cons by (auto simp: driver_turn_def owed_def held_def)
  next
    case False
    let ?txs = "map call_tx (k # ks)" and ?buf = "encode_calls (k # ks)"
    let ?c = "if reader_done c then c\<lparr>chan := [], results := results c @ map (\<lambda>tx. (tx, DriverIsDead)) ?txs\<rparr>
              else c\<lparr>chan := [], fifo := fifo c @ ?txs\<rparr>"
    have "reader_done ?c \<longrightarrow> fifo ?c = [] \<and> waiting ?c = None" using inv by (simp add: reader_inv_def)
    from resume_total [OF this] obtain c1 where c1: "resume ?c = Inr c1" "held c1 = held ?c" "chan c1 = chan ?c"
      "reader_inv c1" by blast
    have o1: "owed c1 = owed c" using c1 Cons by (simp add: owed_def held_def o_def image_mset.compositionality)
    have turn: "driver_turn saw_dead wr c =
        (case wr of None \<Rightarrow> Inr (c1\<lparr>sock_out := sock_out c1 @ ?buf\<rparr>)
         | Some n \<Rightarrow> resume (c1\<lparr>sock_out := sock_out c1 @ take n ?buf, tx_open := False\<rparr>))"
      using c1(1) False Cons by (simp add: driver_turn_def Let_def cong: if_cong)
    show ?thesis
    proof (cases wr)
      case None
      then show ?thesis using turn o1 c1(4) by (simp add: owed_def reader_inv_def)
    next
      case (Some n)
      let ?d = "c1\<lparr>sock_out := sock_out c1 @ take n ?buf, tx_open := False\<rparr>"
      have "reader_done ?d \<longrightarrow> fifo ?d = [] \<and> waiting ?d = None" using c1(4) by (simp add: reader_inv_def)
      from resume_total [OF this] show ?thesis using turn o1 Some by (auto simp: owed_def)
    qed
  qed
qed

lemma client_step_owed:
  assumes "client_step c ev c'" and inv: "reader_inv c"
  shows "reader_inv c' \<and> owed c' = owed c + mset (map call_tx (calls_of [ev]))"
  using assms(1)
proof cases
  case (call k)
  then show ?thesis using inv by (simp add: owed_def reader_inv_def)
next
  case (driver saw_dead wr)
  then show ?thesis using driver_turn_total [OF inv, of saw_dead wr] by auto
next
  case (read bs)
  have "reader_inv (c\<lparr>framer := feed (framer c) bs\<rparr>)" using inv by (simp add: reader_inv_def)
  from deliver_total [OF this] read show ?thesis by (auto simp: owed_def)
next
  case read_end
  then show ?thesis by (simp add: owed_def held_def reader_exit_def reader_inv_def o_def)
next
  case reconnected
  then show ?thesis using inv by (simp add: owed_def held_def next_connection_def reader_inv_def)
qed

lemma client_run_owed:
  "client_run c evs c' \<Longrightarrow> reader_inv c \<Longrightarrow>
   reader_inv c' \<and> owed c' = owed c + mset (map call_tx (calls_of evs))"
  by (induction rule: client_run.induct) (auto dest: client_step_owed)

section \<open>Responses go to their calls\<close>

text \<open>
  The history of one connection: \<open>txs\<close> are the channels sent to the FIFO, \<open>bs\<close> the bytes read,
  \<open>old\<close> the results before.
\<close>

definition fifo_inv :: "(nat \<times> call_result) list \<Rightarrow> nat list \<Rightarrow> bytes \<Rightarrow> client \<Rightarrow> bool" where
  "fifo_inv old txs bs c \<longleftrightarrow>
     (\<exists>served. length served \<le> length txs \<and>
        results c = old @ zip txs (map Answer served) \<and>
        fifo c = drop (length served) txs \<and>
        frames resp_dec bs =
          (served @ (case waiting c of None \<Rightarrow> [] | Some r \<Rightarrow> [r]) @ fst (frames resp_dec (fr_buf (framer c))),
           snd (frames resp_dec (fr_buf (framer c)))))"

definition live_conn :: "client \<Rightarrow> bool" where
  "live_conn c \<longleftrightarrow> \<not> reader_done c \<and> tx_open c"

definition drained :: "client \<Rightarrow> bool" where
  "drained c \<longleftrightarrow> (if waiting c = None then fst (frames resp_dec (fr_buf (framer c))) = [] else fifo c = [])"

lemma fifo_inv_hand_over:
  assumes "fifo_inv old txs bs (c\<lparr>waiting := Some r\<rparr>)" and "live_conn c"
  shows "fifo_inv old txs bs (hand_over (c\<lparr>waiting := None\<rparr>) r) \<and> live_conn (hand_over (c\<lparr>waiting := None\<rparr>) r) \<and>
    (waiting (hand_over (c\<lparr>waiting := None\<rparr>) r) \<noteq> None \<longrightarrow> drained (hand_over (c\<lparr>waiting := None\<rparr>) r))"
proof -
  let ?b = "fr_buf (framer c)"
  from assms obtain served where len: "length served \<le> length txs"
    and res: "results c = old @ zip txs (map Answer served)" and q: "fifo c = drop (length served) txs"
    and f: "frames resp_dec bs = (served @ r # fst (frames resp_dec ?b), snd (frames resp_dec ?b))"
    by (auto simp: fifo_inv_def)
  show ?thesis
  proof (cases "fifo c")
    case Nil
    then show ?thesis using assms(2) len res q f
      by (auto simp: hand_over_def live_conn_def drained_def fifo_inv_def intro!: exI [of _ served])
  next
    case (Cons tx rest)
    then have i: "length served < length txs" using q len by (cases "length served = length txs") auto
    then have "tx = txs ! length served" "rest = drop (Suc (length served)) txs"
      using Cons q by (simp_all add: Cons_nth_drop_Suc [symmetric])
    moreover have "zip txs (map Answer (served @ [r])) = zip txs (map Answer served) @ [(txs ! length served, Answer r)]"
      using zip_snoc [of "map Answer served" txs "Answer r"] i by simp
    ultimately show ?thesis using assms(2) Cons res f i
      by (auto simp: hand_over_def live_conn_def fifo_inv_def intro!: exI [of _ "served @ [r]"])
  qed
qed

lemma deliver_fifo:
  "fifo_inv old txs bs c \<Longrightarrow> live_conn c \<Longrightarrow> (waiting c \<noteq> None \<longrightarrow> drained c) \<Longrightarrow>
   \<exists>c'. deliver c = Inr c' \<and> fifo_inv old txs bs c' \<and> live_conn c' \<and> drained c' \<and>
     chan c' = chan c \<and> sock_out c' = sock_out c"
proof (induction c rule: deliver.induct)
  case (1 c)
  show ?case
  proof (cases "waiting c")
    case (Some r)
    then show ?thesis using "1.prems" by (simp add: deliver.simps [of c])
  next
    case None
    then have go: "\<not> (waiting c \<noteq> None \<or> reader_done c)" using "1.prems"(2) by (simp add: live_conn_def)
    show ?thesis
    proof (cases "resp_dec (fr_buf (framer c))")
      case N: None
      then show ?thesis using "1.prems" go
        by (simp add: deliver.simps [of c] try_extract_eq drained_def frames_None fifo_inv_def live_conn_def)
    next
      case (Some rn)
      obtain r n where rn: "rn = (r, n)" by (cases rn)
      let ?fr = "(framer c)\<lparr>fr_buf := drop n (fr_buf (framer c))\<rparr>"
      let ?c = "c\<lparr>framer := ?fr\<rparr>"
      have te: "try_extract (framer c) = Inr (Some r, ?fr)" by (simp add: try_extract_eq Some rn)
      have b: "0 < n" "n \<le> length (fr_buf (framer c))" using respf.dec_bounds Some rn by auto
      have c: "?c\<lparr>waiting := None\<rparr> = ?c" using None by simp
      have "fifo_inv old txs bs (?c\<lparr>waiting := Some r\<rparr>)"
        using "1.prems"(1) None frames_Some [of resp_dec "fr_buf (framer c)" r n] Some rn b
        by (simp add: fifo_inv_def)
      moreover have "live_conn ?c" using "1.prems"(2) by (simp add: live_conn_def)
      ultimately have "fifo_inv old txs bs (hand_over ?c r) \<and> live_conn (hand_over ?c r) \<and>
          (waiting (hand_over ?c r) \<noteq> None \<longrightarrow> drained (hand_over ?c r))"
        using fifo_inv_hand_over [where c = ?c and r = r] unfolding c by blast
      with "1.IH" [OF go te refl refl] show ?thesis using go by (simp add: deliver.simps [of c] te)
    qed
  qed
qed

lemma fifo_inv_push:
  "fifo_inv old txs bs c \<Longrightarrow> fifo_inv old (txs @ new) bs (c\<lparr>fifo := fifo c @ new\<rparr>)"
  unfolding fifo_inv_def by (auto simp: zip_append1)

lemma fifo_inv_feed:
  "fifo_inv old txs bs c \<Longrightarrow> fifo_inv old txs (bs @ x) (c\<lparr>framer := feed (framer c) x\<rparr>)"
  unfolding fifo_inv_def
  using respf.frames_chunked [of bs x] respf.frames_chunked [of "fr_buf (framer c)" x]
  by (auto simp: feed_def)

lemma resume_fifo:
  assumes "fifo_inv old txs bs c" and "live_conn c" and "waiting c = None \<longrightarrow> drained c"
  shows "\<exists>c'. resume c = Inr c' \<and> fifo_inv old txs bs c' \<and> live_conn c' \<and> drained c' \<and>
     chan c' = chan c \<and> sock_out c' = sock_out c"
proof (cases "waiting c")
  case None
  then show ?thesis using assms by (simp add: resume_def)
next
  case (Some r)
  then have "c\<lparr>waiting := Some r\<rparr> = c" by simp
  then have "fifo_inv old txs bs (c\<lparr>waiting := Some r\<rparr>)" using assms(1) by simp
  from fifo_inv_hand_over [OF this assms(2)] deliver_fifo [of old txs bs "hand_over (c\<lparr>waiting := None\<rparr>) r"]
  show ?thesis by (simp add: resume_def Some)
qed

lemma driver_turn_fifo:
  assumes c: "fifo_inv old txs bs c" "live_conn c" "drained c" and ne: "chan c \<noteq> []"
  shows "\<exists>c'. driver_turn False None c = Inr c' \<and> fifo_inv old (txs @ map call_tx (chan c)) bs c' \<and>
     live_conn c' \<and> drained c' \<and> chan c' = [] \<and> sock_out c' = sock_out c @ encode_calls (chan c)"
proof -
  let ?c = "c\<lparr>chan := [], fifo := fifo c @ map call_tx (chan c)\<rparr>"
  have "fifo_inv old (txs @ map call_tx (chan c)) bs ?c"
    using fifo_inv_push [OF c(1), of "map call_tx (chan c)"] by (simp add: fifo_inv_def)
  moreover have "live_conn ?c" "waiting ?c = None \<longrightarrow> drained ?c"
    using c(2,3) by (simp_all add: live_conn_def drained_def)
  ultimately obtain c' where c': "resume ?c = Inr c'" "fifo_inv old (txs @ map call_tx (chan c)) bs c'"
    "live_conn c'" "drained c'" "chan c' = []" "sock_out c' = sock_out c"
    using resume_fifo [of old "txs @ map call_tx (chan c)" bs ?c] by auto
  have "driver_turn False None c = Inr (c'\<lparr>sock_out := sock_out c @ encode_calls (chan c)\<rparr>)"
    using ne c'(1,6) c(2) by (cases "chan c") (simp_all add: driver_turn_def Let_def live_conn_def)
  then show ?thesis using c'(2-5) by (simp add: fifo_inv_def live_conn_def drained_def)
qed

section \<open>What the driver writes\<close>

definition call_body :: "call \<Rightarrow> bytes" where
  "call_body k = req_body (call_op k) (call_key k) (opt_bytes (call_value k))"

text \<open>The calls of the public interface, with keys and values that fit a frame.\<close>

definition call_ok :: "call \<Rightarrow> bool" where
  "call_ok k \<longleftrightarrow>
     (\<exists>key tx. k = client_get key tx) \<or> (\<exists>key v tx. k = client_put key v tx)"

definition call_bytes :: "call \<Rightarrow> bytes" where
  "call_bytes k = (if call_op k = Put \<and> call_value k = None then [] else frame_bytes (call_body k))"

lemma encode_raw_call: "fst (encode_raw buf (call_op k) (call_key k) (call_value k)) = buf @ call_bytes k"
  by (simp add: encode_raw_eq call_bytes_def frame_bytes_def call_body_def)

lemma encode_calls_eq: "encode_calls ks = concat (map call_bytes ks)"
proof -
  have "foldl (\<lambda>buf k. fst (encode_raw buf (call_op k) (call_key k) (call_value k))) buf ks =
      buf @ concat (map call_bytes ks)" for buf
    by (induction ks arbitrary: buf) (simp_all add: encode_raw_call)
  then show ?thesis by (simp add: encode_calls_def)
qed

lemma encode_calls_append: "encode_calls (ks @ ls) = encode_calls ks @ encode_calls ls"
  by (simp add: encode_calls_eq)

lemma encode_calls_frames:
  "list_all call_ok ks \<Longrightarrow> encode_calls ks = concat (map frame_bytes (map call_body ks))"
  unfolding encode_calls_eq
  by (induction ks) (auto simp: call_bytes_def call_ok_def client_get_def client_put_def)

section \<open>Runs of one connection\<close>

text \<open>Events that leave the connection up: no read error or end of stream, no failed write.\<close>

fun keeps_up :: "client_event \<Rightarrow> bool" where
  "keeps_up EvReadEnd = False"
| "keeps_up (EvDriver saw_dead (Some n)) = False"
| "keeps_up _ = True"

definition conn_inv :: "client_event list \<Rightarrow> client \<Rightarrow> bool" where
  "conn_inv evs c \<longleftrightarrow>
     (\<exists>sent. calls_of evs = sent @ chan c \<and> sock_out c = encode_calls sent \<and>
        fifo_inv [] (map call_tx sent) (read_of evs) c) \<and> live_conn c \<and> drained c"

lemma conn_inv_step:
  assumes inv: "conn_inv evs c" and "client_step c ev c'" and "keeps_up ev"
  shows "conn_inv (evs @ [ev]) c'"
proof -
  from inv obtain sent where s: "calls_of evs = sent @ chan c" "sock_out c = encode_calls sent"
    "fifo_inv [] (map call_tx sent) (read_of evs) c" and up: "live_conn c" "drained c"
    by (auto simp: conn_inv_def)
  from assms(2) show ?thesis
  proof cases
    case (call k)
    then show ?thesis using s up by (auto simp: conn_inv_def fifo_inv_def live_conn_def drained_def)
  next
    case (driver saw_dead wr)
    then have "saw_dead = False" "wr = None"
      using up(1) assms(3) by (auto simp: live_conn_def intro: keeps_up.cases [of ev])
    then show ?thesis
      using driver driver_turn_fifo [OF s(3) up driver(3)] s(1,2)
      by (auto simp: conn_inv_def encode_calls_append intro!: exI [of _ "sent @ chan c"])
  next
    case (read bs)
    let ?c = "c\<lparr>framer := feed (framer c) bs\<rparr>"
    have "live_conn ?c" "waiting ?c \<noteq> None \<longrightarrow> drained ?c"
      using up read by (simp_all add: live_conn_def)
    with deliver_fifo [OF fifo_inv_feed [OF s(3)]] read show ?thesis
      using s(1,2) by (fastforce simp: conn_inv_def)
  next
    case read_end
    then show ?thesis using assms(3) by simp
  next
    case reconnected
    then show ?thesis using up by (simp add: live_conn_def)
  qed
qed

lemma conn_inv_run:
  "client_run c evs c' \<Longrightarrow> c = client_connect \<Longrightarrow> list_all keeps_up evs \<Longrightarrow> conn_inv evs c'"
proof (induction rule: client_run.induct)
  case (stop c)
  have "frames resp_dec [] = ([], [])" using respf.frames_encoded [of "[]"] by simp
  then show ?case using stop
    by (simp add: conn_inv_def client_connect_def fifo_inv_def live_conn_def drained_def
        frame_reader_new_def encode_calls_def)
next
  case (step c evs c' ev c'')
  then show ?case by (auto intro: conn_inv_step)
qed

lemma fifo_inv_results:
  assumes "fifo_inv old txs bs c" and "drained c"
  shows "results c = old @ zip txs (map Answer (fst (frames resp_dec bs)))"
proof -
  from assms obtain served where s: "length served \<le> length txs"
    "results c = old @ zip txs (map Answer served)" "fifo c = drop (length served) txs"
    "fst (frames resp_dec bs) =
       served @ (case waiting c of None \<Rightarrow> [] | Some r \<Rightarrow> [r]) @ fst (frames resp_dec (fr_buf (framer c)))"
    by (auto simp: fifo_inv_def)
  show ?thesis
  proof (cases "waiting c")
    case None
    then show ?thesis using s assms(2) by (simp add: drained_def)
  next
    case (Some r)
    then have "length txs \<le> length served" using s assms(2) by (simp add: drained_def)
    then show ?thesis using s by (simp add: zip_longer)
  qed
qed

lemma fifo_inv_read_end:
  assumes "fifo_inv old txs bs c" and "drained c" and "waiting c = None"
  shows "results (reader_exit c) = old @ zip txs (map Answer (fst (frames resp_dec bs))) @
    map (\<lambda>tx. (tx, ConnectionLost)) (drop (length (fst (frames resp_dec bs))) txs)"
  using assms by (auto simp: fifo_inv_def drained_def reader_exit_def)

lemma client_results:
  assumes "client_run client_connect evs c" and "list_all keeps_up evs"
  shows "\<exists>sent. calls_of evs = sent @ chan c \<and> sock_out c = encode_calls sent \<and>
    results c = zip (map call_tx sent) (map Answer (fst (frames resp_dec (read_of evs))))"
  using conn_inv_run [OF assms(1) refl assms(2)] fifo_inv_results [of "[]"] by (auto simp: conn_inv_def)

text \<open>Calls queued, written as one group, and then any bytes read.\<close>

lemma run_calls: "client_run client_connect (map EvCall ks) (client_connect\<lparr>chan := ks\<rparr>)"
proof (induction ks rule: rev_induct)
  case Nil
  have "client_connect\<lparr>chan := []\<rparr> = client_connect" by (simp add: client_connect_def)
  then show ?case by (simp add: client_run.stop)
next
  case (snoc k ks)
  from client_run.step [OF snoc client_step.call [of _ k]] show ?case by simp
qed

lemma run_group:
  assumes "ks \<noteq> []"
  shows "\<exists>c. client_run client_connect (map EvCall ks @ [EvDriver False None, EvRead bs]) c \<and> chan c = []"
proof -
  let ?c1 = "client_connect\<lparr>chan := ks\<rparr>" and ?evs = "map EvCall ks @ [EvDriver False None]"
  have up: "list_all keeps_up (map EvCall ks)" by (simp add: list_all_iff)
  have "conn_inv (map EvCall ks) ?c1" using conn_inv_run [OF run_calls refl up] .
  then obtain c2 where c2: "driver_turn False None ?c1 = Inr c2" "chan c2 = []"
    using driver_turn_fifo [of "[]" _ _ ?c1] assms by (fastforce simp: conn_inv_def)
  have "client_step ?c1 (EvDriver False None) c2"
    by (rule client_step.driver [OF _ _ _ c2(1)]) (simp_all add: client_connect_def assms)
  from client_run.step [OF run_calls this] have r2: "client_run client_connect ?evs c2" .
  have i2: "conn_inv ?evs c2" using conn_inv_run [OF r2] up by simp
  have rd: "read_of (map EvCall xs) = []" for xs by (induction xs) auto
  have w: "waiting c2 = None"
    using i2 respf.frames_encoded [of "[]"] by (auto simp: conn_inv_def fifo_inv_def rd split: option.splits)
  let ?c2 = "c2\<lparr>framer := feed (framer c2) bs\<rparr>"
  obtain sent :: "call list" where "fifo_inv [] (map call_tx sent) [] c2" "live_conn c2"
    using i2 by (auto simp: conn_inv_def rd)
  then obtain c3 where c3: "deliver ?c2 = Inr c3" "chan c3 = chan c2"
    using deliver_fifo [OF fifo_inv_feed [of "[]" "map call_tx sent" "[]" c2 bs]] w
    by (fastforce simp: live_conn_def)
  have "client_step c2 (EvRead bs) c3"
    using i2 w c3(1) by (intro client_step.read) (simp_all add: conn_inv_def live_conn_def)
  from client_run.step [OF r2 this] show ?thesis using c2(2) c3(2) by auto
qed

lemma next_delay_power: "next_delay (min (100 * 2 ^ i) 5000) = min (100 * 2 ^ Suc i) 5000"
  by (simp add: next_delay_def min_def)

lemma reconnect_delays_eq:
  "reconnect_delays (min (100 * 2 ^ i) 5000) attempts =
   map (\<lambda>j. min (100 * 2 ^ j) 5000) [i..<i + length (reconnect_delays (min (100 * 2 ^ i) 5000) attempts)]"
proof (induction attempts arbitrary: i)
  case Nil
  then show ?case by simp
next
  case (Cons ok attempts)
  show ?case
  proof (cases ok)
    case True
    then show ?thesis by simp
  next
    case False
    let ?n = "length (reconnect_delays (min (100 * 2 ^ Suc i) 5000) attempts)"
    have "reconnect_delays (min (100 * 2 ^ i) 5000) (ok # attempts) =
        min (100 * 2 ^ i) 5000 # reconnect_delays (min (100 * 2 ^ Suc i) 5000) attempts"
      using False by (simp add: next_delay_power del: power_Suc)
    moreover have "[i..<i + Suc ?n] = i # [Suc i..<Suc i + ?n]"
      by (subst upt_conv_Cons) simp_all
    ultimately show ?thesis using Cons.IH [of "Suc i"] by (simp del: upt_Suc power_Suc)
  qed
qed

section \<open>Properties\<close>

text \<open>
  C11. On one connection the k-th response goes to the k-th call. In every run in which the
  connection stays up, under every interleaving of callers, driver and reader and every
  chunking of the responses, the calls are written to the socket in the order they were queued,
  and the results are exactly the responses received, each paired with the call at its
  position. When the stream then ends, every call that was sent and not answered gets
  \<open>connection lost\<close>.
\<close>

theorem client_fifo:
  assumes run: "client_run client_connect evs c" and up: "list_all keeps_up evs"
    and ok: "list_all resp_ok rs" and bytes: "read_of evs = concat (map resp_bytes rs)"
  shows "\<exists>sent. calls_of evs = sent @ chan c \<and> sock_out c = encode_calls sent \<and>
           results c = zip (map call_tx sent) (map Answer rs) \<and>
           (\<forall>c'. client_step c EvReadEnd c' \<longrightarrow>
              results c' = zip (map call_tx sent) (map Answer rs) @
                map (\<lambda>tx. (tx, ConnectionLost)) (drop (length rs) (map call_tx sent)))"
proof -
  have fr: "fst (frames resp_dec (read_of evs)) = rs"
    using respf.frames_encoded [OF ok] by (simp add: bytes)
  from conn_inv_run [OF run refl up] obtain sent where
    s: "calls_of evs = sent @ chan c" "sock_out c = encode_calls sent"
    and inv: "fifo_inv [] (map call_tx sent) (read_of evs) c" and d: "drained c"
    by (auto simp: conn_inv_def)
  have "results c = zip (map call_tx sent) (map Answer rs)"
    using fifo_inv_results [OF inv d] by (simp add: fr)
  moreover have "results c' = zip (map call_tx sent) (map Answer rs) @
      map (\<lambda>tx. (tx, ConnectionLost)) (drop (length rs) (map call_tx sent))"
    if "client_step c EvReadEnd c'" for c'
    using that fifo_inv_read_end [OF inv d] by (auto simp: fr elim: client_step_read_endE)
  ultimately show ?thesis using s by blast
qed

theorem client_fifo_witness:
  "\<exists>c. client_run client_connect [EvCall (client_get [1] 5), EvDriver False None, EvRead [2, 0, 0, 0, 0, 7]] c \<and>
       results c = [(5, Answer (Value [7]))]"
proof -
  let ?evs = "map EvCall [client_get [1] 5] @ [EvDriver False None, EvRead [2, 0, 0, 0, 0, 7]]"
  obtain c where r: "client_run client_connect ?evs c" "chan c = []"
    using run_group [of "[client_get [1] 5]" "[2, 0, 0, 0, 0, 7]"] by blast
  have b: "[2, 0, 0, 0, 0, 7] = resp_bytes (Value [7])" by code_simp
  have "list_all resp_ok [Value [7]]" by (simp add: resp_ok_def resp_payload_def)
  from client_fifo [OF r(1) _ this] r show ?thesis using b by (auto simp: client_get_def)
qed

text \<open>
  C21. No call is forgotten or answered twice. In every run, with lost connections, failed
  writes and stale views of the connection's state, each call made is in exactly one place:
  queued, waiting for its response, or finished with exactly one result. The client's threads
  never panic, and once the reader has ended nobody waits on its connection.
\<close>

theorem client_accounts:
  assumes "client_run client_connect evs c"
  shows "mset (map call_tx (calls_of evs)) =
           mset (map call_tx (chan c)) + mset (fifo c) + mset (map fst (results c)) \<and>
         (reader_done c \<longrightarrow> fifo c = []) \<and>
         (\<exists>c'. driver_turn saw_dead wr c = Inr c') \<and>
         (\<exists>c'. deliver (c\<lparr>framer := feed (framer c) bs\<rparr>) = Inr c')"
proof -
  have "reader_inv client_connect" "owed client_connect = {#}"
    by (simp_all add: reader_inv_def client_connect_def owed_def held_def)
  with client_run_owed [OF assms] have inv: "reader_inv c"
    and owed: "owed c = mset (map call_tx (calls_of evs))" by simp_all
  have "reader_inv (c\<lparr>framer := feed (framer c) bs\<rparr>)" using inv by (simp add: reader_inv_def)
  from deliver_total [OF this] driver_turn_total [OF inv, of saw_dead wr] show ?thesis
    using inv owed by (auto simp: owed_def held_def reader_inv_def add.assoc)
qed

theorem client_accounts_witness:
  "\<exists>c. client_run client_connect [EvCall (client_get [1] 5), EvReadEnd] c \<and>
     {#5#} = mset (map call_tx (chan c)) + mset (fifo c) + mset (map fst (results c))"
proof -
  let ?c1 = "client_connect\<lparr>chan := [client_get [1] 5]\<rparr>"
  have "client_run client_connect [EvCall (client_get [1] 5)] ?c1"
    using client_run.step [OF client_run.stop client_step.call [of client_connect "client_get [1] 5"]]
    by (simp add: client_connect_def)
  moreover have "client_step ?c1 EvReadEnd (reader_exit ?c1)"
    by (intro client_step.read_end) (simp_all add: client_connect_def)
  ultimately have r: "client_run client_connect [EvCall (client_get [1] 5), EvReadEnd] (reader_exit ?c1)"
    using client_run.step by fastforce
  from client_accounts [OF r] show ?thesis using r by (auto simp: client_get_def)
qed

text \<open>
  Reconnecting backs off exponentially. The i-th attempt of a reconnect is made after
  100 milliseconds doubled i times, but never after more than 5 seconds.
\<close>

lemma reconnect_backoff:
  "reconnect attempts = map (\<lambda>i. min (100 * 2 ^ i) 5000) [0..<length (reconnect attempts)]"
  using reconnect_delays_eq [of 0 attempts] by (simp add: reconnect_def)

end
