(* ===== verification/Async_Client.thy ===== *)
theory Async_Client
  imports Sync_Client
begin

text \<open>
  The tokio client (\<open>crates/smart_client/src/async_client.rs\<close>). Writer and reader are two futures
  of one task, joined by \<open>select!\<close>: when one returns, the other is dropped where it waits, and
  the supervisor reconnects. The reader's loop over frames and the channels are those of the
  blocking client; \<open>conn\<close> is that state. New are the writer suspended in the middle of a write
  (\<open>unwritten\<close> is what remains), the end of a connection by dropping, the supervisor's delay and
  the handles through which calls are made. A reply channel dropped unanswered is
  \<open>DriverIsDead\<close>, the error its caller makes itself (here: reader task is gone). The bound of the
  call channel delays callers and is not modelled.
\<close>

section \<open>State\<close>

record async_client =
  conn :: client
  unwritten :: "bytes option"
  up :: bool
  delay :: nat
  handles :: bool

definition async_connect :: async_client where
  "async_connect = \<lparr>conn = client_connect, unwritten = None, up = True, delay = 100, handles = True\<rparr>"

section \<open>Writer, reader and supervisor\<close>

text \<open>The writer takes all queued calls, encodes them and queues their reply channels.\<close>

definition writer_take :: "async_client \<Rightarrow> async_client" where
  "writer_take a =
     (let c = conn a in
      a\<lparr>conn := c\<lparr>chan := [], fifo := fifo c @ map call_tx (chan c)\<rparr>, unwritten := Some (encode_calls (chan c))\<rparr>)"

definition writer_progress :: "nat \<Rightarrow> bytes \<Rightarrow> async_client \<Rightarrow> async_client" where
  "writer_progress n bs a =
     a\<lparr>conn := (conn a)\<lparr>sock_out := sock_out (conn a) @ take n bs\<rparr>,
       unwritten := Some (drop n bs)\<rparr>"

text \<open>With everything written and flushed the writer goes back to waiting for calls.\<close>

definition writer_flushed :: "async_client \<Rightarrow> async_client" where
  "writer_flushed a = a\<lparr>unwritten := None\<rparr>"

text \<open>The writer returns first: the reader is dropped, and with it the queued reply channels.\<close>

definition drop_reader :: "client \<Rightarrow> client" where
  "drop_reader c =
     c\<lparr>reader_done := True, waiting := None, fifo := [],
       results := results c @ map (\<lambda>tx. (tx, DriverIsDead)) (fifo c)\<rparr>"

definition writer_returns :: "async_client \<Rightarrow> async_client" where
  "writer_returns a = a\<lparr>conn := drop_reader (conn a), unwritten := None, up := False\<rparr>"

text \<open>The reader returns first, after failing the calls that wait: the writer is dropped.\<close>

definition reader_returns :: "async_client \<Rightarrow> async_client" where
  "reader_returns a = a\<lparr>conn := reader_exit (conn a), unwritten := None, up := False\<rparr>"

definition connect_failed :: "async_client \<Rightarrow> async_client" where
  "connect_failed a = a\<lparr>delay := next_delay (delay a)\<rparr>"

definition reconnected_to :: "async_client \<Rightarrow> async_client" where
  "reconnected_to a = a\<lparr>conn := next_connection (conn a), unwritten := None, up := True, delay := 100\<rparr>"

section \<open>The machine\<close>

datatype async_event =
    AvCall call
  | AvTake
  | AvWrite nat
  | AvFlushed
  | AvWriteError
  | AvClosed
  | AvWake
  | AvRead bytes
  | AvReadEnd
  | AvDropHandles
  | AvConnectFailed
  | AvReconnected

inductive async_step :: "async_client \<Rightarrow> async_event \<Rightarrow> async_client \<Rightarrow> bool" where
  call: "handles a \<Longrightarrow> async_step a (AvCall k) (a\<lparr>conn := (conn a)\<lparr>chan := chan (conn a) @ [k]\<rparr>\<rparr>)"
| take_calls: "up a \<Longrightarrow> unwritten a = None \<Longrightarrow> chan (conn a) \<noteq> [] \<Longrightarrow> async_step a AvTake (writer_take a)"
| write_part: "up a \<Longrightarrow> unwritten a = Some bs \<Longrightarrow> async_step a (AvWrite n) (writer_progress n bs a)"
| flushed: "up a \<Longrightarrow> unwritten a = Some [] \<Longrightarrow> async_step a AvFlushed (writer_flushed a)"
| write_error: "up a \<Longrightarrow> unwritten a = Some bs \<Longrightarrow> async_step a AvWriteError (writer_returns a)"
| closed: "up a \<Longrightarrow> unwritten a = None \<Longrightarrow> chan (conn a) = [] \<Longrightarrow> \<not> handles a \<Longrightarrow>
    async_step a AvClosed (writer_returns a)"
| wake: "up a \<Longrightarrow> waiting (conn a) \<noteq> None \<Longrightarrow> fifo (conn a) \<noteq> [] \<Longrightarrow> resume (conn a) = Inr c \<Longrightarrow>
    async_step a AvWake (a\<lparr>conn := c\<rparr>)"
| read: "up a \<Longrightarrow> waiting (conn a) = None \<Longrightarrow>
    deliver ((conn a)\<lparr>framer := feed (framer (conn a)) bs\<rparr>) = Inr c \<Longrightarrow>
    async_step a (AvRead bs) (a\<lparr>conn := c\<rparr>)"
| read_end: "up a \<Longrightarrow> waiting (conn a) = None \<Longrightarrow> async_step a AvReadEnd (reader_returns a)"
| drop_handles: "async_step a AvDropHandles (a\<lparr>handles := False\<rparr>)"
| connect_failed: "\<not> up a \<Longrightarrow> async_step a AvConnectFailed (connect_failed a)"
| reconnected: "\<not> up a \<Longrightarrow> async_step a AvReconnected (reconnected_to a)"

inductive async_run :: "async_client \<Rightarrow> async_event list \<Rightarrow> async_client \<Rightarrow> bool" where
  stop: "async_run a [] a"
| step: "async_run a evs a' \<Longrightarrow> async_step a' ev a'' \<Longrightarrow> async_run a (evs @ [ev]) a''"

text \<open>The calls made and the bytes read in a run.\<close>

fun acalls_of :: "async_event list \<Rightarrow> call list" where
  "acalls_of [] = []"
| "acalls_of (AvCall k # evs) = k # acalls_of evs"
| "acalls_of (_ # evs) = acalls_of evs"

fun aread_of :: "async_event list \<Rightarrow> bytes" where
  "aread_of [] = []"
| "aread_of (AvRead bs # evs) = bs @ aread_of evs"
| "aread_of (_ # evs) = aread_of evs"

lemma acalls_of_append [simp]: "acalls_of (xs @ ys) = acalls_of xs @ acalls_of ys"
  by (induction xs rule: acalls_of.induct) auto

lemma aread_of_append [simp]: "aread_of (xs @ ys) = aread_of xs @ aread_of ys"
  by (induction xs rule: aread_of.induct) auto

section \<open>Every call is accounted for\<close>

definition async_inv :: "async_client \<Rightarrow> bool" where
  "async_inv a \<longleftrightarrow> (reader_done (conn a) \<longrightarrow> fifo (conn a) = [] \<and> waiting (conn a) = None) \<and> tx_open (conn a) \<and> reader_done (conn a) = (\<not> up a) \<and>
     (unwritten a \<noteq> None \<longrightarrow> up a) \<and> 100 \<le> delay a \<and> delay a \<le> 5000"

lemma deliver_reader_done:
  "deliver c = Inr c' \<Longrightarrow> tx_open c \<Longrightarrow> reader_done c' = reader_done c"
proof (induction c rule: deliver.induct)
  case (1 c)
  show ?case
  proof (cases "waiting c \<noteq> None \<or> reader_done c")
    case True
    then show ?thesis using "1.prems" by (simp add: deliver.simps [of c])
  next
    case False
    note d = "1.prems"(1) [unfolded deliver.simps [of c]]
    show ?thesis
    proof (cases "resp_dec (fr_buf (framer c))")
      case None
      then show ?thesis using d False by (auto simp: try_extract_eq)
    next
      case (Some rn)
      obtain r n where rn: "rn = (r, n)" by (cases rn)
      let ?fr = "(framer c)\<lparr>fr_buf := drop n (fr_buf (framer c))\<rparr>"
      have te: "try_extract (framer c) = Inr (Some r, ?fr)" by (simp add: try_extract_eq Some rn)
      have h: "tx_open (hand_over (c\<lparr>framer := ?fr\<rparr>) r)" "reader_done (hand_over (c\<lparr>framer := ?fr\<rparr>) r) = reader_done c"
        using "1.prems"(2) by (auto simp: hand_over_def split: list.splits)
      from "1.IH" [OF False te refl refl _ h(1)] show ?thesis using d False te h(2) by simp
    qed
  qed
qed

lemma resume_reader_done: "resume c = Inr c' \<Longrightarrow> tx_open c \<Longrightarrow> reader_done c' = reader_done c"
  by (auto simp: resume_def hand_over_def split: option.splits list.splits dest!: deliver_reader_done)

lemma next_delay_bounds: "100 \<le> d \<Longrightarrow> 100 \<le> next_delay d \<and> next_delay d \<le> 5000"
  by (simp add: next_delay_def)

lemma async_step_owed:
  assumes "async_step a ev a'" and inv: "async_inv a"
  shows "async_inv a' \<and> owed (conn a') = owed (conn a) + mset (map call_tx (acalls_of [ev]))"
  using assms(1)
proof cases
  case (wake c)
  have "reader_done (conn a) \<longrightarrow> fifo (conn a) = [] \<and> waiting (conn a) = None"
    using inv by (simp add: async_inv_def reader_inv_def)
  from resume_total [OF this] resume_reader_done [OF wake(6)] wake inv show ?thesis
    by (auto simp: async_inv_def owed_def)
next
  case (read bs c)
  have "reader_inv ((conn a)\<lparr>framer := feed (framer (conn a)) bs\<rparr>)"
    using inv read(4) by (simp add: async_inv_def reader_inv_def)
  from deliver_total [OF this] deliver_reader_done [OF read(5)] read inv show ?thesis
    by (auto simp: async_inv_def owed_def)
qed (use inv next_delay_bounds in \<open>auto simp: async_inv_def owed_def held_def reader_inv_def writer_take_def Let_def
      writer_progress_def writer_flushed_def writer_returns_def drop_reader_def reader_returns_def reader_exit_def connect_failed_def
      reconnected_to_def next_connection_def o_def\<close>)

lemma async_run_owed:
  "async_run a evs a' \<Longrightarrow> async_inv a \<Longrightarrow>
   async_inv a' \<and> owed (conn a') = owed (conn a) + mset (map call_tx (acalls_of evs))"
proof (induction rule: async_run.induct)
  case (stop a)
  then show ?case by simp
next
  case (step a evs a' ev a'')
  then show ?case using async_step_owed [OF step.hyps(2)] by simp
qed

lemma async_inv_connect: "async_inv async_connect" "owed (conn async_connect) = {#}"
  by (simp_all add: async_inv_def async_connect_def reader_inv_def client_connect_def owed_def held_def)

section \<open>Runs of one connection\<close>

fun akeeps_up :: "async_event \<Rightarrow> bool" where
  "akeeps_up AvWriteError = False"
| "akeeps_up AvClosed = False"
| "akeeps_up AvReadEnd = False"
| "akeeps_up _ = True"

definition aconn_inv :: "async_event list \<Rightarrow> async_client \<Rightarrow> bool" where
  "aconn_inv evs a \<longleftrightarrow> up a \<and> live_conn (conn a) \<and> (waiting (conn a) = None \<longrightarrow> drained (conn a)) \<and>
     (\<exists>sent. acalls_of evs = sent @ chan (conn a) \<and>
        sock_out (conn a) @ (case unwritten a of None \<Rightarrow> [] | Some bs \<Rightarrow> bs) = encode_calls sent \<and>
        fifo_inv [] (map call_tx sent) (aread_of evs) (conn a))"

lemma aconn_inv_step:
  assumes inv: "aconn_inv evs a" and "async_step a ev a'" and "akeeps_up ev"
  shows "aconn_inv (evs @ [ev]) a'"
proof -
  from inv obtain sent where s: "acalls_of evs = sent @ chan (conn a)"
    "sock_out (conn a) @ (case unwritten a of None \<Rightarrow> [] | Some bs \<Rightarrow> bs) = encode_calls sent"
    "fifo_inv [] (map call_tx sent) (aread_of evs) (conn a)"
    and live: "up a" "live_conn (conn a)" "waiting (conn a) = None \<longrightarrow> drained (conn a)" by (auto simp: aconn_inv_def)
  from assms(2) show ?thesis
  proof cases
    case (call k)
    then show ?thesis using s live by (auto simp: aconn_inv_def fifo_inv_def live_conn_def drained_def)
  next
    case take_calls
    let ?c = "(conn a)\<lparr>chan := [], fifo := fifo (conn a) @ map call_tx (chan (conn a))\<rparr>"
    have "fifo_inv [] (map call_tx (sent @ chan (conn a))) (aread_of evs) ?c"
      using fifo_inv_push [OF s(3), of "map call_tx (chan (conn a))"] by (simp add: fifo_inv_def)
    moreover have "live_conn ?c" "waiting ?c = None \<longrightarrow> drained ?c" using live by (simp_all add: live_conn_def drained_def)
    ultimately show ?thesis using take_calls s(1,2) live(1)
      by (auto simp: aconn_inv_def writer_take_def Let_def encode_calls_append)
  next
    case (write_part bs n)
    then show ?thesis using s live
      by (auto simp: aconn_inv_def writer_progress_def fifo_inv_def live_conn_def drained_def)
  next
    case flushed
    then show ?thesis using s live by (auto simp: aconn_inv_def writer_flushed_def)
  next
    case (wake c)
    with resume_fifo [OF s(3) live(2,3)] show ?thesis using s(1,2) live(1)
      by (fastforce simp: aconn_inv_def)
  next
    case (read bs c)
    let ?c = "(conn a)\<lparr>framer := feed (framer (conn a)) bs\<rparr>"
    have "live_conn ?c" "waiting ?c \<noteq> None \<longrightarrow> drained ?c" using live read(4) by (simp_all add: live_conn_def)
    with deliver_fifo [OF fifo_inv_feed [OF s(3)]] read show ?thesis using s(1,2) live(1)
      by (fastforce simp: aconn_inv_def)
  next
    case drop_handles
    then show ?thesis using s live by (auto simp: aconn_inv_def)
  qed (use assms(3) live in simp_all)
qed

lemma aconn_inv_run:
  "async_run a evs a' \<Longrightarrow> a = async_connect \<Longrightarrow> list_all akeeps_up evs \<Longrightarrow> aconn_inv evs a'"
proof (induction rule: async_run.induct)
  case (stop a)
  have "frames resp_dec [] = ([], [])" using respf.frames_encoded [of "[]"] by simp
  then show ?case using stop
    by (simp add: aconn_inv_def async_connect_def client_connect_def fifo_inv_def live_conn_def drained_def
        frame_reader_new_def encode_calls_def)
next
  case (step a evs a' ev a'')
  then show ?case by (auto intro: aconn_inv_step)
qed

lemma async_results:
  assumes "async_run async_connect evs a" and "list_all akeeps_up evs"
    and "unwritten a = None" and "waiting (conn a) = None \<or> fifo (conn a) = []"
  shows "\<exists>sent. acalls_of evs = sent @ chan (conn a) \<and> sock_out (conn a) = encode_calls sent \<and>
    results (conn a) = zip (map call_tx sent) (map Answer (fst (frames resp_dec (aread_of evs))))"
proof -
  from aconn_inv_run [OF assms(1) refl assms(2)] obtain sent where s: "acalls_of evs = sent @ chan (conn a)"
    "sock_out (conn a) = encode_calls sent" "fifo_inv [] (map call_tx sent) (aread_of evs) (conn a)"
    "waiting (conn a) = None \<longrightarrow> drained (conn a)" by (auto simp: aconn_inv_def assms(3))
  have "drained (conn a)" using s(4) assms(4) by (auto simp: drained_def)
  from fifo_inv_results [OF s(3) this] s(1,2) show ?thesis by auto
qed

text \<open>Some calls made, taken together, written and answered by any bytes.\<close>

lemma async_make_calls:
  "handles a' \<Longrightarrow> async_run a evs a' \<Longrightarrow>
   async_run a (evs @ map AvCall ks) (a'\<lparr>conn := (conn a')\<lparr>chan := chan (conn a') @ ks\<rparr>\<rparr>)"
proof (induction ks rule: rev_induct)
  case (snoc k ks)
  from async_run.step [OF snoc.IH [OF snoc.prems] async_step.call [of _ k]] snoc.prems(1) show ?case by simp
qed simp

lemma async_group:
  assumes "ks \<noteq> []"
  shows "\<exists>a. async_run async_connect (map AvCall ks @ [AvTake, AvWrite (length (encode_calls ks)), AvFlushed, AvRead bs]) a \<and>
     chan (conn a) = [] \<and> unwritten a = None \<and> (waiting (conn a) = None \<or> fifo (conn a) = [])"
proof -
  let ?buf = "encode_calls ks"
  let ?a1 = "async_connect\<lparr>conn := client_connect\<lparr>chan := ks\<rparr>\<rparr>"
  let ?a2 = "writer_take ?a1"
  let ?aw = "writer_progress (length ?buf) ?buf ?a2"
  let ?a3 = "writer_flushed ?aw"
  have s1: "async_run async_connect (map AvCall ks) ?a1"
    using async_make_calls [OF _ async_run.stop, of async_connect ks] by (simp add: async_connect_def client_connect_def)
  have s2: "async_step ?a1 AvTake ?a2" using assms by (intro async_step.take_calls) (simp_all add: async_connect_def)
  have s3: "async_step ?a2 (AvWrite (length ?buf)) ?aw"
    by (rule async_step.write_part) (simp_all add: writer_take_def Let_def async_connect_def)
  have s4: "async_step ?aw AvFlushed ?a3"
    by (rule async_step.flushed) (simp_all add: writer_progress_def writer_take_def Let_def async_connect_def)
  from async_run.step [OF async_run.step [OF async_run.step [OF s1 s2] s3] s4]
  have r: "async_run async_connect (map AvCall ks @ [AvTake, AvWrite (length ?buf), AvFlushed]) ?a3" by simp
  have a3: "up ?a3" "unwritten ?a3 = None" "chan (conn ?a3) = []" "waiting (conn ?a3) = None"
    by (simp_all add: writer_flushed_def writer_progress_def writer_take_def Let_def async_connect_def client_connect_def)
  have "aread_of (map AvCall xs) = []" for xs by (induction xs) simp_all
  then have nothing: "aread_of (map AvCall ks @ [AvTake, AvWrite (length ?buf), AvFlushed]) = []" by simp
  have keep: "list_all akeeps_up (map AvCall ks @ [AvTake, AvWrite (length ?buf), AvFlushed])" by (simp add: list_all_iff)
  from aconn_inv_run [OF r refl keep] obtain sent :: "call list" where
    inv: "fifo_inv [] (map call_tx sent) (aread_of (map AvCall ks @ [AvTake, AvWrite (length ?buf), AvFlushed])) (conn ?a3)"
      "live_conn (conn ?a3)" by (auto simp: aconn_inv_def simp del: aread_of_append)
  note i = inv [unfolded nothing]
  let ?c = "(conn ?a3)\<lparr>framer := feed (framer (conn ?a3)) bs\<rparr>"
  have "live_conn ?c" "waiting ?c \<noteq> None \<longrightarrow> drained ?c" using i(2) a3(4) by (simp_all add: live_conn_def)
  from deliver_fifo [OF fifo_inv_feed [OF i(1)] this] obtain c where c: "deliver ?c = Inr c" "drained c" "chan c = []"
    using a3(3) by auto
  from async_run.step [OF r async_step.read [OF a3(1,4) c(1)]]
  have "async_run async_connect (map AvCall ks @ [AvTake, AvWrite (length ?buf), AvFlushed, AvRead bs]) (?a3\<lparr>conn := c\<rparr>)" by simp
  moreover have "waiting c = None \<or> fifo c = []" using c(2) by (auto simp: drained_def split: if_splits)
  ultimately show ?thesis using c(3) a3(2) by (intro exI [of _ "?a3\<lparr>conn := c\<rparr>"]) simp
qed

section \<open>Properties\<close>

text \<open>
  C22. The tokio client accounts for every call as well. In every run, with connections lost in
  the middle of a write, dropped readers and failed attempts to reconnect, each call made is
  queued, waits for its response or has exactly one result; while no connection is up nobody
  waits; and the delay between attempts stays between 100 milliseconds and 5 seconds.
\<close>

theorem async_accounts:
  assumes "async_run async_connect evs a"
  shows "mset (map call_tx (acalls_of evs)) =
           mset (map call_tx (chan (conn a))) + mset (fifo (conn a)) + mset (map fst (results (conn a))) \<and>
         (\<not> up a \<longrightarrow> fifo (conn a) = []) \<and> 100 \<le> delay a \<and> delay a \<le> 5000"
  using async_run_owed [OF assms async_inv_connect(1)] async_inv_connect(2)
  by (auto simp: async_inv_def owed_def held_def add.assoc)

theorem async_accounts_witness:
  "\<exists>a. async_run async_connect [AvCall (client_get [1] 5), AvTake, AvWriteError] a \<and>
     {#5#} = mset (map call_tx (chan (conn a))) + mset (fifo (conn a)) + mset (map fst (results (conn a))) \<and>
     fifo (conn a) = []"
proof -
  let ?k = "client_get [1] 5"
  let ?a = "async_connect\<lparr>conn := client_connect\<lparr>chan := [?k]\<rparr>\<rparr>"
  have s1: "async_step async_connect (AvCall ?k) ?a"
    using async_step.call [of async_connect ?k] by (simp add: async_connect_def client_connect_def)
  have s2: "async_step ?a AvTake (writer_take ?a)" by (rule async_step.take_calls) (simp_all add: async_connect_def)
  have s3: "async_step (writer_take ?a) AvWriteError (writer_returns (writer_take ?a))"
    by (rule async_step.write_error) (simp_all add: writer_take_def Let_def async_connect_def)
  from async_run.step [OF async_run.step [OF async_run.step [OF async_run.stop s1] s2] s3]
  have r: "async_run async_connect [AvCall ?k, AvTake, AvWriteError] (writer_returns (writer_take ?a))" by simp
  have "\<not> up (writer_returns (writer_take ?a))" by (simp add: writer_returns_def)
  with async_accounts [OF r] r show ?thesis by (auto simp: client_get_def)
qed

text \<open>
  C23. The two clients agree. Given the same calls and the same bytes from the server on a
  connection that stays up, the blocking client and the tokio client, each under any schedule of
  its own, write the same bytes and give every caller the same result, once both have written
  all calls and the tokio reader has nothing left to hand over.
\<close>

theorem clients_agree:
  assumes "client_run client_connect evs c" "list_all keeps_up evs" "chan c = []"
    and "async_run async_connect aevs a" "list_all akeeps_up aevs" "chan (conn a) = []" "unwritten a = None"
    and "waiting (conn a) = None \<or> fifo (conn a) = []"
    and "calls_of evs = acalls_of aevs" "read_of evs = aread_of aevs"
  shows "sock_out (conn a) = sock_out c \<and> results (conn a) = results c"
  using client_results [OF assms(1,2)] async_results [OF assms(4,5,7,8)] assms(3,6,9,10) by auto

theorem clients_agree_witness:
  "\<exists>c (a :: async_client). results c = [(5, Answer (Value [7]))] \<and> results (conn a) = results c \<and>
     client_run client_connect [EvCall (client_get [1] 5), EvDriver False None, EvRead (resp_bytes (Value [7]))] c"
proof -
  let ?k = "client_get [1] 5" and ?bs = "resp_bytes (Value [7])"
  let ?evs = "map EvCall [?k] @ [EvDriver False None, EvRead ?bs]"
  obtain c where c: "client_run client_connect ?evs c" "chan c = []" using run_group by blast
  obtain a where a: "async_run async_connect [AvCall ?k, AvTake, AvWrite (length (encode_calls [?k])), AvFlushed, AvRead ?bs] a"
    "chan (conn a) = []" "unwritten a = None" "waiting (conn a) = None \<or> fifo (conn a) = []"
    using async_group [of "[?k]" ?bs] by auto
  have "fst (frames resp_dec ?bs) = [Value [7]]"
    using respf.frames_encoded [of "[Value [7]]"] by (simp add: resp_ok_def resp_payload_def)
  then have "results c = [(5, Answer (Value [7]))]"
    using client_results [OF c(1)] c(2) by (simp add: client_get_def)
  moreover have "results (conn a) = results c" using clients_agree [OF c(1) _ c(2) a(1) _ a(2-4)] by simp
  ultimately show ?thesis using c(1) by (intro exI [of _ c] exI [of _ a]) simp
qed

text \<open>
  C36. The tokio client's task never ends. Once all handles are dropped and no call is left, the
  writer returns at once on every new connection, and the supervisor reconnects: from such a
  state any number of further connections is made, each leading back to it, with nobody left to
  use them.
\<close>

theorem async_reconnects_forever:
  assumes "async_run async_connect evs a" and "up a" "unwritten a = None" "chan (conn a) = []" "\<not> handles a"
  shows "\<exists>a'. async_run async_connect (evs @ concat (replicate n [AvClosed, AvReconnected])) a' \<and>
    up a' \<and> unwritten a' = None \<and> chan (conn a') = [] \<and> \<not> handles a'"
  using assms
proof (induction n arbitrary: evs a)
  case 0
  then show ?case by auto
next
  case (Suc n)
  let ?b = "writer_returns a" and ?c = "reconnected_to (writer_returns a)"
  have s1: "async_step a AvClosed ?b" using Suc.prems by (intro async_step.closed)
  have s2: "async_step ?b AvReconnected ?c" by (rule async_step.reconnected) (simp add: writer_returns_def)
  have "async_run async_connect (evs @ [AvClosed, AvReconnected]) ?c"
    using async_run.step [OF async_run.step [OF Suc.prems(1) s1] s2] by simp
  moreover have "up ?c" "unwritten ?c = None" "chan (conn ?c) = []" "\<not> handles ?c"
    using Suc.prems by (simp_all add: reconnected_to_def next_connection_def writer_returns_def drop_reader_def)
  ultimately show ?case using Suc.IH [of "evs @ [AvClosed, AvReconnected]" ?c] by simp
qed

theorem async_reconnects_forever_witness:
  "\<exists>a. async_run async_connect ([AvDropHandles] @ concat (replicate 3 [AvClosed, AvReconnected])) a \<and> \<not> handles a"
proof -
  let ?a = "async_connect\<lparr>handles := False\<rparr>"
  have "async_run async_connect [AvDropHandles] ?a"
    using async_run.step [OF async_run.stop async_step.drop_handles [of async_connect]] by simp
  from async_reconnects_forever [OF this, of 3] show ?thesis by (auto simp: async_connect_def client_connect_def)
qed

end
