(* ===== verification/Wal_Format.thy ===== *)
theory Wal_Format
  imports Wire
begin

text \<open>
  The write-ahead log on disk (\<open>crates/storage/src/wal_format.rs\<close>): the FNV-1a checksum, the
  record format \<open>[len:u32][lsn:u64][wire body][checksum:u64]\<close>, and the naming and listing of
  the segment files. The record format is shown to be an instance of the framing contract of
  \<^verbatim>\<open>Framing\<close>, and the checksum to catch every corruption confined to one byte.
\<close>

section \<open>The checksum\<close>

definition fnv_step :: "u64 \<Rightarrow> u8 \<Rightarrow> u64" where
  "fnv_step h x = (h XOR ucast x) * 0x100000001b3"

definition checksum :: "bytes \<Rightarrow> u64" where
  "checksum b = foldl fnv_step 0xcbf29ce484222325 b"

section \<open>Records\<close>

definition LEN_SIZE :: nat where
  "LEN_SIZE = 4"

definition CHECKSUM_SIZE :: nat where
  "CHECKSUM_SIZE = 8"

definition encode_record :: "bytes \<Rightarrow> u64 \<Rightarrow> bytes \<Rightarrow> bytes" where
  "encode_record out lsn blob =
     (let body_len = 8 + length blob;
          out = out @ le32 (as_u32 body_len);
          body_start = length out;
          out = out @ le64 lsn;
          out = out @ blob;
          cs = checksum (drop body_start out)
      in out @ le64 cs)"

record wal_record =
  rec_lsn :: u64
  wire_body :: bytes
  consumed :: nat

definition decode_record :: "bytes \<Rightarrow> wal_record option outcome" where
  "decode_record bs =
     (if length bs < LEN_SIZE then Inr None
      else
        obind (slice bs 0 4) (\<lambda>hdr. obind (rd_u32 hdr) (\<lambda>body_len.
          let body_end = LEN_SIZE + body_len in
          if length bs < body_end + CHECKSUM_SIZE then Inr None
          else
            obind (slice bs LEN_SIZE body_end) (\<lambda>body.
            obind (slice bs body_end (body_end + CHECKSUM_SIZE)) (\<lambda>tail.
            obind (rd_u64 tail) (\<lambda>cs.
              if checksum body \<noteq> cs then Inr None
              else
                obind (slice body 0 8) (\<lambda>l. obind (rd_u64 l) (\<lambda>lsn.
                obind (slice_from body 8) (\<lambda>wb.
                  Inr (Some \<lparr>rec_lsn = lsn, wire_body = wb,
                             consumed = body_end + CHECKSUM_SIZE\<rparr>))))))))))"

text \<open>The bytes of one record, and the decoder as the framing contract wants it.\<close>

definition record_bytes :: "u64 \<times> bytes \<Rightarrow> bytes" where
  "record_bytes e = encode_record [] (fst e) (snd e)"

definition wal_dec :: "bytes \<Rightarrow> ((u64 \<times> bytes) \<times> nat) option" where
  "wal_dec bs =
     (case decode_record bs of
        Inr (Some r) \<Rightarrow> Some ((rec_lsn r, wire_body r), consumed r)
      | _ \<Rightarrow> None)"

text \<open>A record fits when its body length fits in the \<open>u32\<close> prefix.\<close>

definition record_fits :: "u64 \<times> bytes \<Rightarrow> bool" where
  "record_fits e \<longleftrightarrow> 8 + length (snd e) < 2 ^ 32"

section \<open>Segment files\<close>

definition SEG_PREFIX :: string where
  "SEG_PREFIX = ''wal.''"

text \<open>Decimal digits, \<open>format!("{n:020}")\<close> and \<open>str::parse::<u64>\<close>.\<close>

definition digit_char :: "nat \<Rightarrow> char" where
  "digit_char d = char_of (48 + d)"

definition char_digit :: "char \<Rightarrow> nat option" where
  "char_digit c = (let n = of_char c :: nat in if 48 \<le> n \<and> n \<le> 57 then Some (n - 48) else None)"

fun show_nat :: "nat \<Rightarrow> string" where
  "show_nat n = (if n < 10 then [digit_char n] else show_nat (n div 10) @ [digit_char (n mod 10)])"

definition pad20 :: "string \<Rightarrow> string" where
  "pad20 s = replicate (20 - length s) (CHR ''0'') @ s"

text \<open>
  Parsing an unsigned integer accepts one leading plus sign, rejects the empty string and any
  other character, and rejects a value that overflows.
\<close>

fun parse_digits :: "nat \<Rightarrow> string \<Rightarrow> nat option" where
  "parse_digits acc [] = Some acc"
| "parse_digits acc (c # s) =
     (case char_digit c of
        None \<Rightarrow> None
      | Some d \<Rightarrow> (if acc * 10 + d < 2 ^ 64 then parse_digits (acc * 10 + d) s else None))"

definition parse_u64 :: "string \<Rightarrow> u64 option" where
  "parse_u64 s =
     (case s of
        [] \<Rightarrow> None
      | c # r \<Rightarrow>
          (if c = CHR ''+'' then (if r = [] then None else map_option of_nat (parse_digits 0 r))
           else map_option of_nat (parse_digits 0 s)))"

definition strip_prefix :: "string \<Rightarrow> string \<Rightarrow> string option" where
  "strip_prefix p s = (if take (length p) s = p then Some (drop (length p) s) else None)"

definition segment_path :: "u64 \<Rightarrow> string" where
  "segment_path start_lsn = SEG_PREFIX @ pad20 (show_nat (unat start_lsn))"

text \<open>
  A directory: its files by name, in the order the file system lists them, and which of the
  accesses fail. File names are byte strings; a name that is not UTF-8 reaches the parser
  with replacement characters, which are no digits, just as its own bytes are not.
\<close>

record dir_state =
  dir_exists :: bool
  mkdir_ok :: bool
  readdir_ok :: bool
  readable :: "string \<Rightarrow> bool"
  entries :: "(string \<times> bytes) list"

definition seg_start :: "string \<Rightarrow> u64 option" where
  "seg_start name =
     (case strip_prefix SEG_PREFIX name of
        None \<Rightarrow> None
      | Some num \<Rightarrow> parse_u64 num)"

definition list_segments :: "dir_state \<Rightarrow> (u64 \<times> string) list outcome" where
  "list_segments dir =
     (if \<not> dir_exists dir then Inr []
      else if \<not> readdir_ok dir then Inl IoError
      else
        let v = concat (map (\<lambda>(name, _).
                  case seg_start name of None \<Rightarrow> [] | Some start \<Rightarrow> [(start, name)]) (entries dir))
        in Inr (sort_key fst v))"

section \<open>Facts about the checksum\<close>

text \<open>The FNV prime is odd, so a step is a bijection of the hash for each byte.\<close>

lemma fnv_prime_inverse: "(0x100000001b3 :: u64) * 0xce965057aff6957b = 1"
  by simp

lemma fnv_step_cancel: "fnv_step h x = fnv_step h' x' \<Longrightarrow> h XOR ucast x = h' XOR ucast x'"
proof -
  assume "fnv_step h x = fnv_step h' x'"
  then have "(h XOR ucast x) * (0x100000001b3 * 0xce965057aff6957b) =
      (h' XOR ucast x') * (0x100000001b3 * 0xce965057aff6957b)"
    unfolding fnv_step_def mult.assoc [symmetric] by simp
  then show ?thesis by (simp only: fnv_prime_inverse mult_1_right)
qed

lemma xor_twice: "((a :: u64) XOR b) XOR b = a"
  by (simp add: xor.assoc)

lemma xor_cancel_right: "(a :: u64) XOR b = c XOR b \<Longrightarrow> a = c"
  by (metis xor_twice)

lemma xor_cancel_left: "(a :: u64) XOR b = a XOR c \<Longrightarrow> b = c"
  by (metis xor.commute xor_twice)

lemma fnv_step_inj_hash: "fnv_step h x = fnv_step h' x \<Longrightarrow> h = h'"
  by (rule xor_cancel_right) (rule fnv_step_cancel)

lemma ucast_u8_inj: "(ucast (x :: u8) :: u64) = ucast y \<Longrightarrow> x = y"
proof (rule bit_word_eqI)
  fix n assume eq: "(ucast x :: u64) = ucast y" and n: "n < LENGTH(8)"
  have "bit (ucast x :: u64) n = bit (ucast y :: u64) n" by (simp add: eq)
  then show "bit x n = bit y n" using n by (simp add: bit_simps)
qed

lemma fnv_step_inj_byte: "fnv_step h x = fnv_step h y \<Longrightarrow> x = y"
  by (rule ucast_u8_inj) (rule xor_cancel_left [OF fnv_step_cancel])

lemma foldl_fnv_inj: "foldl fnv_step h bs = foldl fnv_step h' bs \<Longrightarrow> h = h'"
  by (induction bs arbitrary: h h') (auto dest: fnv_step_inj_hash)

lemma checksum_update_neq:
  assumes "i < length bs" and "b \<noteq> bs ! i"
  shows "checksum (bs[i := b]) \<noteq> checksum bs"
proof
  let ?h = "foldl fnv_step 0xcbf29ce484222325 (take i bs)"
  assume eq: "checksum (bs[i := b]) = checksum bs"
  have "checksum (take i bs @ c # drop (Suc i) bs) =
      foldl fnv_step (fnv_step ?h c) (drop (Suc i) bs)" for c
    by (simp add: checksum_def)
  then have "foldl fnv_step (fnv_step ?h b) (drop (Suc i) bs) =
      foldl fnv_step (fnv_step ?h (bs ! i)) (drop (Suc i) bs)"
    using eq upd_conv_take_nth_drop [OF assms(1), of b] id_take_nth_drop [OF assms(1)] by metis
  then have "fnv_step ?h b = fnv_step ?h (bs ! i)" by (rule foldl_fnv_inj)
  then show False using assms(2) fnv_step_inj_byte by blast
qed

section \<open>Facts about records\<close>

lemma encode_record_eq:
  "encode_record out lsn blob =
     out @ le32 (as_u32 (8 + length blob)) @ (le64 lsn @ blob) @ le64 (checksum (le64 lsn @ blob))"
  by (simp add: encode_record_def Let_def)

lemma record_bytes_eq:
  "record_bytes (lsn, blob) =
     le32 (as_u32 (8 + length blob)) @ (le64 lsn @ blob) @ le64 (checksum (le64 lsn @ blob))"
  by (simp add: record_bytes_def encode_record_eq)

lemma encode_record_append: "encode_record out lsn blob = out @ record_bytes (lsn, blob)"
  by (simp add: record_bytes_eq encode_record_eq)

lemma length_record_bytes [simp, codec_simps]: "length (record_bytes (lsn, blob)) = 20 + length blob"
  by (simp add: record_bytes_eq)

text \<open>The decoder in one equation, with the slices resolved.\<close>

definition frame_len :: "bytes \<Rightarrow> nat" where
  "frame_len bs = unat (le_word (take 4 bs) :: u32)"

lemma decode_record_eq:
  "decode_record bs =
     (if length bs < 4 \<or> length bs < 12 + frame_len bs then Inr None
      else let body = take (frame_len bs) (drop 4 bs) in
        if checksum body \<noteq> le_word (take 8 (drop (4 + frame_len bs) bs)) then Inr None
        else if frame_len bs < 8 then Inl SliceOutOfBounds
        else Inr (Some \<lparr>rec_lsn = le_word (take 8 body), wire_body = drop 8 body,
                        consumed = 12 + frame_len bs\<rparr>))"
proof (cases "length bs < 4 \<or> length bs < 12 + frame_len bs")
  case True
  then show ?thesis
    by (auto simp: decode_record_def frame_len_def LEN_SIZE_def CHECKSUM_SIZE_def Let_def
        slice_def rd_u32_ok)
next
  case False
  let ?n = "frame_len bs"
  have len: "4 \<le> length bs" "12 + ?n \<le> length bs" using False by auto
  have hdr: "slice bs 0 4 = Inr (take 4 bs)" "rd_u32 (take 4 bs) = Inr ?n"
    using False by (simp_all add: slice_def rd_u32_ok frame_len_def)
  have body: "slice bs 4 (4 + ?n) = Inr (take ?n (drop 4 bs))"
    "slice bs (4 + ?n) (12 + ?n) = Inr (take 8 (drop (4 + ?n) bs))"
    "rd_u64 (take 8 (drop (4 + ?n) bs)) = Inr (le_word (take 8 (drop (4 + ?n) bs)))"
    using len by (simp_all add: slice_def rd_u64_ok)
  show ?thesis
    using len
    by (simp add: decode_record_def LEN_SIZE_def CHECKSUM_SIZE_def Let_def hdr body)
       (auto simp: slice_def slice_from_def rd_u64_ok min_def)
qed

lemma decode_record_Some_bounds:
  assumes "decode_record bs = Inr (Some r)"
  shows "20 \<le> consumed r \<and> consumed r \<le> length bs \<and> length (wire_body r) + 20 = consumed r"
  using assms by (auto simp: decode_record_eq Let_def split: if_splits)

lemma frame_len_append: "4 \<le> length bs \<Longrightarrow> frame_len (bs @ cs) = frame_len bs"
  by (simp add: frame_len_def)

lemma decode_record_extend:
  assumes "decode_record bs = Inr (Some r)"
  shows "decode_record (bs @ cs) = Inr (Some r)"
proof -
  have *: "4 \<le> length bs" "12 + frame_len bs \<le> length bs"
    using assms by (auto simp: decode_record_eq Let_def not_less split: if_splits)
  then have "take (frame_len bs) (drop 4 (bs @ cs)) = take (frame_len bs) (drop 4 bs)"
    "take 8 (drop (4 + frame_len bs) (bs @ cs)) = take 8 (drop (4 + frame_len bs) bs)"
    by simp_all
  then show ?thesis
    using assms * unfolding decode_record_eq frame_len_append [OF *(1)]
    by (auto simp: Let_def split: if_splits)
qed

lemma decode_record_bytes:
  assumes "record_fits (lsn, blob)"
  shows "decode_record (record_bytes (lsn, blob)) =
     Inr (Some \<lparr>rec_lsn = lsn, wire_body = blob, consumed = 20 + length blob\<rparr>)"
proof -
  have fl: "frame_len (record_bytes (lsn, blob)) = 8 + length blob"
    using assms by (simp add: frame_len_def record_bytes_eq record_fits_def)
  show ?thesis
    unfolding decode_record_eq fl
    by (simp add: record_bytes_eq Let_def)
qed

lemma wal_dec_eq: "wal_dec bs = Some ((lsn, wb), n) \<longleftrightarrow>
    decode_record bs = Inr (Some \<lparr>rec_lsn = lsn, wire_body = wb, consumed = n\<rparr>)"
proof -
  have "r = \<lparr>rec_lsn = rec_lsn r, wire_body = wire_body r, consumed = consumed r\<rparr>" for r :: wal_record
    by simp
  then show ?thesis by (auto simp: wal_dec_def split: sum.splits option.splits)
qed

text \<open>Records of the log satisfy the framing contract.\<close>

interpretation wal: frame_codec record_bytes wal_dec record_fits
proof unfold_locales
  fix x :: "u64 \<times> bytes" assume "record_fits x"
  then show "wal_dec (record_bytes x) = Some (x, length (record_bytes x))"
    by (cases x) (simp add: wal_dec_def decode_record_bytes)
next
  fix bs and x :: "u64 \<times> bytes" and n assume "wal_dec bs = Some (x, n)"
  then show "0 < n \<and> n \<le> length bs"
    by (cases x) (auto simp: wal_dec_eq dest!: decode_record_Some_bounds)
next
  fix bs cs and r :: "(u64 \<times> bytes) \<times> nat" assume "wal_dec bs = Some r"
  then show "wal_dec (bs @ cs) = Some r"
    by (cases r; cases "fst r") (auto simp: wal_dec_eq decode_record_extend)
qed

section \<open>Facts about segment names\<close>

declare show_nat.simps [simp del]

lemma char_digit_digit_char [simp]: "d < 10 \<Longrightarrow> char_digit (digit_char d) = Some d"
  by (simp add: char_digit_def digit_char_def Let_def of_char_of)

lemma digit_char_not_plus: "d < 10 \<Longrightarrow> digit_char d \<noteq> CHR ''+''"
proof
  assume d: "d < 10" and "digit_char d = CHR ''+''"
  then have "of_char (digit_char d) = (of_char (CHR ''+'') :: nat)" by simp
  then show False using d by (simp add: digit_char_def of_char_of)
qed

lemma parse_digits_snoc:
  "parse_digits acc s = Some m \<Longrightarrow> d < 10 \<Longrightarrow> m * 10 + d < 2 ^ 64 \<Longrightarrow>
   parse_digits acc (s @ [digit_char d]) = Some (m * 10 + d)"
  by (induction acc s rule: parse_digits.induct) (auto split: option.splits if_splits)

lemma parse_show_nat: "n < 2 ^ 64 \<Longrightarrow> parse_digits 0 (show_nat n) = Some n"
proof (induction n rule: show_nat.induct)
  case (1 n)
  show ?case
  proof (cases "n < 10")
    case True
    then show ?thesis using 1 by (simp add: show_nat.simps [of n])
  next
    case False
    then have "parse_digits 0 (show_nat (n div 10)) = Some (n div 10)" using 1 by simp
    then have "parse_digits 0 (show_nat (n div 10) @ [digit_char (n mod 10)]) =
        Some (n div 10 * 10 + n mod 10)"
      using 1 by (intro parse_digits_snoc) simp_all
    then show ?thesis using False by (simp add: show_nat.simps [of n])
  qed
qed

lemma parse_zeros: "parse_digits 0 (replicate m (CHR ''0'') @ s) = parse_digits 0 s"
  by (induction m) (simp_all add: char_digit_def)

lemma show_nat_hd: "\<exists>d r. d < 10 \<and> show_nat n = digit_char d # r"
proof (induction n rule: show_nat.induct)
  case (1 n)
  then show ?case by (cases "n < 10") (auto simp: show_nat.simps [of n])
qed

lemma parse_pad20_show:
  assumes "n < 2 ^ 64"
  shows "parse_u64 (pad20 (show_nat n)) = Some (of_nat n)"
proof -
  have "parse_digits 0 (pad20 (show_nat n)) = Some n"
    using assms by (simp add: pad20_def parse_zeros parse_show_nat)
  moreover have "\<exists>c r. pad20 (show_nat n) = c # r \<and> c \<noteq> CHR ''+''"
    using show_nat_hd [of n] digit_char_not_plus
    by (cases "20 - length (show_nat n)") (auto simp: pad20_def)
  ultimately show ?thesis by (auto simp: parse_u64_def)
qed

lemma length_show_nat: "n < 10 ^ k \<Longrightarrow> 0 < k \<Longrightarrow> length (show_nat n) \<le> k"
proof (induction n arbitrary: k rule: show_nat.induct)
  case (1 n)
  show ?case
  proof (cases "n < 10")
    case True
    then show ?thesis using 1 by (simp add: show_nat.simps [of n])
  next
    case False
    then obtain j where k: "k = Suc j" "0 < j"
      using 1 by (cases k; cases "k - 1") auto
    have "n div 10 < 10 ^ j" using 1 k by (simp add: div_less_iff_less_mult mult.commute)
    then have "length (show_nat (n div 10)) \<le> j" using 1 False k by simp
    then show ?thesis using False k by (simp add: show_nat.simps [of n])
  qed
qed

lemma seg_start_segment_path [simp]: "seg_start (segment_path l) = Some l"
  using parse_pad20_show [of "unat l"] unat_u64_lt [of l]
  by (simp add: seg_start_def segment_path_def strip_prefix_def SEG_PREFIX_def)

lemma segment_path_inject: "segment_path l = segment_path m \<longleftrightarrow> l = m"
  by (metis option.inject seg_start_segment_path)

lemma length_segment_path: "length (segment_path l) = 24"
proof -
  have "unat l < 10 ^ 20" using unat_u64_lt [of l] by simp
  then have "length (show_nat (unat l)) \<le> 20" by (intro length_show_nat) simp_all
  then show ?thesis by (simp add: segment_path_def SEG_PREFIX_def pad20_def)
qed

lemma zero_hole_torn:
  assumes "rest = [] \<or> 12 \<le> n"
  shows "decode_record (replicate n 0 @ rest) = Inr None"
proof (cases "12 \<le> n")
  case True
  then have z: "take 4 (replicate n 0 @ rest) = replicate 4 0"
    "take 8 (drop 4 (replicate n 0 @ rest)) = replicate 8 0" by simp_all
  have w: "(le_word (replicate m 0) :: 'a::len word) = 0" for m by (induction m) simp_all
  have "frame_len (replicate n 0 @ rest) = 0" unfolding frame_len_def z w by simp
  moreover have "checksum [] \<noteq> 0" by (simp add: checksum_def)
  ultimately show ?thesis using True by (simp add: decode_record_eq z(2) w)
next
  case False
  then show ?thesis using assms by (auto simp: decode_record_eq)
qed

section \<open>Properties\<close>

text \<open>
  C12. Round trip of the log. Appending records one after the other and reading the bytes
  back gives the records: decoding at the start of what \<open>encode_record\<close> appended returns its
  sequence number, its body and its size, whatever follows; and when the log is cut at any
  byte, reading it returns the records that are wholly there, and nothing else.
\<close>

theorem wal_log_roundtrip:
  assumes "list_all record_fits es" and "record_fits (lsn, blob)"
  shows "decode_record (drop (length pre) (encode_record pre lsn blob) @ rest) =
           Inr (Some \<lparr>rec_lsn = lsn, wire_body = blob, consumed = 20 + length blob\<rparr>) \<and>
         frames wal_dec (concat (map record_bytes es)) = (es, []) \<and>
         (\<exists>m \<le> length es. \<exists>t.
           frames wal_dec (take n (concat (map record_bytes es))) = (take m es, t) \<and>
           take n (concat (map record_bytes es)) = concat (map record_bytes (take m es)) @ t \<and>
           (if m < length es then length t < length (record_bytes (es ! m)) else t = []))"
proof (intro conjI)
  show "decode_record (drop (length pre) (encode_record pre lsn blob) @ rest) =
      Inr (Some \<lparr>rec_lsn = lsn, wire_body = blob, consumed = 20 + length blob\<rparr>)"
    by (simp add: encode_record_append) (intro decode_record_extend decode_record_bytes assms(2))
qed (rule wal.frames_encoded [OF assms(1)], rule wal.frames_truncated [OF assms(1)])

theorem wal_log_roundtrip_witness:
  "frames wal_dec (concat (map record_bytes [(2, [1, 0, 0, 0, 0]), (3, [7])])) =
     ([(2, [1, 0, 0, 0, 0]), (3, [7])], [])"
  using wal_log_roundtrip [of "[(2, [1, 0, 0, 0, 0]), (3, [7])]" 4 "[7]" "[]" "[]" 0]
  by (simp add: record_fits_def)

text \<open>
  C9. The checksum catches every corruption of one byte. Changing any single byte of a
  record after its length prefix (sequence number, body or checksum) makes the decoder reject
  it, whatever follows in the file.
\<close>

theorem wal_corruption_detected:
  assumes fits: "record_fits (lsn, blob)" and i: "4 \<le> i" "i < 20 + length blob"
    and b: "b \<noteq> record_bytes (lsn, blob) ! i"
  shows "decode_record ((record_bytes (lsn, blob))[i := b] @ rest) = Inr None"
proof -
  let ?body = "le64 lsn @ blob" and ?cs = "le64 (checksum (le64 lsn @ blob))"
  let ?p = "le32 (as_u32 (8 + length blob))"
  have split: "record_bytes (lsn, blob) = ?p @ ?body @ ?cs" by (rule record_bytes_eq)
  have lens: "length ?p = 4" "length ?p + length ?body = 12 + length blob" by simp_all
  obtain body' cs' where upd: "(record_bytes (lsn, blob))[i := b] = ?p @ body' @ cs'"
    and len: "length body' = 8 + length blob" "length cs' = 8"
    and bad: "checksum body' \<noteq> le_word cs'"
  proof (cases "i < 12 + length blob")
    case True
    have "b \<noteq> ?body ! (i - 4)"
      using b i True nth_mid [of ?p i ?body ?cs] unfolding split lens by simp
    then have "checksum (?body[i - 4 := b]) \<noteq> checksum ?body"
      using i True by (intro checksum_update_neq) auto
    moreover have "(record_bytes (lsn, blob))[i := b] = ?p @ ?body[i - 4 := b] @ ?cs"
      using i True update_mid [of ?p i ?body ?cs] unfolding split lens by simp
    ultimately show thesis by (intro that [of "?body[i - 4 := b]" ?cs]) simp_all
  next
    case False
    let ?j = "i - (12 + length blob)"
    have "b \<noteq> ?cs ! ?j"
      using b False nth_end [of ?p ?body i ?cs] unfolding split lens by simp
    moreover have "?j < length ?cs" using i False by simp
    ultimately have "?cs[?j := b] \<noteq> ?cs" by (metis nth_list_update_eq)
    then have "checksum ?body \<noteq> le_word (?cs[?j := b])"
      using le64_le_word [of "?cs[?j := b]"] by auto
    moreover have "(record_bytes (lsn, blob))[i := b] = ?p @ ?body @ ?cs[?j := b]"
      using False update_end [of ?p ?body i ?cs] unfolding split lens by simp
    ultimately show thesis by (intro that [of ?body "?cs[?j := b]"]) simp_all
  qed
  have "frame_len (?p @ body' @ cs' @ rest) = 8 + length blob"
    using fits by (simp add: frame_len_def record_fits_def)
  then show ?thesis using len bad by (simp add: upd decode_record_eq)
qed

theorem wal_corruption_detected_witness:
  "record_bytes (2, [7]) ! 12 = 7 \<and> decode_record ((record_bytes (2, [7]))[12 := 9] @ []) = Inr None"
proof -
  have seven: "record_bytes (2, [7]) ! 12 = 7"
    by (simp add: record_bytes_eq nth_append)
  then show ?thesis
    using wal_corruption_detected [of 2 "[7]" 12 9 "[]"] by (simp add: record_fits_def)
qed

text \<open>
  A hole of zeros is a torn tail. A run of zero bytes (what the file system leaves where
  an earlier write never reached the disk) that ends the file, or that is at least as long as
  an empty record, is rejected by the decoder and never panics it.
\<close>

lemma wal_zero_hole_torn:
  assumes "rest = [] \<or> 12 \<le> n"
  shows "decode_record (replicate n 0 @ rest) = Inr None"
  using assms by (rule zero_hole_torn)

lemma wal_zero_hole_torn_example: "decode_record (replicate 12 0 @ [5]) = Inr None"
  using wal_zero_hole_torn [of "[5]" 12] by simp

text \<open>
  Segment names. The name of a segment has the fixed width of 24 characters, different
  sequence numbers get different names, and the number that \<open>list_segments\<close> parses from the
  name is the one the segment was created with.
\<close>

lemma segment_path_roundtrip:
  "length (segment_path l) = 24 \<and> seg_start (segment_path l) = Some l \<and>
   (segment_path l = segment_path m \<longleftrightarrow> l = m)"
  by (simp add: length_segment_path segment_path_inject)

end
