(* ===== verification/Db.thy ===== *)
theory Db
  imports Kv_Prelude
begin

text \<open>
  The table (\<open>crates/storage/src/db.rs\<close>), twice. First as the pipeline sees it: a
  \<open>HashMap\<close> from keys to values, an association list with distinct keys whose order stands
  for the unspecified iteration order of the map; only the lookup function and the
  distinctness of keys are ever relied on. Then as it is stored: the values are
  reference-counted \<open>Arc\<close> cells that responses to earlier GETs may still share, and \<open>put\<close>
  overwrites a cell in place when it is the only owner. The second part proves that sharing is
  never visible: every operation refines the table of values, and no operation changes the
  bytes behind a reference someone else holds.
\<close>

section \<open>The interface of a key-value table\<close>

locale kv_store =
  fixes empty :: 's
    and lookup :: "'s \<Rightarrow> 'k \<Rightarrow> 'v option"
    and store :: "'s \<Rightarrow> 'k \<Rightarrow> 'v \<Rightarrow> 's"
    and invar :: "'s \<Rightarrow> bool"
  assumes lookup_empty: "lookup empty k = None"
    and invar_empty: "invar empty"
    and lookup_store: "invar s \<Longrightarrow> lookup (store s k v) j = (if j = k then Some v else lookup s j)"
    and invar_store: "invar s \<Longrightarrow> invar (store s k v)"
begin

lemma invar_stores: "invar s \<Longrightarrow> invar (foldl (\<lambda>s (k, v). store s k v) s kvs)"
  by (induction kvs arbitrary: s) (auto simp: invar_store)

text \<open>After a sequence of writes, the last write of a key wins.\<close>

lemma lookup_stores:
  assumes "invar s"
  shows "lookup (foldl (\<lambda>s (k, v). store s k v) s kvs) j =
     (case map_of (rev kvs) j of Some v \<Rightarrow> Some v | None \<Rightarrow> lookup s j)"
  using assms
proof (induction kvs arbitrary: s)
  case Nil
  then show ?case by simp
next
  case (Cons kv kvs)
  obtain k v where kv: "kv = (k, v)" by (cases kv)
  have "invar (store s k v)" using Cons.prems by (rule invar_store)
  from Cons.IH [OF this] Cons.prems show ?case
    by (simp add: kv lookup_store map_add_def split: option.splits)
qed

text \<open>Two tables that agree stay in agreement under the same writes.\<close>

lemma lookup_stores_cong:
  assumes "invar s" "invar t" "lookup s = lookup t"
  shows "lookup (foldl (\<lambda>s (k, v). store s k v) s kvs) = lookup (foldl (\<lambda>s (k, v). store s k v) t kvs)"
  using assms by (auto simp: lookup_stores fun_eq_iff split: option.splits)

end

section \<open>The table of values\<close>

type_synonym db = "(bytes \<times> bytes) list"

definition db_new :: db where
  "db_new = []"

definition db_len :: "db \<Rightarrow> nat" where
  "db_len d = length d"

definition db_get :: "db \<Rightarrow> bytes \<Rightarrow> bytes option" where
  "db_get d k = map_of d k"

definition db_put :: "db \<Rightarrow> bytes \<Rightarrow> bytes \<Rightarrow> db" where
  "db_put d k v =
     (case db_get d k of
        Some slot \<Rightarrow> AList.update k v d
      | None \<Rightarrow> d @ [(k, v)])"

definition db_remove :: "db \<Rightarrow> bytes \<Rightarrow> db \<times> bytes option" where
  "db_remove d k = (AList.delete k d, db_get d k)"

definition db_remove_entry :: "db \<Rightarrow> bytes \<Rightarrow> db \<times> (bytes \<times> bytes) option" where
  "db_remove_entry d k = (AList.delete k d, map_option (\<lambda>v. (k, v)) (db_get d k))"

definition db_iter :: "db \<Rightarrow> (bytes \<times> bytes) list" where
  "db_iter d = d"

definition db_insert_raw :: "db \<Rightarrow> bytes \<Rightarrow> bytes \<Rightarrow> db" where
  "db_insert_raw d k v = AList.update k v d"

definition db_inv :: "db \<Rightarrow> bool" where
  "db_inv d \<longleftrightarrow> distinct (map fst d)"

section \<open>Shared cells\<close>

text \<open>
  The heap of \<open>Arc<[u8]>\<close> cells: bytes and strong count, addressed by position. The program
  creates no weak reference, so \<open>Arc::get_mut\<close> succeeds exactly when the strong count is one.
\<close>

record arc_cell =
  cell_bytes :: bytes
  strong :: nat

record arc_db =
  heap :: "arc_cell list"
  slots :: "(bytes \<times> nat) list"

definition arc_new :: arc_db where
  "arc_new = \<lparr>heap = [], slots = []\<rparr>"

text \<open>\<open>Arc::from\<close>, \<open>Arc::clone\<close> and dropping a reference.\<close>

definition arc_alloc :: "arc_cell list \<Rightarrow> bytes \<Rightarrow> arc_cell list \<times> nat" where
  "arc_alloc h v = (h @ [\<lparr>cell_bytes = v, strong = 1\<rparr>], length h)"

definition arc_clone :: "arc_cell list \<Rightarrow> nat \<Rightarrow> arc_cell list" where
  "arc_clone h a = h[a := (h ! a)\<lparr>strong := strong (h ! a) + 1\<rparr>]"

definition arc_drop :: "arc_cell list \<Rightarrow> nat \<Rightarrow> arc_cell list" where
  "arc_drop h a = h[a := (h ! a)\<lparr>strong := strong (h ! a) - 1\<rparr>]"

definition arc_get :: "arc_db \<Rightarrow> bytes \<Rightarrow> nat option" where
  "arc_get s k = map_of (slots s) k"

definition arc_put :: "arc_db \<Rightarrow> bytes \<Rightarrow> bytes \<Rightarrow> arc_db" where
  "arc_put s k v =
     (case map_of (slots s) k of
        Some a \<Rightarrow>
          (if length (cell_bytes (heap s ! a)) = length v \<and> strong (heap s ! a) = 1
           then s\<lparr>heap := (heap s)[a := (heap s ! a)\<lparr>cell_bytes := v\<rparr>]\<rparr>
           else (let (h, a') = arc_alloc (heap s) v
                 in \<lparr>heap = arc_drop h a, slots = AList.update k a' (slots s)\<rparr>))
      | None \<Rightarrow>
          (let (h, a') = arc_alloc (heap s) v
           in \<lparr>heap = h, slots = slots s @ [(k, a')]\<rparr>))"

text \<open>\<open>insert_raw\<close>: \<open>HashMap::insert\<close> drops the value it replaces.\<close>

definition arc_insert_raw :: "arc_db \<Rightarrow> bytes \<Rightarrow> bytes \<Rightarrow> arc_db" where
  "arc_insert_raw s k v =
     (let (h, a') = arc_alloc (heap s) v
      in \<lparr>heap = (case map_of (slots s) k of Some a \<Rightarrow> arc_drop h a | None \<Rightarrow> h),
          slots = AList.update k a' (slots s)\<rparr>)"

text \<open>\<open>remove\<close> hands the table's reference to the caller.\<close>

definition arc_remove :: "arc_db \<Rightarrow> bytes \<Rightarrow> arc_db \<times> nat option" where
  "arc_remove s k = (s\<lparr>slots := AList.delete k (slots s)\<rparr>, map_of (slots s) k)"

text \<open>
  The operations on the table and on the references taken from it, in any order: a GET
  clones the reference it found into a response, writing a response out drops its reference.
\<close>

datatype arc_op =
    ArcPut bytes bytes
  | ArcInsertRaw bytes bytes
  | ArcGet bytes
  | ArcRemove bytes
  | ArcDrop nat

fun arc_step :: "arc_op \<Rightarrow> arc_db \<times> nat list \<Rightarrow> arc_db \<times> nat list" where
  "arc_step (ArcPut k v) (s, held) = (arc_put s k v, held)"
| "arc_step (ArcInsertRaw k v) (s, held) = (arc_insert_raw s k v, held)"
| "arc_step (ArcGet k) (s, held) =
     (case arc_get s k of
        None \<Rightarrow> (s, held)
      | Some a \<Rightarrow> (s\<lparr>heap := arc_clone (heap s) a\<rparr>, a # held))"
| "arc_step (ArcRemove k) (s, held) =
     (case arc_remove s k of
        (t, None) \<Rightarrow> (t, held)
      | (t, Some a) \<Rightarrow> (t, a # held))"
| "arc_step (ArcDrop a) (s, held) =
     (if a \<in> set held then (s\<lparr>heap := arc_drop (heap s) a\<rparr>, remove1 a held) else (s, held))"

fun arc_run :: "arc_op list \<Rightarrow> arc_db \<times> nat list \<Rightarrow> arc_db \<times> nat list" where
  "arc_run [] s = s"
| "arc_run (x # xs) s = arc_run xs (arc_step x s)"

text \<open>What the operations mean for the table of values.\<close>

fun view_step :: "arc_op \<Rightarrow> (bytes \<rightharpoonup> bytes) \<Rightarrow> (bytes \<rightharpoonup> bytes)" where
  "view_step (ArcPut k v) m = m(k \<mapsto> v)"
| "view_step (ArcInsertRaw k v) m = m(k \<mapsto> v)"
| "view_step (ArcGet k) m = m"
| "view_step (ArcRemove k) m = m(k := None)"
| "view_step (ArcDrop a) m = m"

text \<open>The table of values a heap and its slots stand for.\<close>

definition arc_view :: "arc_db \<Rightarrow> bytes \<Rightarrow> bytes option" where
  "arc_view s k = map_option (\<lambda>a. cell_bytes (heap s ! a)) (map_of (slots s) k)"

text \<open>
  The ownership invariant, relative to the list of references held outside the table (the
  \<open>Resp::Value\<close>s not yet written to a socket): keys are distinct, no reference dangles, and
  the strong count of a cell is the number of its owners.
\<close>

fun owners :: "('k \<times> nat) list \<Rightarrow> nat \<Rightarrow> nat" where
  "owners [] a = 0"
| "owners ((k, b) # xs) a = (if b = a then 1 else 0) + owners xs a"

definition arc_inv :: "arc_db \<Rightarrow> nat list \<Rightarrow> bool" where
  "arc_inv s held \<longleftrightarrow>
     distinct (map fst (slots s)) \<and>
     (\<forall>a \<in> snd ` set (slots s) \<union> set held. a < length (heap s)) \<and>
     (\<forall>a < length (heap s). strong (heap s ! a) = owners (slots s) a + count_list held a)"

section \<open>The table of values implements the interface\<close>

lemma db_get_put: "db_get (db_put d k v) j = (if j = k then Some v else db_get d j)"
  by (auto simp: db_put_def db_get_def update_conv' map_add_def split: option.splits)

lemma db_inv_put: "db_inv d \<Longrightarrow> db_inv (db_put d k v)"
  by (auto simp: db_put_def db_get_def db_inv_def distinct_update map_of_eq_None_iff split: option.splits)

lemma db_get_insert_raw: "db_get (db_insert_raw d k v) j = (if j = k then Some v else db_get d j)"
  by (simp add: db_insert_raw_def db_get_def update_conv')

lemma db_inv_insert_raw: "db_inv d \<Longrightarrow> db_inv (db_insert_raw d k v)"
  by (simp add: db_insert_raw_def db_inv_def distinct_update)

lemma db_get_new [simp]: "db_get db_new k = None"
  by (simp add: db_new_def db_get_def)

lemma db_inv_new [simp]: "db_inv db_new"
  by (simp add: db_new_def db_inv_def)

lemma update_new: "map_of xs k = None \<Longrightarrow> AList.update k v xs = xs @ [(k, v)]"
  by (induction xs) (auto split: if_splits)

lemma db_put_insert_raw: "db_put d k v = db_insert_raw d k v"
  by (simp add: db_put_def db_insert_raw_def db_get_def update_new split: option.splits)

interpretation dbv: kv_store db_new db_get db_put db_inv
  by unfold_locales (simp_all add: db_get_put db_inv_put)

interpretation dbr: kv_store db_new db_get db_insert_raw db_inv
  by unfold_locales (simp_all add: db_get_insert_raw db_inv_insert_raw)


section \<open>Facts about slots and owners\<close>

lemma owners_append [simp]: "owners (xs @ ys) a = owners xs a + owners ys a"
  by (induction xs a rule: owners.induct) auto

lemma owners_eq_0: "owners xs a = 0 \<longleftrightarrow> a \<notin> snd ` set xs"
  by (induction xs a rule: owners.induct) auto

lemma map_of_snd_in: "map_of xs k = Some a \<Longrightarrow> a \<in> snd ` set xs"
  by (auto dest!: map_of_SomeD intro: rev_image_eqI)

lemma owners_pos: "map_of xs k = Some a \<Longrightarrow> 0 < owners xs a"
  using owners_eq_0 [of xs a] map_of_snd_in [of xs k a] by simp

lemma owners_update:
  "map_of xs k = Some a \<Longrightarrow>
   owners (AList.update k b xs) c + (if c = a then 1 else 0) = owners xs c + (if c = b then 1 else 0)"
  by (induction xs) (auto split: if_splits)

lemma delete_absent: "map_of xs k = None \<Longrightarrow> AList.delete k xs = xs"
  by (force simp: AList.delete_eq filter_id_conv map_of_eq_None_iff)

lemma owners_delete:
  "distinct (map fst xs) \<Longrightarrow> map_of xs k = Some a \<Longrightarrow>
   owners xs c = owners (AList.delete k xs) c + (if c = a then 1 else 0)"
proof (induction xs)
  case Nil
  then show ?case by simp
next
  case (Cons x xs)
  then show ?case
    using delete_absent [of xs k] by (cases x) (auto simp: map_of_eq_None_iff split: if_splits)
qed

lemma snd_set_update: "snd ` set (AList.update k b xs) \<subseteq> insert b (snd ` set xs)"
  by (induction xs) auto

lemma snd_set_delete: "snd ` set (AList.delete k xs) \<subseteq> snd ` set xs"
  by (auto simp: AList.delete_eq)

text \<open>A cell with one owner, owned by the slot of \<open>k\<close>, is shared with nobody.\<close>

lemma sole_owner_slots:
  assumes "owners xs a \<le> 1" "map_of xs k = Some a" "map_of xs j = Some a"
  shows "j = k"
  using assms
proof (induction xs)
  case Nil
  then show ?case by simp
next
  case (Cons x xs)
  then show ?case
    using owners_pos [of xs k a] owners_pos [of xs j a]
    by (cases x) (auto split: if_splits)
qed

lemma arc_inv_sole_owner:
  assumes inv: "arc_inv s held" and k: "map_of (slots s) k = Some a"
    and one: "strong (heap s ! a) = 1"
  shows "a \<notin> set held" and "map_of (slots s) j = Some a \<Longrightarrow> j = k"
proof -
  have a: "a < length (heap s)"
    using inv map_of_snd_in [OF k] by (auto simp: arc_inv_def)
  then have c: "owners (slots s) a + count_list held a = 1"
    using inv one by (auto simp: arc_inv_def)
  moreover have "0 < owners (slots s) a" using k by (rule owners_pos)
  ultimately have "count_list held a = 0" by arith
  then show "a \<notin> set held" by (simp add: count_list_0_iff)
  show "map_of (slots s) j = Some a \<Longrightarrow> j = k"
    using sole_owner_slots [of "slots s" a k j] k c by simp
qed

section \<open>Every operation keeps ownership and refines the table\<close>

text \<open>The bytes behind a set of references are the same in two states.\<close>

definition same_bytes :: "nat list \<Rightarrow> arc_db \<Rightarrow> arc_db \<Rightarrow> bool" where
  "same_bytes held s t \<longleftrightarrow> (\<forall>a \<in> set held. cell_bytes (heap t ! a) = cell_bytes (heap s ! a))"

lemma arc_drop_simps [simp]:
  "length (arc_drop h a) = length h"
  "a < length h \<Longrightarrow> cell_bytes (arc_drop h a ! b) = cell_bytes (h ! b)"
  "a < length h \<Longrightarrow> strong (arc_drop h a ! b) = (if b = a then strong (h ! a) - 1 else strong (h ! b))"
  by (auto simp: arc_drop_def nth_list_update)

lemma arc_clone_simps [simp]:
  "length (arc_clone h a) = length h"
  "a < length h \<Longrightarrow> cell_bytes (arc_clone h a ! b) = cell_bytes (h ! b)"
  "a < length h \<Longrightarrow> strong (arc_clone h a ! b) = (if b = a then strong (h ! a) + 1 else strong (h ! b))"
  by (auto simp: arc_clone_def nth_list_update)

lemma arc_inv_bounds:
  "arc_inv s held \<Longrightarrow> map_of (slots s) k = Some a \<Longrightarrow> a < length (heap s)"
  "arc_inv s held \<Longrightarrow> a \<in> set held \<Longrightarrow> a < length (heap s)"
  unfolding arc_inv_def using map_of_snd_in [of "slots s" k a] by blast+

lemma arc_inv_fresh:
  "arc_inv s held \<Longrightarrow> owners (slots s) (length (heap s)) = 0 \<and> count_list held (length (heap s)) = 0"
  by (auto simp: arc_inv_def owners_eq_0 count_list_0_iff)

text \<open>A fresh cell for a key that has none, and for a key whose old cell is released.\<close>

lemma arc_inv_add:
  assumes inv: "arc_inv s held" and k: "map_of (slots s) k = None"
  shows "arc_inv \<lparr>heap = heap s @ [\<lparr>cell_bytes = v, strong = 1\<rparr>],
                  slots = slots s @ [(k, length (heap s))]\<rparr> held"
  using inv arc_inv_fresh [OF inv] k
  by (auto simp: arc_inv_def map_of_eq_None_iff nth_append less_Suc_eq)

lemma arc_inv_replace:
  assumes inv: "arc_inv s held" and k: "map_of (slots s) k = Some a"
  shows "arc_inv \<lparr>heap = arc_drop (heap s @ [\<lparr>cell_bytes = v, strong = 1\<rparr>]) a,
                  slots = AList.update k (length (heap s)) (slots s)\<rparr> held"
    (is "arc_inv \<lparr>heap = ?h, slots = ?sl\<rparr> held")
proof -
  have a: "a < length (heap s)" using arc_inv_bounds(1) [OF inv k] .
  have old: "\<forall>b \<in> snd ` set (slots s) \<union> set held. b < length (heap s)"
    using inv unfolding arc_inv_def by blast
  have "\<forall>b \<in> snd ` set ?sl \<union> set held. b < length ?h"
  proof
    fix b assume "b \<in> snd ` set ?sl \<union> set held"
    then have "b = length (heap s) \<or> b \<in> snd ` set (slots s) \<union> set held"
      using snd_set_update [of k "length (heap s)" "slots s"] by blast
    then have "b < Suc (length (heap s))" using old by (meson less_Suc_eq)
    then show "b < length ?h" by simp
  qed
  moreover have "strong (?h ! b) = owners ?sl b + count_list held b" if b: "b < length ?h" for b
  proof (cases "b = length (heap s)")
    case True
    then show ?thesis
      using a arc_inv_fresh [OF inv] owners_update [OF k, of "length (heap s)" b]
      by (simp add: nth_append)
  next
    case False
    then have "b < length (heap s)" using b by simp
    then have "strong (heap s ! b) = owners (slots s) b + count_list held b"
      using inv by (simp add: arc_inv_def)
    then show ?thesis
      using False \<open>b < length (heap s)\<close> a owners_update [OF k, of "length (heap s)" b] owners_pos [OF k]
      by (cases "b = a") (simp_all add: nth_append)
  qed
  moreover have "distinct (map fst ?sl)" using inv by (simp add: arc_inv_def distinct_update)
  ultimately show ?thesis unfolding arc_inv_def by simp
qed

lemma arc_view_simps:
  "arc_view s k = (case map_of (slots s) k of None \<Rightarrow> None | Some a \<Rightarrow> Some (cell_bytes (heap s ! a)))"
  by (simp add: arc_view_def split: option.splits)

lemma arc_insert_raw_refines:
  assumes inv: "arc_inv s held"
  shows "arc_inv (arc_insert_raw s k v) held"
    and "arc_view (arc_insert_raw s k v) = (arc_view s)(k \<mapsto> v)"
    and "same_bytes held s (arc_insert_raw s k v)"
proof -
  note bounds = arc_inv_bounds(1) [OF inv] arc_inv_bounds(2) [OF inv]
  show "arc_inv (arc_insert_raw s k v) held"
    using arc_inv_add [OF inv] arc_inv_replace [OF inv]
    by (cases "map_of (slots s) k") (simp_all add: arc_insert_raw_def arc_alloc_def update_new)
  show "arc_view (arc_insert_raw s k v) = (arc_view s)(k \<mapsto> v)"
    using bounds by (auto simp: fun_eq_iff arc_view_simps arc_insert_raw_def arc_alloc_def
        update_conv' nth_append less_Suc_eq split: option.splits)
  show "same_bytes held s (arc_insert_raw s k v)"
    using bounds by (auto simp: same_bytes_def arc_insert_raw_def arc_alloc_def nth_append less_Suc_eq
        split: option.splits)
qed

text \<open>
  Overwriting in place, the fast path of \<open>put\<close>: the cell has one owner, the slot of the key,
  so neither another key nor a held reference sees the change.
\<close>

lemma arc_put_in_place:
  assumes inv: "arc_inv s held" and k: "map_of (slots s) k = Some a"
    and one: "strong (heap s ! a) = 1"
    and t: "t = s\<lparr>heap := (heap s)[a := (heap s ! a)\<lparr>cell_bytes := v\<rparr>]\<rparr>"
  shows "arc_inv t held" and "arc_view t = (arc_view s)(k \<mapsto> v)" and "same_bytes held s t"
proof -
  have a: "a < length (heap s)" using arc_inv_bounds(1) [OF inv k] .
  have "strong (heap t ! b) = strong (heap s ! b)" for b
    using a by (simp add: t nth_list_update)
  moreover have "length (heap t) = length (heap s)" "slots t = slots s" by (simp_all add: t)
  ultimately show "arc_inv t held" using inv unfolding arc_inv_def by simp
  have other: "map_of (slots s) j = Some b \<Longrightarrow> j \<noteq> k \<Longrightarrow> b \<noteq> a" for j b
    using arc_inv_sole_owner(2) [OF inv k one] by blast
  show "arc_view t = (arc_view s)(k \<mapsto> v)"
    using k a by (auto simp: t fun_eq_iff arc_view_simps nth_list_update dest: other split: option.splits)
  show "same_bytes held s t"
    using a arc_inv_sole_owner(1) [OF inv k one] by (auto simp: t same_bytes_def nth_list_update)
qed

lemma arc_put_cases:
  assumes "\<nexists>a. map_of (slots s) k = Some a \<and>
      length (cell_bytes (heap s ! a)) = length v \<and> strong (heap s ! a) = 1"
  shows "arc_put s k v = arc_insert_raw s k v"
  using assms
  by (auto simp: arc_put_def arc_insert_raw_def arc_alloc_def update_new split: option.splits)

lemma arc_put_refines:
  assumes inv: "arc_inv s held"
  shows "arc_inv (arc_put s k v) held \<and> arc_view (arc_put s k v) = (arc_view s)(k \<mapsto> v) \<and>
         same_bytes held s (arc_put s k v)"
proof (cases "\<exists>a. map_of (slots s) k = Some a \<and>
      length (cell_bytes (heap s ! a)) = length v \<and> strong (heap s ! a) = 1")
  case True
  then obtain a where a: "map_of (slots s) k = Some a" "strong (heap s ! a) = 1"
    and eq: "arc_put s k v = s\<lparr>heap := (heap s)[a := (heap s ! a)\<lparr>cell_bytes := v\<rparr>]\<rparr>"
    by (auto simp: arc_put_def)
  show ?thesis using arc_put_in_place [OF inv a eq] by simp
next
  case False
  then have "arc_put s k v = arc_insert_raw s k v" by (rule arc_put_cases)
  then show ?thesis using arc_insert_raw_refines [OF inv] by simp
qed

lemma arc_clone_refines:
  assumes inv: "arc_inv s held" and a: "a < length (heap s)"
  shows "arc_inv (s\<lparr>heap := arc_clone (heap s) a\<rparr>) (a # held) \<and>
         arc_view (s\<lparr>heap := arc_clone (heap s) a\<rparr>) = arc_view s \<and>
         same_bytes held s (s\<lparr>heap := arc_clone (heap s) a\<rparr>)"
  using inv a by (auto simp: arc_inv_def arc_view_simps fun_eq_iff same_bytes_def split: option.splits)

lemma arc_drop_refines:
  assumes inv: "arc_inv s (a # held)"
  shows "arc_inv (s\<lparr>heap := arc_drop (heap s) a\<rparr>) held \<and>
         arc_view (s\<lparr>heap := arc_drop (heap s) a\<rparr>) = arc_view s \<and>
         same_bytes held s (s\<lparr>heap := arc_drop (heap s) a\<rparr>)"
proof -
  have a: "a < length (heap s)" using arc_inv_bounds(2) [OF inv] by simp
  then show ?thesis
    using inv by (auto simp: arc_inv_def arc_view_simps fun_eq_iff same_bytes_def split: option.splits)
qed

lemma arc_remove_refines:
  assumes inv: "arc_inv s held" and r: "arc_remove s k = (t, Some a)"
  shows "arc_inv t (a # held) \<and> arc_view t = (arc_view s)(k := None) \<and> same_bytes (a # held) s t"
proof -
  have k: "map_of (slots s) k = Some a" and t: "t = s\<lparr>slots := AList.delete k (slots s)\<rparr>"
    using r by (auto simp: arc_remove_def)
  have "b < length (heap s)" if "b \<in> snd ` set (AList.delete k (slots s)) \<union> set (a # held)" for b
    using that inv snd_set_delete [of k "slots s"] map_of_snd_in [OF k] unfolding arc_inv_def by auto
  moreover have "distinct (map fst (slots s))" using inv by (simp add: arc_inv_def)
  ultimately have "arc_inv t (a # held)"
    using inv owners_delete [OF _ k] unfolding arc_inv_def by (simp add: t distinct_delete)
  then show ?thesis
    by (auto simp: t arc_view_simps fun_eq_iff same_bytes_def delete_conv' split: option.splits)
qed

text \<open>The stored table, with nothing held outside it, implements the interface too.\<close>

interpretation arcv: kv_store arc_new arc_view arc_put "\<lambda>s. arc_inv s []"
proof unfold_locales
  fix s :: arc_db and k v j
  show "arc_view arc_new k = None" "arc_inv arc_new []"
    by (simp_all add: arc_new_def arc_view_def arc_inv_def)
  assume "arc_inv s []"
  from arc_put_refines [OF this] show "arc_inv (arc_put s k v) []"
    "arc_view (arc_put s k v) j = (if j = k then Some v else arc_view s j)"
    by auto
qed

section \<open>Sequences of operations\<close>

lemma count_list_remove1:
  "a \<in> set xs \<Longrightarrow> count_list xs b = count_list (remove1 a xs) b + (if b = a then 1 else 0)"
  by (induction xs) auto

lemma arc_inv_move: "arc_inv s (p @ a # held) = arc_inv s (a # p @ held)"
  by (auto simp: arc_inv_def)

lemma set_remove1_insert: "a \<in> set xs \<Longrightarrow> insert a (set (remove1 a xs)) = set xs"
  by (induction xs) auto

lemma arc_inv_take:
  assumes "a \<in> set held"
  shows "arc_inv s (p @ held) = arc_inv s (a # p @ remove1 a held)"
proof -
  have "set (p @ held) = set (a # p @ remove1 a held)"
    using set_remove1_insert [OF assms] by auto
  moreover have "count_list (p @ held) b = count_list (a # p @ remove1 a held) b" for b
    using count_list_remove1 [OF assms, of b] by (auto split: if_splits)
  ultimately show ?thesis unfolding arc_inv_def by simp
qed

lemma arc_step_refines:
  assumes inv: "arc_inv s (p @ held)" and step: "arc_step x (s, held) = (t, held')"
  shows "arc_inv t (p @ held') \<and> arc_view t = view_step x (arc_view s) \<and> same_bytes p s t"
proof (cases x)
  case (ArcPut k v)
  then show ?thesis using step arc_put_refines [OF inv, of k v] by (auto simp: same_bytes_def)
next
  case (ArcInsertRaw k v)
  then show ?thesis using step arc_insert_raw_refines [OF inv, of k v] by (auto simp: same_bytes_def)
next
  case (ArcGet k)
  then show ?thesis
    using step inv arc_clone_refines [OF inv arc_inv_bounds(1) [OF inv], of k]
    by (auto simp: arc_get_def arc_inv_move same_bytes_def split: option.splits)
next
  case (ArcRemove k)
  show ?thesis
  proof (cases "map_of (slots s) k")
    case None
    then have "t = s" "held' = held" "(arc_view s)(k := None) = arc_view s"
      using ArcRemove step by (auto simp: arc_remove_def delete_absent arc_view_simps)
    then show ?thesis using ArcRemove inv by (simp add: same_bytes_def)
  next
    case (Some a)
    then show ?thesis
      using ArcRemove step arc_remove_refines [OF inv, of k t a]
      by (auto simp: arc_remove_def arc_inv_move same_bytes_def)
  qed
next
  case (ArcDrop a)
  then show ?thesis
    using step inv arc_drop_refines [of s a "p @ remove1 a held"] arc_inv_take [of a held s p]
    by (auto simp: same_bytes_def split: if_splits)
qed

lemma arc_run_refines:
  assumes "arc_inv s (p @ held)" and "arc_run xs (s, held) = (t, held')"
  shows "arc_inv t (p @ held') \<and> arc_view t = foldl (\<lambda>m x. view_step x m) (arc_view s) xs \<and> same_bytes p s t"
  using assms
proof (induction xs arbitrary: s held)
  case Nil
  then show ?case by (simp add: same_bytes_def)
next
  case (Cons x xs)
  obtain s1 held1 where one: "arc_step x (s, held) = (s1, held1)" by fastforce
  have r1: "arc_inv s1 (p @ held1)" "arc_view s1 = view_step x (arc_view s)" "same_bytes p s s1"
    using arc_step_refines [OF Cons.prems(1) one] by auto
  show ?case using Cons.IH [OF r1(1)] Cons.prems(2) one r1 by (auto simp: same_bytes_def)
qed

section \<open>Properties\<close>

text \<open>
  C6. Isolation of responses. A GET clones the reference of the value it found and the
  response keeps it until it is written out, while the table goes on changing. Whatever
  sequence of puts, raw inserts, gets, removals and releases of other references follows, the
  bytes behind the response are the bytes the table held when the GET ran, the reference
  counts stay exact, and the table is the one the same operations produce on plain values: the
  in-place overwrite of \<open>put\<close> is never visible.
\<close>

theorem arc_get_isolated:
  assumes inv: "arc_inv s held" and found: "arc_get s k = Some a"
    and run: "arc_run xs (s\<lparr>heap := arc_clone (heap s) a\<rparr>, held) = (t, held')"
  shows "Some (cell_bytes (heap t ! a)) = arc_view s k \<and>
         arc_inv t (a # held') \<and>
         arc_view t = foldl (\<lambda>m x. view_step x m) (arc_view s) xs"
proof -
  have a: "a < length (heap s)" using arc_inv_bounds(1) [OF inv] found by (simp add: arc_get_def)
  have c: "arc_inv (s\<lparr>heap := arc_clone (heap s) a\<rparr>) ([a] @ held)"
    "arc_view (s\<lparr>heap := arc_clone (heap s) a\<rparr>) = arc_view s"
    using arc_clone_refines [OF inv a] by auto
  show ?thesis
    using arc_run_refines [OF c(1) run] c(2) found a
    by (simp add: same_bytes_def arc_view_simps arc_get_def)
qed

theorem arc_get_isolated_witness:
  "Some (cell_bytes (heap (fst (arc_run [ArcPut [1] [8], ArcPut [2] [3]]
      (\<lparr>heap = [\<lparr>cell_bytes = [7], strong = 2\<rparr>], slots = [([1], 0)]\<rparr>, []))) ! 0)) = Some [7]"
proof -
  let ?s = "\<lparr>heap = [\<lparr>cell_bytes = [7], strong = 1\<rparr>], slots = [([1], 0)]\<rparr>"
  have inv: "arc_inv ?s []" by (simp add: arc_inv_def)
  have get: "arc_get ?s [1] = Some 0" by (simp add: arc_get_def)
  have clone: "?s\<lparr>heap := arc_clone (heap ?s) 0\<rparr> = \<lparr>heap = [\<lparr>cell_bytes = [7], strong = 2\<rparr>], slots = [([1], 0)]\<rparr>"
    by (simp add: arc_clone_def)
  show ?thesis
    using arc_get_isolated [OF inv get, of "[ArcPut [1] [8], ArcPut [2] [3]]"]
    unfolding clone by (auto simp: arc_view_simps split: prod.splits)
qed

end
