(* ===== verification/Snapshot.thy ===== *)
theory Snapshot
  imports Wal_Format Db
begin

text \<open>
  Snapshots (\<open>crates/storage/src/snapshot.rs\<close>): the file format
  \<open>[magic][lsn][count]([klen][key][vlen][val])*\<close>, loading it into a table, and the synchronous
  snapshot writer with its order of file operations (temporary file, data sync, rename).
  The writer returns, beside its result, the directory contents it passes through, so that a
  crash between two operations can be spoken about.
\<close>

section \<open>Loading\<close>

definition SNAPSHOT_MAGIC :: u32 where
  "SNAPSHOT_MAGIC = le_word [0x53, 0x4e, 0x41, 0x50]"

text \<open>The loop over the entries; \<open>p\<close> is the read position, and leaving early is \<open>break\<close>.\<close>

fun load_entries :: "nat \<Rightarrow> bytes \<Rightarrow> nat \<Rightarrow> db \<Rightarrow> db outcome" where
  "load_entries 0 bs p d = Inr d"
| "load_entries (Suc n) bs p d =
     (if length bs < p + 4 then Inr d
      else
        obind (slice bs p (p + 4)) (\<lambda>kh. obind (rd_u32 kh) (\<lambda>key_len.
        let p1 = p + 4 in
        obind (slice bs p1 (p1 + key_len)) (\<lambda>k.
        let p2 = p1 + key_len in
        obind (slice bs p2 (p2 + 4)) (\<lambda>vh. obind (rd_u32 vh) (\<lambda>val_len.
        let p3 = p2 + 4 in
        obind (slice bs p3 (p3 + val_len)) (\<lambda>v.
        let p4 = p3 + val_len in
        load_entries n bs p4 (db_insert_raw d k v))))))))"

definition load :: "bytes \<Rightarrow> db \<Rightarrow> (u64 option \<times> db) outcome" where
  "load bs d =
     (if length bs < 20 then Inr (None, d)
      else
        obind (slice bs 0 4) (\<lambda>mh. obind (rd_u32 mh) (\<lambda>magic.
        if as_u32 magic \<noteq> SNAPSHOT_MAGIC then Inr (None, d)
        else
          obind (slice bs 4 12) (\<lambda>lh. obind (rd_u64 lh) (\<lambda>lsn.
          obind (slice bs 12 20) (\<lambda>nh. obind (rd_u64 nh) (\<lambda>db_len.
          obind (load_entries (unat db_len) bs 20 d) (\<lambda>d'.
            Inr (Some lsn, d')))))))))"

section \<open>Writing\<close>

record snapshotter =
  running :: "nat option"
  last_boundary_lsn :: u64
  min_lsn_gap :: u64

definition snapshotter_new :: "u64 \<Rightarrow> u64 \<Rightarrow> snapshotter" where
  "snapshotter_new start_lsn gap =
     \<lparr>running = None, last_boundary_lsn = start_lsn, min_lsn_gap = gap\<rparr>"

definition entry_bytes :: "bytes \<times> bytes \<Rightarrow> bytes" where
  "entry_bytes e =
     le32 (as_u32 (length (fst e))) @ fst e @ le32 (as_u32 (length (snd e))) @ snd e"

definition snapshot_bytes :: "u64 \<Rightarrow> db \<Rightarrow> bytes" where
  "snapshot_bytes lsn d =
     le32 SNAPSHOT_MAGIC @ le64 lsn @ le64 (of_nat (db_len d)) @
     concat (map entry_bytes (db_iter d))"

text \<open>
  The outcome of each file operation, chosen by the environment; when writing fails, an
  arbitrary number of bytes may already be in the temporary file.
\<close>

record snap_io =
  create_ok :: bool
  write_ok :: bool
  written :: nat
  sync_ok :: bool
  rename_ok :: bool

definition dir_write :: "string \<Rightarrow> bytes \<Rightarrow> dir_state \<Rightarrow> dir_state" where
  "dir_write name b dir = dir\<lparr>entries := AList.update name b (entries dir)\<rparr>"

definition dir_file :: "string \<Rightarrow> dir_state \<Rightarrow> bytes option" where
  "dir_file name dir = map_of (entries dir) name"

definition dir_rename :: "string \<Rightarrow> string \<Rightarrow> dir_state \<Rightarrow> dir_state" where
  "dir_rename a b dir =
     (case dir_file a dir of
        None \<Rightarrow> dir
      | Some c \<Rightarrow> dir\<lparr>entries := AList.update b c (AList.delete a (entries dir))\<rparr>)"

definition write_snapshot_sync ::
  "snap_io \<Rightarrow> snapshotter \<Rightarrow> db \<Rightarrow> dir_state \<Rightarrow> u64 \<Rightarrow> bool outcome \<times> snapshotter \<times> dir_state list" where
  "write_snapshot_sync io s d dir lsn =
     (if lsn - last_boundary_lsn s \<le> min_lsn_gap s then (Inr False, s, [dir])
      else if \<not> create_ok io then (Inl IoError, s, [dir])
      else
        let d1 = dir_write ''snapshot.tmp'' [] dir;
            bs = snapshot_bytes lsn d
        in if \<not> write_ok io
           then (Inl IoError, s, [dir, d1, dir_write ''snapshot.tmp'' (take (written io) bs) d1])
           else
             let d2 = dir_write ''snapshot.tmp'' bs d1
             in if \<not> sync_ok io then (Inl IoError, s, [dir, d1, d2])
                else if \<not> rename_ok io then (Inl IoError, s, [dir, d1, d2])
                else (Inr True, s\<lparr>last_boundary_lsn := lsn\<rparr>,
                      [dir, d1, d2, dir_rename ''snapshot.tmp'' ''snapshot'' d2]))"

text \<open>The forked snapshot is not written yet: both entry points are \<open>todo!()\<close>.\<close>

datatype begin_result = Started | RejectReason

datatype snap_outcome = Committed u64 | Failed

definition try_begin :: "snapshotter \<Rightarrow> db \<Rightarrow> u64 \<Rightarrow> (snapshotter \<times> begin_result) outcome" where
  "try_begin s d applied_lsn = Inl ExplicitPanic"

definition poll :: "snapshotter \<Rightarrow> (snapshotter \<times> snap_outcome option) outcome" where
  "poll s = Inl ExplicitPanic"

section \<open>Facts about loading\<close>

text \<open>An entry fits when its two lengths fit in their prefixes.\<close>

definition entry_fits :: "bytes \<times> bytes \<Rightarrow> bool" where
  "entry_fits e \<longleftrightarrow> length (fst e) < 2 ^ 32 \<and> length (snd e) < 2 ^ 32"

lemma length_entry_bytes: "length (entry_bytes (k, v)) = 8 + length k + length v"
  by (simp add: entry_bytes_def)

text \<open>A slice taken at a known position of a concatenation.\<close>

lemma slice_at: "p = length a \<Longrightarrow> n = length m \<Longrightarrow> slice (a @ m @ c) p (p + n) = Inr m"
  by (simp add: slice_def)

lemma load_entry:
  assumes "entry_fits (k, v)"
  shows "load_entries (Suc n) (pre @ entry_bytes (k, v) @ rest) (length pre) d =
         load_entries n (pre @ entry_bytes (k, v) @ rest) (length (pre @ entry_bytes (k, v)))
           (db_insert_raw d k v)"
proof -
  let ?kl = "le32 (as_u32 (length k))" and ?vl = "le32 (as_u32 (length v))"
  let ?bs = "pre @ entry_bytes (k, v) @ rest" and ?p = "length pre"
  have rd: "rd_u32 ?kl = Inr (length k)" "rd_u32 ?vl = Inr (length v)"
    using assms by (simp_all add: entry_fits_def rd_u32_ok)
  have b1: "?bs = pre @ ?kl @ (k @ ?vl @ v @ rest)"
    and b2: "?bs = (pre @ ?kl) @ k @ (?vl @ v @ rest)"
    and b3: "?bs = (pre @ ?kl @ k) @ ?vl @ (v @ rest)"
    and b4: "?bs = (pre @ ?kl @ k @ ?vl) @ v @ rest"
    by (simp_all add: entry_bytes_def)
  have s1: "slice ?bs ?p (?p + 4) = Inr ?kl"
    unfolding b1 by (rule slice_at) simp_all
  have s2: "slice ?bs (?p + 4) (?p + 4 + length k) = Inr k"
    unfolding b2 by (rule slice_at) simp_all
  have s3: "slice ?bs (?p + 4 + length k) (?p + 4 + length k + 4) = Inr ?vl"
    unfolding b3 by (rule slice_at) simp_all
  have s4: "slice ?bs (?p + 4 + length k + 4) (?p + 4 + length k + 4 + length v) = Inr v"
    unfolding b4 by (rule slice_at) simp_all
  have "\<not> length ?bs < ?p + 4" by (simp add: length_entry_bytes)
  moreover have "length (pre @ entry_bytes (k, v)) = ?p + 4 + length k + 4 + length v"
    by (simp add: length_entry_bytes)
  ultimately show ?thesis
    by (simp only: load_entries.simps if_False obind_Inr s1 s2 s3 s4 rd Let_def)
qed

lemma load_all_entries:
  assumes "list_all entry_fits es"
  shows "load_entries (length es + n) (pre @ concat (map entry_bytes es) @ rest) (length pre) d =
         load_entries n (pre @ concat (map entry_bytes es) @ rest)
           (length (pre @ concat (map entry_bytes es)))
           (foldl (\<lambda>d (k, v). db_insert_raw d k v) d es)"
  using assms
proof (induction es arbitrary: pre d)
  case Nil
  then show ?case by simp
next
  case (Cons e es)
  obtain k v where e: "e = (k, v)" by (cases e)
  have "load_entries (Suc (length es + n)) (pre @ entry_bytes (k, v) @ concat (map entry_bytes es) @ rest)
      (length pre) d =
    load_entries (length es + n) (pre @ entry_bytes (k, v) @ concat (map entry_bytes es) @ rest)
      (length (pre @ entry_bytes (k, v))) (db_insert_raw d k v)"
    using Cons.prems by (intro load_entry) (simp add: e)
  also have "\<dots> = load_entries n (pre @ entry_bytes (k, v) @ concat (map entry_bytes es) @ rest)
      (length ((pre @ entry_bytes (k, v)) @ concat (map entry_bytes es)))
      (foldl (\<lambda>d (k, v). db_insert_raw d k v) (db_insert_raw d k v) es)"
    using Cons.IH [of "pre @ entry_bytes (k, v)"] Cons.prems by simp
  finally show ?case by (simp add: e)
qed

text \<open>
  At an entry that is cut short the loop stops when fewer than four bytes are left and panics
  otherwise.
\<close>

lemma load_cut_entry:
  assumes fits: "entry_fits (k, v)" and n: "n < length (entry_bytes (k, v))"
  shows "load_entries (Suc m) (pre @ take n (entry_bytes (k, v))) (length pre) d =
         (if n < 4 then Inr d else Inl SliceOutOfBounds)"
proof (cases "n < 4")
  case True
  then show ?thesis using n by simp
next
  case False
  let ?kl = "le32 (as_u32 (length k))" and ?vl = "le32 (as_u32 (length v))"
  let ?bs = "pre @ take n (entry_bytes (k, v))" and ?p = "length pre"
  have len: "length ?bs = ?p + n" using n by simp
  have rd: "rd_u32 ?kl = Inr (length k)" "rd_u32 ?vl = Inr (length v)"
    using fits by (simp_all add: entry_fits_def rd_u32_ok)
  have s1: "slice ?bs ?p (?p + 4) = Inr ?kl"
    using False len by (simp add: slice_def entry_bytes_def)
  have s2: "slice ?bs (?p + 4) (?p + 4 + length k) =
      (if n < 4 + length k then Inl SliceOutOfBounds else Inr k)"
    using False len by (auto simp: slice_def entry_bytes_def)
  have s3: "slice ?bs (?p + 4 + length k) (?p + 4 + length k + 4) =
      (if n < 8 + length k then Inl SliceOutOfBounds else Inr ?vl)"
    using False len by (auto simp: slice_def entry_bytes_def)
  have s4: "slice ?bs (?p + 4 + length k + 4) (?p + 4 + length k + 4 + length v) = Inl SliceOutOfBounds"
    using n len by (simp add: slice_fails length_entry_bytes)
  have "\<not> length ?bs < ?p + 4" using False len by simp
  then show ?thesis
    using False
    by (cases "n < 4 + length k"; cases "n < 8 + length k")
       (simp_all only: load_entries.simps if_True if_False obind_Inr obind_Inl s1 s2 s3 s4 rd Let_def)
qed

lemma load_header:
  "load (le32 SNAPSHOT_MAGIC @ le64 lsn @ le64 c @ rest) d =
     obind (load_entries (unat c) (le32 SNAPSHOT_MAGIC @ le64 lsn @ le64 c @ rest) 20 d)
       (\<lambda>d'. Inr (Some lsn, d'))"
proof -
  let ?bs = "le32 SNAPSHOT_MAGIC @ le64 lsn @ le64 c @ rest"
  have "slice ?bs 0 4 = Inr (le32 SNAPSHOT_MAGIC)" "slice ?bs 4 12 = Inr (le64 lsn)"
    "slice ?bs 12 20 = Inr (le64 c)" "\<not> length ?bs < 20"
    by (simp_all add: slice_def)
  moreover have "rd_u32 (le32 SNAPSHOT_MAGIC) = Inr (unat SNAPSHOT_MAGIC)"
    "rd_u64 (le64 lsn) = Inr lsn" "rd_u64 (le64 c) = Inr c"
    by (simp_all add: rd_u32_ok rd_u64_ok)
  moreover have "as_u32 (unat SNAPSHOT_MAGIC) = SNAPSHOT_MAGIC" by (simp add: as_u32_def)
  ultimately show ?thesis
    by (simp only: load_def if_False obind_Inr simp_thms)
qed

text \<open>The table that loading the first entries of a snapshot builds.\<close>

definition table_of :: "db \<Rightarrow> db" where
  "table_of es = foldl (\<lambda>d (k, v). db_insert_raw d k v) db_new es"

lemma table_of_inv: "db_inv (table_of es)"
  unfolding table_of_def by (rule dbr.invar_stores) simp

lemma table_of_get: "distinct (map fst es) \<Longrightarrow> db_get (table_of es) = map_of es"
proof
  fix k assume d: "distinct (map fst es)"
  have "map_of (rev es) = map_of es"
    using d by (subst map_of_inject_set) (simp_all add: rev_map [symmetric])
  then show "db_get (table_of es) k = map_of es k"
    by (simp add: table_of_def dbr.lookup_stores split: option.splits)
qed

lemma snapshot_load_ok:
  assumes "db_inv d" and fits: "list_all entry_fits d" and len: "length d < 2 ^ 64"
  shows "\<exists>d'. load (snapshot_bytes lsn d) db_new = Inr (Some lsn, d') \<and> db_inv d' \<and> db_get d' = db_get d"
proof -
  have c: "unat (of_nat (db_len d) :: u64) = length d + 0"
    using len by (simp add: db_len_def unat_of_nat)
  have "load (snapshot_bytes lsn d) db_new = Inr (Some lsn, table_of d)"
    using load_all_entries [OF fits, of 0 "le32 SNAPSHOT_MAGIC @ le64 lsn @ le64 (of_nat (db_len d))" "[]"]
    unfolding snapshot_bytes_def load_header c
    by (simp add: db_iter_def table_of_def)
  moreover have "db_get (table_of d) = db_get d"
    using assms(1) by (simp add: table_of_get db_inv_def db_get_def fun_eq_iff)
  ultimately show ?thesis using table_of_inv by blast
qed

section \<open>Properties\<close>

text \<open>
  C17. Round trip of snapshots. Loading the bytes the snapshot writer produces for a table
  into an empty table gives back the sequence number and a table with the same contents, for
  whatever order the hash map lists its entries in.
\<close>

theorem snapshot_roundtrip:
  assumes "db_inv d" and "list_all entry_fits d" and "length d < 2 ^ 64"
  shows "\<exists>d'. load (snapshot_bytes lsn d) db_new = Inr (Some lsn, d') \<and> db_inv d' \<and> db_get d' = db_get d"
  using assms by (rule snapshot_load_ok)

theorem snapshot_roundtrip_witness:
  "\<exists>d'. load (snapshot_bytes 9 [([1], [2]), ([3], [])]) db_new = Inr (Some 9, d') \<and> db_inv d' \<and>
     db_get d' = db_get [([1], [2]), ([3], [])]"
  using snapshot_roundtrip [of "[([1], [2]), ([3], [])]" 9] by (simp add: db_inv_def entry_fits_def)

text \<open>
  C18. The snapshot writer is crash-safe. In every directory state it passes through, however
  each file operation ends, the file \<open>snapshot\<close> is the previous one or the complete new one,
  the new one appears only after its data was written and synced, no other file than the
  temporary one is touched, and the sequence number of the last snapshot moves exactly when
  the writer reports success. A snapshot too close to the last one touches nothing.
\<close>

theorem snapshot_write_atomic:
  assumes "write_snapshot_sync io s d dir lsn = (r, s', dirs)"
  shows "(\<forall>dir' \<in> set dirs.
            (dir_file ''snapshot'' dir' = dir_file ''snapshot'' dir \<or>
             dir_file ''snapshot'' dir' = Some (snapshot_bytes lsn d) \<and> write_ok io \<and> sync_ok io) \<and>
            (\<forall>f. f \<noteq> ''snapshot'' \<longrightarrow> f \<noteq> ''snapshot.tmp'' \<longrightarrow> dir_file f dir' = dir_file f dir)) \<and>
         (if r = Inr True
          then dir_file ''snapshot'' (last dirs) = Some (snapshot_bytes lsn d) \<and> last_boundary_lsn s' = lsn
          else s' = s) \<and>
         (lsn - last_boundary_lsn s \<le> min_lsn_gap s \<longrightarrow> r = Inr False \<and> dirs = [dir])"
  using assms
  by (auto simp: write_snapshot_sync_def dir_write_def dir_rename_def dir_file_def update_conv'
      delete_conv' Let_def split: if_splits)

theorem snapshot_write_atomic_witness:
  "write_snapshot_sync \<lparr>create_ok = True, write_ok = True, written = 0, sync_ok = True, rename_ok = True\<rparr>
      (snapshotter_new 0 5) [] \<lparr>dir_exists = True, mkdir_ok = True, readdir_ok = True, readable = (\<lambda>_. True), entries = []\<rparr> 9 =
    (Inr True, \<lparr>running = None, last_boundary_lsn = 9, min_lsn_gap = 5\<rparr>,
      snd (snd (write_snapshot_sync
        \<lparr>create_ok = True, write_ok = True, written = 0, sync_ok = True, rename_ok = True\<rparr>
        (snapshotter_new 0 5) [] \<lparr>dir_exists = True, mkdir_ok = True, readdir_ok = True, readable = (\<lambda>_. True), entries = []\<rparr> 9))) \<and>
   dir_file ''snapshot'' (last (snd (snd (write_snapshot_sync
        \<lparr>create_ok = True, write_ok = True, written = 0, sync_ok = True, rename_ok = True\<rparr>
        (snapshotter_new 0 5) [] \<lparr>dir_exists = True, mkdir_ok = True, readdir_ok = True, readable = (\<lambda>_. True), entries = []\<rparr> 9)))) =
     Some (snapshot_bytes 9 [])"
proof -
  let ?w = "write_snapshot_sync \<lparr>create_ok = True, write_ok = True, written = 0, sync_ok = True, rename_ok = True\<rparr>
      (snapshotter_new 0 5) [] \<lparr>dir_exists = True, mkdir_ok = True, readdir_ok = True, readable = (\<lambda>_. True), entries = []\<rparr> 9"
  have r: "?w = (Inr True, \<lparr>running = None, last_boundary_lsn = 9, min_lsn_gap = 5\<rparr>, snd (snd ?w))"
    by (simp add: write_snapshot_sync_def snapshotter_new_def Let_def)
  show ?thesis using r snapshot_write_atomic [OF r] by simp
qed

text \<open>
  C35. What loading does with a truncated snapshot. A file cut inside the header is refused
  and leaves the table alone. A file cut later is not refused: when fewer than four bytes of
  the next entry are left, loading succeeds with the leading entries only and still reports
  the full sequence number; anywhere else it panics on a slice out of range.
\<close>

theorem snapshot_load_truncated:
  assumes fits: "list_all entry_fits d" and len: "length d < 2 ^ 64"
    and n: "n < length (snapshot_bytes lsn d)"
  shows "if n < 20 then load (take n (snapshot_bytes lsn d)) db_new = Inr (None, db_new)
         else (\<exists>m < length d. \<exists>j < length (entry_bytes (d ! m)).
                 n = 20 + length (concat (map entry_bytes (take m d))) + j \<and>
                 load (take n (snapshot_bytes lsn d)) db_new =
                   (if j < 4 then Inr (Some lsn, table_of (take m d)) else Inl SliceOutOfBounds))"
proof (cases "n < 20")
  case True
  then show ?thesis using n by (simp add: load_def)
next
  case False
  let ?hdr = "le32 SNAPSHOT_MAGIC @ le64 lsn @ le64 (of_nat (db_len d))"
  have "n - 20 < length (concat (map entry_bytes d))"
    using n False by (simp add: snapshot_bytes_def db_iter_def)
  from take_concat_split [OF this] obtain m j where mj: "m < length d" "j < length (entry_bytes (d ! m))"
    and cut: "take (n - 20) (concat (map entry_bytes d)) =
      concat (map entry_bytes (take m d)) @ take j (entry_bytes (d ! m))" by blast
  have bs: "take n (snapshot_bytes lsn d) =
      ?hdr @ concat (map entry_bytes (take m d)) @ take j (entry_bytes (d ! m))"
    using False cut by (simp add: snapshot_bytes_def db_iter_def)
  have "length (take (n - 20) (concat (map entry_bytes d))) = n - 20"
    using n False by (simp add: snapshot_bytes_def db_iter_def)
  then have nn: "n = 20 + length (concat (map entry_bytes (take m d))) + j"
    using False mj unfolding cut by simp
  obtain k v where kv: "d ! m = (k, v)" by (cases "d ! m")
  have fk: "entry_fits (k, v)" using fits mj kv by (metis list_all_length)
  have fm: "list_all entry_fits (take m d)" using fits by (auto simp: list_all_iff dest: in_set_takeD)
  have c: "unat (of_nat (db_len d) :: u64) = length (take m d) + Suc (length d - Suc m)"
    using len mj by (simp add: db_len_def unat_of_nat)
  have "load_entries (unat (of_nat (db_len d) :: u64)) (take n (snapshot_bytes lsn d)) 20 db_new =
      (if j < 4 then Inr (table_of (take m d)) else Inl SliceOutOfBounds)"
    using load_all_entries [OF fm, of "Suc (length d - Suc m)" ?hdr "take j (entry_bytes (d ! m))" db_new]
      load_cut_entry [OF fk, of j "length d - Suc m" "?hdr @ concat (map entry_bytes (take m d))"] mj
    unfolding c bs by (simp add: kv table_of_def del: load_entries.simps)
  then have "load (take n (snapshot_bytes lsn d)) db_new =
      (if j < 4 then Inr (Some lsn, table_of (take m d)) else Inl SliceOutOfBounds)"
    unfolding bs append_assoc load_header by simp
  then show ?thesis using False mj nn by auto
qed

theorem snapshot_load_truncated_witness:
  "load (take 22 (snapshot_bytes 9 [([1], [2])])) db_new = Inr (Some 9, db_new)"
proof -
  have "22 < length (snapshot_bytes 9 [([1], [2])])"
    by (simp add: snapshot_bytes_def db_iter_def length_entry_bytes)
  with snapshot_load_truncated [of "[([1], [2])]" 22 9] show ?thesis
    by (auto simp: entry_fits_def table_of_def)
qed

end
