(* ===== verification/Stage2.thy ===== *)
theory Stage2
  imports Batches Snapshot
begin

text \<open>
  Stage 2, the thread that owns the table (\<open>crates/server/src/stage2/mod.rs\<close>, constants of
  \<open>main.rs\<close>): applying a batch to the table and numbering its PUTs, and one turn of the main
  loop (obtain a buffer, receive requests, apply, acknowledge, hand the batch to stage 3 or
  recycle it). The periodic snapshot trigger of the loop computes a number and does nothing
  with it (its body is commented out in the source), so it has no effect here either.
\<close>

section \<open>Constants\<close>

definition SNAPSHOT_EVERY_LSN :: u64 where
  "SNAPSHOT_EVERY_LSN = 2000000"

definition SNAPSHOT_MIN_LSN_GAP :: u64 where
  "SNAPSHOT_MIN_LSN_GAP = 500000"

definition RING_DEPTH :: nat where
  "RING_DEPTH = 128"

definition MAX_BATCH :: nat where
  "MAX_BATCH = 1024"

definition N_BUFFERS :: nat where
  "N_BUFFERS = 32"

section \<open>Applying a batch\<close>

fun apply_items :: "db \<Rightarrow> u64 \<Rightarrow> request list \<Rightarrow> (db \<times> u64 \<times> request list) outcome" where
  "apply_items d lsn [] = Inr (d, lsn, [])"
| "apply_items d lsn (r # rs) =
     obind (req_op r) (\<lambda>oper.
     obind (case oper of
              Get \<Rightarrow>
                obind (req_key r) (\<lambda>k.
                  Inr (d, lsn, r\<lparr>resp := Some (case db_get d k of
                                                  Some v \<Rightarrow> Value v
                                                | None \<Rightarrow> Miss)\<rparr>))
            | Put \<Rightarrow>
                let lsn' = lsn + 1 in
                obind (req_split_kv r) (\<lambda>(k, v).
                  Inr (db_put d k v, lsn', r\<lparr>resp := Some Ok\<rparr>))
            | Unknown b \<Rightarrow> Inr (d, lsn, r\<lparr>resp := Some UnknownOp\<rparr>)) (\<lambda>(d', lsn', r').
     obind (apply_items d' lsn' rs) (\<lambda>(d'', lsn'', rs').
       Inr (d'', lsn'', r' # rs'))))"

definition apply_batch :: "db \<Rightarrow> batch \<Rightarrow> u64 \<Rightarrow> (db \<times> batch \<times> u64) outcome" where
  "apply_batch d b lsn =
     (let b = b\<lparr>lsn_low := lsn\<rparr> in
      obind (apply_items d lsn (items b)) (\<lambda>(d', lsn', rs).
        Inr (d', b\<lparr>items := rs, lsn_hi := lsn'\<rparr>, lsn')))"

section \<open>The main loop\<close>

record stage2 =
  s2_db :: db
  s2_lsn :: u64
  last_compact_lsn :: u64
  s2_snapshotter :: snapshotter
  recycled_batch :: "batch option"

definition saturating_sub :: "u64 \<Rightarrow> u64 \<Rightarrow> u64" where
  "saturating_sub a b = (if b \<le> a then a - b else 0)"

definition stage2_new :: "db \<Rightarrow> u64 \<Rightarrow> stage2" where
  "stage2_new d start_lsn =
     \<lparr>s2_db = d, s2_lsn = start_lsn, last_compact_lsn = saturating_sub start_lsn 1,
      s2_snapshotter = snapshotter_new start_lsn SNAPSHOT_MIN_LSN_GAP, recycled_batch = None\<rparr>"

text \<open>
  One turn: \<open>pool\<close> is the queue of free buffers, \<open>avail\<close> the requests queued by stage 1 (an
  empty list means that all senders are gone). A turn waits when there is no buffer, stops when
  there are no more requests, and otherwise yields the new state, the remaining buffers and
  requests, the responses sent and the messages for stage 3.
\<close>

datatype s2_turn =
    S2Blocked
  | S2Stopped
  | S2Next stage2 "batch list" "request list" "(nat \<times> resp) list" "wal_msg list"

definition obtain_batch :: "stage2 \<Rightarrow> batch list \<Rightarrow> (batch \<times> batch list) option" where
  "obtain_batch s pool =
     (case recycled_batch s of
        Some b \<Rightarrow> Some (b, pool)
      | None \<Rightarrow> (case pool of [] \<Rightarrow> None | b # pool' \<Rightarrow> Some (b, pool')))"

definition stage2_turn :: "acker \<Rightarrow> stage2 \<Rightarrow> batch list \<Rightarrow> request list \<Rightarrow> s2_turn outcome" where
  "stage2_turn ack s pool avail =
     (case obtain_batch s pool of
        None \<Rightarrow> Inr S2Blocked
      | Some (b, pool') \<Rightarrow>
          if take MAX_BATCH avail = [] then Inr S2Stopped
          else
            obind (apply_batch (s2_db s) (b\<lparr>items := items b @ take MAX_BATCH avail\<rparr>) (s2_lsn s))
              (\<lambda>(d, b, lsn).
            obind (advance ack b Applied) (\<lambda>(b, sent).
              if has_wal_work b
              then Inr (S2Next (s\<lparr>s2_db := d, s2_lsn := lsn, recycled_batch := None\<rparr>)
                          pool' (drop MAX_BATCH avail) sent [WalWrite b])
              else Inr (S2Next (s\<lparr>s2_db := d, s2_lsn := lsn, recycled_batch := Some (recycle b)\<rparr>)
                          pool' (drop MAX_BATCH avail) sent []))))"

text \<open>
  A run over the groups of requests received turn by turn, with a clean buffer at hand in
  every turn.
\<close>

fun stage2_run :: "acker \<Rightarrow> stage2 \<Rightarrow> request list list \<Rightarrow> (stage2 \<times> (nat \<times> resp) list \<times> wal_msg list) outcome" where
  "stage2_run ack s [] = Inr (s, [], [])"
| "stage2_run ack s (c # cs) =
     obind (stage2_turn ack s [batch_new] c) (\<lambda>turn.
       case turn of
         S2Next s' pool rest sent msgs \<Rightarrow>
           obind (stage2_run ack s' cs) (\<lambda>(s'', sent', msgs').
             Inr (s'', sent @ sent', msgs @ msgs'))
       | _ \<Rightarrow> Inr (s, [], []))"

section \<open>What serving a request means\<close>

text \<open>
  The reference: the effect of a request on the table, its answer, and a list of requests
  served one after the other.
\<close>

definition serve :: "db \<Rightarrow> request \<Rightarrow> db" where
  "serve d r = (if is_put r then db_put d (fst (kv_of (data r))) (snd (kv_of (data r))) else d)"

definition answer :: "db \<Rightarrow> request \<Rightarrow> resp" where
  "answer d r =
     (case kind r of
        Get \<Rightarrow> (case db_get d (fst (kv_of (data r))) of Some v \<Rightarrow> Value v | None \<Rightarrow> Miss)
      | Put \<Rightarrow> Ok
      | Unknown _ \<Rightarrow> UnknownOp)"

fun answer_all :: "db \<Rightarrow> request list \<Rightarrow> request list" where
  "answer_all d [] = []"
| "answer_all d (r # rs) = r\<lparr>resp := Some (answer d r)\<rparr> # answer_all (serve d r) rs"

definition puts :: "request list \<Rightarrow> nat" where
  "puts rs = length (filter is_put rs)"

lemma puts_simps [simp]:
  "puts [] = 0" "puts (r # rs) = (if is_put r then 1 else 0) + puts rs"
  "puts (xs @ ys) = puts xs + puts ys"
  by (simp_all add: puts_def)

lemma apply_items_step:
  assumes "wf_req r"
  shows "apply_items d lsn (r # rs) =
     obind (apply_items (serve d r) (lsn + (if is_put r then 1 else 0)) rs)
       (\<lambda>(d', lsn', rs'). Inr (d', lsn', r\<lparr>resp := Some (answer d r)\<rparr> # rs'))"
proof (cases "kind r")
  case Get
  then show ?thesis
    using assms wire_key_wf [OF wf_req_body [OF assms]]
    by (simp add: req_op_wf req_key_def serve_def is_put_def answer_def)
next
  case Put
  then show ?thesis
    using assms kv_of_wf [OF wf_req_body [OF assms]]
    by (simp add: req_op_wf req_split_kv_def serve_def is_put_def answer_def Let_def case_prod_beta)
next
  case (Unknown b)
  then show ?thesis
    using assms by (simp add: req_op_wf serve_def is_put_def answer_def)
qed

lemma apply_items_eq:
  "list_all wf_req rs \<Longrightarrow>
   apply_items d lsn rs = Inr (foldl serve d rs, lsn + of_nat (puts rs), answer_all d rs)"
  by (induction rs arbitrary: d lsn)
     (simp_all add: apply_items_step add.assoc del: apply_items.simps(2))

lemma apply_items_malformed:
  assumes "\<not> list_all wf_req rs"
  shows "\<exists>e. apply_items d lsn rs = Inl e"
  using assms
proof (induction rs arbitrary: d lsn)
  case Nil
  then show ?case by simp
next
  case (Cons r rs)
  show ?case
  proof (cases "wf_req r")
    case True
    then have "\<not> list_all wf_req rs" using Cons.prems by simp
    then obtain e where "apply_items (serve d r) (lsn + (if is_put r then 1 else 0)) rs = Inl e"
      using Cons.IH by blast
    then show ?thesis unfolding apply_items_step [OF True] by simp
  next
    case False
    show ?thesis
    proof (cases "data r = []")
      case True
      then show ?thesis by (simp add: req_op_def wire_op_def)
    next
      case ne: False
      then have "kind r = Get \<or> kind r = Put" "\<not> wf_body (data r)"
        using False by (auto simp: wf_req_def kind_def operation_from_def)
      then show ?thesis using ne
        by (auto simp: req_op_nonempty req_key_def req_split_kv_def wire_key_not_wf split_kv_not_wf Let_def)
    qed
  qed
qed

section \<open>Facts about answers\<close>

lemma length_answer_all [simp]: "length (answer_all d rs) = length rs"
  by (induction d rs rule: answer_all.induct) auto

lemma map_data_answer_all [simp]: "map data (answer_all d rs) = map data rs"
  by (induction d rs rule: answer_all.induct) auto

lemma answer_all_nth:
  "i < length rs \<Longrightarrow>
   answer_all d rs ! i = (rs ! i)\<lparr>resp := Some (answer (foldl serve d (take i rs)) (rs ! i))\<rparr>"
  by (induction d rs arbitrary: i rule: answer_all.induct) (auto simp: nth_Cons split: nat.splits)

lemma answer_all_append: "answer_all d (xs @ ys) = answer_all d xs @ answer_all (foldl serve d xs) ys"
  by (induction d xs rule: answer_all.induct) auto

lemma list_all_data: "list_all (\<lambda>r. P (data r)) rs = list_all P (map data rs)"
  by (simp add: list_all_iff)

lemma nonempty_answer_all: "list_all wf_req rs \<Longrightarrow> list_all (\<lambda>r. data r \<noteq> []) (answer_all d rs)"
  using wf_reqs_nonempty [of rs] by (simp only: list_all_data [of "\<lambda>b. b \<noteq> []"] map_data_answer_all)

text \<open>Counting PUTs depends on the bodies only.\<close>

lemma puts_map_data: "puts rs = length (filter (\<lambda>b. operation_from (hd b) = Put) (map data rs))"
  by (induction rs) (auto simp: is_put_def kind_def)

lemma puts_answer_all [simp]: "puts (answer_all d rs) = puts rs"
  by (simp add: puts_map_data)

lemma puts_settle [simp]: "puts (map (settle ack p) rs) = puts rs"
  by (simp add: puts_map_data o_def)

lemma puts_eq_0: "puts rs = 0 \<longleftrightarrow> list_all (\<lambda>r. \<not> is_put r) rs"
  by (auto simp: puts_def filter_empty_conv list_all_iff)

lemma lsn_less_add:
  assumes "unat (lsn :: u64) + n < 2 ^ 64"
  shows "lsn < lsn + of_nat n \<longleftrightarrow> 0 < n"
proof -
  have "unat (lsn + of_nat n) = unat lsn + n"
    using assms by (simp add: unat_word_ariths unat_of_nat)
  then show ?thesis by (simp add: word_less_nat_alt)
qed

section \<open>The main loop in closed form\<close>

definition group_ok :: "request list \<Rightarrow> bool" where
  "group_ok c \<longleftrightarrow> c \<noteq> [] \<and> length c \<le> MAX_BATCH \<and> list_all wf_req c"

text \<open>The batch a turn hands over, the responses it sends, and the same for a run.\<close>

definition s2_batch :: "acker \<Rightarrow> db \<Rightarrow> u64 \<Rightarrow> request list \<Rightarrow> batch" where
  "s2_batch ack d lsn c =
     \<lparr>items = map (settle ack Applied) (answer_all d c), out = [],
      lsn_low = lsn, lsn_hi = lsn + of_nat (puts c)\<rparr>"

definition s2_sent :: "acker \<Rightarrow> db \<Rightarrow> request list \<Rightarrow> (nat \<times> resp) list" where
  "s2_sent ack d c = concat (map response_of (filter (answered_at ack Applied) (answer_all d c)))"

fun s2_msgs :: "acker \<Rightarrow> db \<Rightarrow> u64 \<Rightarrow> request list list \<Rightarrow> batch list" where
  "s2_msgs ack d lsn [] = []"
| "s2_msgs ack d lsn (c # cs) =
     (if puts c = 0 then [] else [s2_batch ack d lsn c]) @
     s2_msgs ack (foldl serve d c) (lsn + of_nat (puts c)) cs"

fun s2_sents :: "acker \<Rightarrow> db \<Rightarrow> request list list \<Rightarrow> (nat \<times> resp) list" where
  "s2_sents ack d [] = []"
| "s2_sents ack d (c # cs) = s2_sent ack d c @ s2_sents ack (foldl serve d c) cs"

definition clean :: "stage2 \<Rightarrow> bool" where
  "clean s \<longleftrightarrow> recycled_batch s = None \<or> recycled_batch s = Some batch_new"

lemma stage2_turn_closed:
  assumes got: "obtain_batch s pool = Some (batch_new, pool')"
    and c: "c = take MAX_BATCH avail" "c \<noteq> []" "list_all wf_req c"
    and no_wrap: "unat (s2_lsn s) + puts c < 2 ^ 64"
  shows "stage2_turn ack s pool avail =
     Inr (S2Next (s\<lparr>s2_db := foldl serve (s2_db s) c, s2_lsn := s2_lsn s + of_nat (puts c),
                    recycled_batch := (if puts c = 0 then Some batch_new else None)\<rparr>)
            pool' (drop MAX_BATCH avail) (s2_sent ack (s2_db s) c)
            (if puts c = 0 then [] else [WalWrite (s2_batch ack (s2_db s) (s2_lsn s) c)]))"
proof -
  let ?d = "s2_db s" and ?l = "s2_lsn s"
  let ?b = "\<lparr>items = answer_all ?d c, out = [], lsn_low = ?l, lsn_hi = ?l + of_nat (puts c)\<rparr>"
  have ab: "apply_batch ?d (batch_new\<lparr>items := c\<rparr>) ?l = Inr (foldl serve ?d c, ?b, ?l + of_nat (puts c))"
    using c by (simp add: apply_batch_def batch_new_def apply_items_eq)
  have adv: "advance ack ?b Applied = Inr (s2_batch ack ?d ?l c, s2_sent ack ?d c)"
    using c by (simp add: advance_eq nonempty_answer_all s2_batch_def s2_sent_def)
  have "has_wal_work (s2_batch ack ?d ?l c) \<longleftrightarrow> puts c \<noteq> 0"
    using lsn_less_add [OF no_wrap] by (simp add: has_wal_work_def s2_batch_def)
  moreover have "items batch_new @ take MAX_BATCH avail = c" by (simp add: batch_new_def c(1))
  moreover have "take MAX_BATCH avail \<noteq> []" using c by simp
  ultimately show ?thesis
    using got ab adv by (auto simp: stage2_turn_def)
qed

lemma stage2_turn_eq:
  assumes c: "group_ok c" and clean: "clean s" and no_wrap: "unat (s2_lsn s) + puts c < 2 ^ 64"
  shows "\<exists>pool. stage2_turn ack s [batch_new] c =
     Inr (S2Next (s\<lparr>s2_db := foldl serve (s2_db s) c, s2_lsn := s2_lsn s + of_nat (puts c),
                    recycled_batch := (if puts c = 0 then Some batch_new else None)\<rparr>)
            pool [] (s2_sent ack (s2_db s) c)
            (if puts c = 0 then [] else [WalWrite (s2_batch ack (s2_db s) (s2_lsn s) c)]))"
proof -
  have all: "c = take MAX_BATCH c" "c \<noteq> []" "list_all wf_req c" "drop MAX_BATCH c = []"
    using c by (simp_all add: group_ok_def)
  obtain pool where pool: "obtain_batch s [batch_new] = Some (batch_new, pool)"
    using clean by (auto simp: obtain_batch_def clean_def)
  from stage2_turn_closed [OF pool all(1-3) no_wrap] show ?thesis unfolding all(4) by blast
qed

text \<open>A turn that returns has received well-formed requests.\<close>

lemma stage2_turn_wf:
  assumes "stage2_turn ack s pool avail = Inr (S2Next s' pool' rest sent msgs)" and "clean s"
    and "list_all (\<lambda>b. b = batch_new) pool"
  shows "obtain_batch s pool = Some (batch_new, pool') \<and> take MAX_BATCH avail \<noteq> [] \<and>
    list_all wf_req (take MAX_BATCH avail)"
proof -
  obtain b where b: "obtain_batch s pool = Some (b, pool')" "take MAX_BATCH avail \<noteq> []"
    using assms(1) by (auto simp: stage2_turn_def obind_eq_Inr split: option.splits if_splits)
  have new: "b = batch_new"
    using b(1) assms(2,3) by (auto simp: obtain_batch_def clean_def split: option.splits list.splits)
  have "list_all wf_req (take MAX_BATCH avail)"
  proof (rule ccontr)
    assume "\<not> list_all wf_req (take MAX_BATCH avail)"
    then obtain err where "apply_items (s2_db s) (s2_lsn s) (take MAX_BATCH avail) = Inl err"
      using apply_items_malformed by blast
    then show False using assms(1) b new by (simp add: stage2_turn_def apply_batch_def batch_new_def)
  qed
  then show ?thesis using b new by simp
qed

lemma stage2_run_eq:
  assumes "list_all group_ok cs" and "clean s" and "unat (s2_lsn s) + puts (concat cs) < 2 ^ 64"
  shows "\<exists>s'. stage2_run ack s cs =
           Inr (s', s2_sents ack (s2_db s) cs, map WalWrite (s2_msgs ack (s2_db s) (s2_lsn s) cs)) \<and>
         s2_db s' = foldl serve (s2_db s) (concat cs) \<and>
         s2_lsn s' = s2_lsn s + of_nat (puts (concat cs)) \<and> clean s'"
  using assms
proof (induction cs arbitrary: s)
  case Nil
  then show ?case by simp
next
  case (Cons c cs)
  let ?s = "s\<lparr>s2_db := foldl serve (s2_db s) c, s2_lsn := s2_lsn s + of_nat (puts c),
      recycled_batch := (if puts c = 0 then Some batch_new else None)\<rparr>"
  have c: "group_ok c" "list_all group_ok cs" "clean ?s" and nw: "unat (s2_lsn s) + puts c < 2 ^ 64"
    using Cons.prems by (simp_all add: clean_def)
  have "unat (s2_lsn s + of_nat (puts c)) = unat (s2_lsn s) + puts c"
    using nw by (simp add: unat_word_ariths unat_of_nat)
  then have "unat (s2_lsn ?s) + puts (concat cs) < 2 ^ 64" using Cons.prems(3) by simp
  from Cons.IH [OF c(2,3) this] obtain s' where
    "stage2_run ack ?s cs = Inr (s', s2_sents ack (s2_db ?s) cs, map WalWrite (s2_msgs ack (s2_db ?s) (s2_lsn ?s) cs))"
    "s2_db s' = foldl serve (s2_db ?s) (concat cs)"
    "s2_lsn s' = s2_lsn ?s + of_nat (puts (concat cs))" "clean s'" by blast
  moreover obtain pool where "stage2_turn ack s [batch_new] c =
     Inr (S2Next ?s pool [] (s2_sent ack (s2_db s) c)
            (if puts c = 0 then [] else [WalWrite (s2_batch ack (s2_db s) (s2_lsn s) c)]))"
    using stage2_turn_eq [OF c(1) Cons.prems(2) nw] by blast
  ultimately show ?case by (simp add: add.assoc)
qed

section \<open>Reads and writes\<close>

definition put_kvs :: "request list \<Rightarrow> (bytes \<times> bytes) list" where
  "put_kvs rs = map (\<lambda>r. kv_of (data r)) (filter is_put rs)"

lemma foldl_serve: "foldl serve d rs = foldl (\<lambda>d (k, v). db_put d k v) d (put_kvs rs)"
  by (induction rs arbitrary: d) (auto simp: put_kvs_def serve_def case_prod_beta)

lemma db_inv_serve: "db_inv d \<Longrightarrow> db_inv (foldl serve d rs)"
  unfolding foldl_serve by (rule dbv.invar_stores)

lemma get_foldl_serve:
  "db_inv d \<Longrightarrow> db_get (foldl serve d rs) k =
     (case map_of (rev (put_kvs rs)) k of Some v \<Rightarrow> Some v | None \<Rightarrow> db_get d k)"
  unfolding foldl_serve by (rule dbv.lookup_stores)

lemma response_of_answer_all:
  "concat (map response_of (answer_all d rs)) =
   map (\<lambda>i. (reply (rs ! i), answer (foldl serve d (take i rs)) (rs ! i))) [0..<length rs]"
proof (induction d rs rule: answer_all.induct)
  case (1 d)
  then show ?case by simp
next
  case (2 d r rs)
  have "[0..<length (r # rs)] = 0 # map Suc [0..<length rs]"
    by (simp add: map_Suc_upt upt_conv_Cons del: upt_Suc)
  then show ?case using 2 by (simp add: response_of_def o_def)
qed

lemma s2_sents_nofsync:
  "s2_sents (acker_new NoFsync) d cs = concat (map response_of (answer_all d (concat cs)))"
proof (induction cs arbitrary: d)
  case Nil
  then show ?case by simp
next
  case (Cons c cs)
  have "answered_at (acker_new NoFsync) Applied r" for r
    by (simp add: answered_at_def acker_new_def)
  then show ?case using Cons by (simp add: s2_sent_def answer_all_append)
qed

text \<open>The answer a request should get, from the history of PUTs before it.\<close>

definition history_answer :: "db \<Rightarrow> request list \<Rightarrow> nat \<Rightarrow> resp" where
  "history_answer d rs i =
     (case kind (rs ! i) of
        Get \<Rightarrow>
          (case map_of (rev (put_kvs (take i rs))) (fst (kv_of (data (rs ! i)))) of
             Some v \<Rightarrow> Value v
           | None \<Rightarrow> (case db_get d (fst (kv_of (data (rs ! i)))) of Some v \<Rightarrow> Value v | None \<Rightarrow> Miss))
      | Put \<Rightarrow> Ok
      | Unknown _ \<Rightarrow> UnknownOp)"

lemma answer_history:
  "db_inv d \<Longrightarrow> answer (foldl serve d (take i rs)) (rs ! i) = history_answer d rs i"
  by (simp add: answer_def history_answer_def get_foldl_serve split: operation.splits option.splits)

lemma s2_msgs_nofsync_settled: "list_all is_settled (s2_msgs (acker_new NoFsync) d l cs)"
proof (induction cs arbitrary: d l)
  case Nil
  then show ?case by simp
next
  case (Cons c cs)
  have "resp (settle (acker_new NoFsync) Applied r) = None" for r
    by (simp add: settle_def answered_at_def acker_new_def)
  then show ?case using Cons by (simp add: s2_batch_def is_settled_def list_all_iff)
qed

lemma nofsync_run:
  assumes "list_all group_ok cs" and "db_inv d" and "unat l + puts (concat cs) < 2 ^ 64"
  shows "\<exists>s. stage2_run (acker_new NoFsync) (stage2_new d l) cs =
    Inr (s, map (\<lambda>i. (reply (concat cs ! i), history_answer d (concat cs) i)) [0..<length (concat cs)],
         map WalWrite (s2_msgs (acker_new NoFsync) d l cs))"
proof -
  let ?s = "stage2_new d l" and ?ack = "acker_new NoFsync"
  have "clean ?s" "s2_db ?s = d" "s2_lsn ?s = l" by (simp_all add: stage2_new_def clean_def)
  with stage2_run_eq [of cs ?s ?ack] assms obtain s where
    "stage2_run ?ack ?s cs = Inr (s, s2_sents ?ack d cs, map WalWrite (s2_msgs ?ack d l cs))" by auto
  then show ?thesis using assms(2) by (simp add: s2_sents_nofsync response_of_answer_all answer_history)
qed

section \<open>Properties\<close>

text \<open>
  A batch is served in queue order. On well-formed requests \<open>apply_batch\<close> does not
  panic; the table becomes the one obtained by serving the requests one after the other; the
  i-th request gets the answer of the table as the first i requests left it; and the batch
  owns exactly as many sequence numbers as it has PUTs, counted from the watermark.
\<close>

lemma apply_batch_sequential:
  assumes "list_all wf_req (items b)"
  shows "\<exists>b'. apply_batch d b lsn = Inr (foldl serve d (items b), b', lsn + of_nat (puts (items b))) \<and>
              lsn_low b' = lsn \<and> lsn_hi b' = lsn + of_nat (puts (items b)) \<and> out b' = out b \<and>
              length (items b') = length (items b) \<and>
              (\<forall>i < length (items b). items b' ! i =
                 (items b ! i)\<lparr>resp := Some (answer (foldl serve d (take i (items b))) (items b ! i))\<rparr>)"
  using assms by (simp add: apply_batch_def apply_items_eq answer_all_nth)

lemma apply_batch_sequential_example:
  "\<exists>b'. apply_batch [] (batch_new\<lparr>items := [\<lparr>data = req_body Put [1] [7], reply = 0, resp = None\<rparr>]\<rparr>) 1 =
          Inr (foldl serve [] [\<lparr>data = req_body Put [1] [7], reply = 0, resp = None\<rparr>], b', 2) \<and>
        lsn_low b' = 1 \<and> lsn_hi b' = 2"
proof -
  let ?r = "\<lparr>data = req_body Put [1] [7], reply = 0, resp = None\<rparr>"
  have "wf_req ?r" by (simp add: wf_req_def) (simp add: req_body_def)
  moreover have "is_put ?r" by (simp add: is_put_def kind_def req_body_def)
  ultimately show ?thesis
    using apply_batch_sequential [of "batch_new\<lparr>items := [?r]\<rparr>" "[]" 1] by auto
qed

text \<open>
  C25. When stage 2 panics. \<open>apply_batch\<close> fails exactly when some request of the batch is
  malformed: its body is empty, or it is a GET or PUT whose body is too short for its header
  or its declared key. Nothing in the pipeline checks this before, so one such frame ends the
  process.
\<close>

theorem apply_batch_panics_iff:
  "(\<exists>e. apply_batch d b lsn = Inl e) \<longleftrightarrow> \<not> list_all wf_req (items b)"
proof
  assume "\<exists>e. apply_batch d b lsn = Inl e"
  then show "\<not> list_all wf_req (items b)" by (auto simp: apply_batch_def apply_items_eq)
next
  assume "\<not> list_all wf_req (items b)"
  then obtain e where "apply_items d lsn (items b) = Inl e" using apply_items_malformed by blast
  then show "\<exists>e. apply_batch d b lsn = Inl e" by (simp add: apply_batch_def)
qed

text \<open>
  In mode \<open>NoFsync\<close> every request is answered once, in request order, with the last write.
  A run of the main loop over any grouping of well-formed requests returns normally and has
  sent, in the order the requests were received, one response per request: a GET gets the value
  of the last PUT of its key received before it (or what the table held at the start), a PUT
  gets \<open>Ok\<close>, an unknown operation gets \<open>UnknownOp\<close>. No batch handed to stage 3 owes anything.
\<close>

lemma stage2_nofsync_replies:
  assumes "list_all group_ok cs" and "db_inv d" and "unat l + puts (concat cs) < 2 ^ 64"
  shows "\<exists>s bs. stage2_run (acker_new NoFsync) (stage2_new d l) cs =
           Inr (s, map (\<lambda>i. (reply (concat cs ! i), history_answer d (concat cs) i)) [0..<length (concat cs)],
                map WalWrite bs) \<and> list_all is_settled bs"
  using nofsync_run [OF assms] s2_msgs_nofsync_settled by blast

lemma stage2_nofsync_replies_example:
  "\<exists>s bs. stage2_run (acker_new NoFsync) (stage2_new [] 1)
       [[\<lparr>data = req_body Put [1] [7], reply = 0, resp = None\<rparr>],
        [\<lparr>data = req_body Get [1] [], reply = 0, resp = None\<rparr>]] =
     Inr (s, [(0, Ok), (0, Value [7])], map WalWrite bs) \<and> list_all is_settled bs"
proof -
  let ?p = "\<lparr>data = req_body Put [1] [7], reply = 0, resp = None\<rparr>"
  let ?g = "\<lparr>data = req_body Get [1] [], reply = 0, resp = None\<rparr>"
  have kinds: "kind ?p = Put" "kind ?g = Get" by (simp_all add: kind_def req_body_def)
  have "wf_req ?p" "wf_req ?g" by (simp_all add: wf_req_def) (simp_all add: req_body_def)
  then have "list_all group_ok [[?p], [?g]]" by (simp add: group_ok_def MAX_BATCH_def)
  moreover have "puts (concat [[?p], [?g]]) = 1" by (simp add: is_put_def kinds)
  ultimately show ?thesis
    using stage2_nofsync_replies [of "[[?p], [?g]]" "[]" 1]
    by (simp add: db_inv_def history_answer_def kinds put_kvs_def is_put_def)
qed

text \<open>
  In the other modes pipelined responses are reordered. When a PUT and then a GET of the
  same connection are received in one turn, the GET's response is sent at once and the PUT's
  response stays in the batch handed to stage 3, to be sent later: the connection, whose
  protocol carries no request identifiers, sees the two responses in the opposite order.
\<close>

lemma stage2_put_get_reordered:
  assumes "wf_req p" "kind p = Put" "wf_req g" "kind g = Get" "reply p = reply g"
    and "m \<noteq> NoFsync" and "unat l + 1 < 2 ^ 64"
  shows "\<exists>s pool b. stage2_turn (acker_new m) (stage2_new d l) [batch_new] [p, g] =
           Inr (S2Next s pool [] [(reply p, answer (serve d p) g)] [WalWrite b]) \<and>
         concat (map response_of (items b)) = [(reply p, Ok)]"
proof -
  let ?s = "stage2_new d l" and ?ack = "acker_new m"
  have g: "group_ok [p, g]" using assms by (simp add: group_ok_def MAX_BATCH_def)
  have ip: "is_put p" "\<not> is_put g" using assms by (simp_all add: is_put_def)
  then have n: "puts [p, g] = 1" by simp
  have lv: "level ?ack \<noteq> Applied" using assms(6) by (cases m) (simp_all add: acker_new_def)
  have clean: "clean ?s" by (simp add: stage2_new_def clean_def)
  have nw: "unat (s2_lsn ?s) + puts [p, g] < 2 ^ 64" using assms(7) n by (simp add: stage2_new_def)
  have "s2_sent ?ack d [p, g] = [(reply p, answer (serve d p) g)]"
    using assms lv by (simp add: s2_sent_def answered_at_def response_of_def kind_def)
  moreover have "concat (map response_of (items (s2_batch ?ack d l [p, g]))) = [(reply p, Ok)]"
    using assms lv
    by (simp add: s2_batch_def settle_def answered_at_def response_of_def kind_def answer_def)
  ultimately show ?thesis
    using stage2_turn_eq [OF g clean nw, of ?ack] ip by (auto simp: stage2_new_def)
qed

lemma stage2_put_get_reordered_example:
  "\<exists>s pool b. stage2_turn (acker_new Sync) (stage2_new [] 1) [batch_new]
       [\<lparr>data = req_body Put [1] [7], reply = 3, resp = None\<rparr>,
        \<lparr>data = req_body Get [1] [], reply = 3, resp = None\<rparr>] =
     Inr (S2Next s pool [] [(3, Value [7])] [WalWrite b]) \<and> concat (map response_of (items b)) = [(3, Ok)]"
proof -
  let ?p = "\<lparr>data = req_body Put [1] [7], reply = 3, resp = None\<rparr>"
  let ?g = "\<lparr>data = req_body Get [1] [], reply = 3, resp = None\<rparr>"
  have kinds: "kind ?p = Put" "kind ?g = Get" by (simp_all add: kind_def req_body_def)
  moreover have "wf_req ?p" "wf_req ?g" by (simp_all add: wf_req_def) (simp_all add: req_body_def)
  moreover have "answer (serve [] ?p) ?g = Value [7]"
    by (simp add: answer_def serve_def is_put_def kinds db_get_put)
  ultimately show ?thesis
    using stage2_put_get_reordered [of ?p ?g Sync 1 "[]"] by simp
qed

text \<open>
  C34. In the other modes the answer to an unknown operation can be lost. When a turn receives
  no PUT, its batch is cleared and reused without going to stage 3; an unknown operation in it
  waits for the mode's durability level, so its \<open>UnknownOp\<close> response is never sent: the turn
  sends the responses of the GETs only and keeps nothing.
\<close>

theorem stage2_unknown_dropped:
  assumes "group_ok c" and "puts c = 0" and "m \<noteq> NoFsync"
  shows "\<exists>s pool. stage2_turn (acker_new m) (stage2_new d l) [batch_new] c =
           Inr (S2Next s pool []
                  (concat (map response_of (filter (\<lambda>r. kind r = Get) (answer_all d c)))) []) \<and>
         recycled_batch s = Some batch_new"
proof -
  let ?s = "stage2_new d l" and ?ack = "acker_new m"
  have lv: "level ?ack \<noteq> Applied" using assms(3) by (cases m) (simp_all add: acker_new_def)
  have clean: "clean ?s" by (simp add: stage2_new_def clean_def)
  have nw: "unat (s2_lsn ?s) + puts c < 2 ^ 64"
    using assms(2) unat_u64_lt [of l] by (simp add: stage2_new_def)
  have "answered_at ?ack Applied = (\<lambda>r. kind r = Get)"
    using lv by (auto simp: answered_at_def fun_eq_iff)
  then show ?thesis
    using stage2_turn_eq [OF assms(1) clean nw, of ?ack] assms(2) by (auto simp: s2_sent_def stage2_new_def)
qed

theorem stage2_unknown_dropped_witness:
  "\<exists>s pool. stage2_turn (acker_new Sync) (stage2_new [] 1) [batch_new]
       [\<lparr>data = [9], reply = 3, resp = None\<rparr>] = Inr (S2Next s pool [] [] []) \<and>
     recycled_batch s = Some batch_new"
proof -
  let ?u = "\<lparr>data = [9], reply = 3, resp = None\<rparr>"
  have k: "kind ?u = Unknown 9" "kind (?u\<lparr>resp := Some x\<rparr>) = Unknown 9" for x
    by (simp_all add: kind_def operation_from_def OP_GET_def OP_PUT_def)
  have "group_ok [?u]" by (simp add: group_ok_def MAX_BATCH_def wf_req_def OP_GET_def OP_PUT_def)
  then show ?thesis
    using stage2_unknown_dropped [of "[?u]" Sync "[]" 1] k by (simp add: is_put_def)
qed

end
