(* ===== verification/Recover.thy ===== *)
theory Recover
  imports Snapshot
begin

text \<open>
  Recovery (\<open>crates/storage/src/lib.rs\<close>): load the snapshot, then replay every record of the
  log segments in order of their start number, skipping those the snapshot already holds, up
  to the first torn or corrupted record. The definitions keep the loop over positions of the
  source; the lemmas relate it to a fold over the decoded records.
\<close>

section \<open>The replay loop\<close>

record replay_state =
  replay_db :: db
  highest :: u64
  replayed :: u64

lemma decode_progress:
  "decode_record bs = Inr (Some r) \<Longrightarrow> 0 < consumed r \<and> consumed r \<le> length bs"
  using decode_record_Some_bounds [of bs r] by auto

text \<open>
  One segment, from position \<open>p\<close>: the flag says whether the loop left at a torn record.
\<close>

function replay_segment :: "u64 \<Rightarrow> bytes \<Rightarrow> nat \<Rightarrow> replay_state \<Rightarrow> (bool \<times> replay_state) outcome" where
  "replay_segment snap_lsn bs p st =
     (if p < length bs then
        obind (slice_from bs p) (\<lambda>rest.
        obind (decode_record rest) (\<lambda>decoded.
          case decoded of
            None \<Rightarrow> Inr (True, st)
          | Some r \<Rightarrow>
              if rec_lsn r \<le> snap_lsn then replay_segment snap_lsn bs (p + consumed r) st
              else
                obind (wire_op (wire_body r)) (\<lambda>oper.
                obind (if oper = OP_PUT
                       then obind (split_kv (wire_body r)) (\<lambda>(k, v). Inr (db_insert_raw (replay_db st) k v))
                       else Inr (replay_db st)) (\<lambda>d.
                  replay_segment snap_lsn bs (p + consumed r)
                    \<lparr>replay_db = d, highest = max (highest st) (rec_lsn r),
                     replayed = replayed st + 1\<rparr>))))
      else Inr (False, st))"
  by pat_completeness auto
termination
proof (relation "measure (\<lambda>(snap_lsn, bs, p, st). length bs - p)", goal_cases)
  case 1
  show ?case by simp
next
  case (2 snap_lsn bs p st rest decoded r)
  then have "0 < consumed r" using decode_progress [of rest r] by simp
  then show ?case using 2 by simp
next
  case (3 snap_lsn bs p st rest decoded r oper d)
  then have "0 < consumed r" using decode_progress [of rest r] by simp
  then show ?case using 3 by simp
qed

declare replay_segment.simps [simp del]

text \<open>All segments; a torn record ends the whole replay (\<open>break 'main\<close>).\<close>

fun replay_segments :: "dir_state \<Rightarrow> u64 \<Rightarrow> (u64 \<times> string) list \<Rightarrow> replay_state \<Rightarrow> (bool \<times> replay_state) outcome" where
  "replay_segments dir snap_lsn [] st = Inr (False, st)"
| "replay_segments dir snap_lsn ((start, path) # segs) st =
     (case dir_file path dir of
        None \<Rightarrow> Inl IoError
      | Some bs \<Rightarrow>
          if \<not> readable dir path then Inl IoError
          else
            obind (replay_segment snap_lsn bs 0 st) (\<lambda>(torn, st').
              if torn then Inr (True, st') else replay_segments dir snap_lsn segs st'))"

text \<open>
  Loading the snapshot if there is one: the table, and the sequence number the snapshot
  covers (zero when there is none or it is invalid).
\<close>

definition load_snapshot :: "dir_state \<Rightarrow> (db \<times> u64) outcome" where
  "load_snapshot dir =
     (case dir_file ''snapshot'' dir of
        None \<Rightarrow> Inr (db_new, 0)
      | Some bs \<Rightarrow>
          if \<not> readable dir ''snapshot'' then Inl IoError
          else
            obind (load bs db_new) (\<lambda>(found, d).
              case found of
                Some l \<Rightarrow> Inr (d, l)
              | None \<Rightarrow> Inr (d, 0)))"

definition recover :: "dir_state \<Rightarrow> (db \<times> u64) outcome" where
  "recover dir0 =
     obind (ensure IoError (mkdir_ok dir0)) (\<lambda>_.
     let dir = dir0\<lparr>dir_exists := True\<rparr> in
     obind (load_snapshot dir) (\<lambda>(d, snap_lsn).
     obind (list_segments dir) (\<lambda>segs.
     obind (replay_segments dir snap_lsn segs
              \<lparr>replay_db = d, highest = snap_lsn, replayed = 0\<rparr>) (\<lambda>(torn, st).
       Inr (replay_db st, highest st + 1)))))"

section \<open>Replay as a fold over records\<close>

text \<open>
  The records replay can handle: they fit, and a PUT has a well-formed body. The effect of
  one record, and of a list of records.
\<close>

definition entry_ok :: "u64 \<times> bytes \<Rightarrow> bool" where
  "entry_ok e \<longleftrightarrow> record_fits e \<and> snd e \<noteq> [] \<and> (hd (snd e) = OP_PUT \<longrightarrow> wf_body (snd e))"

definition apply_body :: "db \<Rightarrow> bytes \<Rightarrow> db" where
  "apply_body d body =
     (if hd body = OP_PUT then db_insert_raw d (fst (kv_of body)) (snd (kv_of body)) else d)"

definition replay_entry :: "u64 \<Rightarrow> replay_state \<Rightarrow> u64 \<times> bytes \<Rightarrow> replay_state" where
  "replay_entry snap_lsn st e =
     (if fst e \<le> snap_lsn then st
      else \<lparr>replay_db = apply_body (replay_db st) (snd e),
            highest = max (highest st) (fst e), replayed = replayed st + 1\<rparr>)"

text \<open>The end of a segment as replay sees it: nothing left, or something it rejects.\<close>

definition torn_tail :: "bytes \<Rightarrow> bool" where
  "torn_tail t \<longleftrightarrow> t \<noteq> [] \<and> decode_record t = Inr None"

lemma replay_segment_end: "replay_segment snap bs (length bs) st = Inr (False, st)"
  by (simp add: replay_segment.simps)

lemma replay_segment_torn: "torn_tail t \<Longrightarrow> replay_segment snap (pre @ t) (length pre) st = Inr (True, st)"
  by (simp add: replay_segment.simps [of snap "pre @ t"] slice_from_def torn_tail_def)

lemma replay_segment_step:
  assumes "entry_ok (lsn, body)"
  shows "replay_segment snap (pre @ record_bytes (lsn, body) @ rest) (length pre) st =
         replay_segment snap ((pre @ record_bytes (lsn, body)) @ rest)
           (length (pre @ record_bytes (lsn, body))) (replay_entry snap st (lsn, body))"
proof -
  let ?bs = "pre @ record_bytes (lsn, body) @ rest"
  have dec: "decode_record (record_bytes (lsn, body) @ rest) =
      Inr (Some \<lparr>rec_lsn = lsn, wire_body = body, consumed = 20 + length body\<rparr>)"
    using assms by (intro decode_record_extend decode_record_bytes) (simp add: entry_ok_def)
  have from_pre: "slice_from ?bs (length pre) = Inr (record_bytes (lsn, body) @ rest)"
    by (simp add: slice_from_def)
  have lt: "length pre < length ?bs" by simp
  have op: "wire_op body = Inr (hd body)"
    using assms by (simp add: entry_ok_def wire_op_nonempty)
  have kv: "hd body = OP_PUT \<Longrightarrow> split_kv body = Inr (kv_of body)"
    using assms by (simp add: entry_ok_def kv_of_wf)
  show ?thesis
    using lt from_pre dec op kv
    by (auto simp: replay_segment.simps [of snap ?bs "length pre"] replay_entry_def apply_body_def
        case_prod_beta max_def)
qed

lemma replay_segment_entries:
  assumes "list_all entry_ok es" and "t = [] \<or> torn_tail t"
  shows "replay_segment snap (pre @ concat (map record_bytes es) @ t) (length pre) st =
         Inr (t \<noteq> [], foldl (replay_entry snap) st es)"
  using assms(1)
proof (induction es arbitrary: pre st)
  case Nil
  then show ?case
    using assms(2) replay_segment_torn [of t snap pre st] replay_segment_end [of snap pre st]
    by (auto simp: torn_tail_def)
next
  case (Cons e es)
  obtain lsn body where e: "e = (lsn, body)" by (cases e)
  have "replay_segment snap (pre @ record_bytes e @ concat (map record_bytes es) @ t) (length pre) st =
      replay_segment snap ((pre @ record_bytes e) @ concat (map record_bytes es) @ t)
        (length (pre @ record_bytes e)) (replay_entry snap st e)"
    using Cons.prems replay_segment_step [of lsn body snap pre] by (simp add: e)
  also have "\<dots> = Inr (t \<noteq> [], foldl (replay_entry snap) (replay_entry snap st e) es)"
    using Cons.prems by (intro Cons.IH) simp
  finally show ?case by simp
qed

section \<open>Replay of a directory\<close>

text \<open>
  What the files of the segments hold: records, then nothing or a torn tail. Of a list of such
  segments the records that survive recovery are those up to the first torn tail, and of
  these the live ones are those after the snapshot.
\<close>

definition seg_holds :: "dir_state \<Rightarrow> u64 \<times> string \<Rightarrow> (u64 \<times> bytes) list \<times> bytes \<Rightarrow> bool" where
  "seg_holds dir seg c \<longleftrightarrow>
     dir_file (snd seg) dir = Some (concat (map record_bytes (fst c)) @ snd c) \<and>
     readable dir (snd seg) \<and> list_all entry_ok (fst c) \<and> (snd c = [] \<or> torn_tail (snd c))"

fun surviving :: "((u64 \<times> bytes) list \<times> bytes) list \<Rightarrow> (u64 \<times> bytes) list" where
  "surviving [] = []"
| "surviving ((es, t) # cs) = es @ (if t = [] then surviving cs else [])"

definition live :: "u64 \<Rightarrow> (u64 \<times> bytes) list \<Rightarrow> (u64 \<times> bytes) list" where
  "live snap es = filter (\<lambda>e. snap < fst e) es"

lemma replay_segments_surviving:
  assumes "list_all2 (seg_holds dir) segs cs"
  shows "\<exists>torn. replay_segments dir snap segs st = Inr (torn, foldl (replay_entry snap) st (surviving cs))"
  using assms
proof (induction segs cs arbitrary: st rule: list_all2_induct)
  case Nil
  then show ?case by auto
next
  case (Cons seg segs c cs)
  obtain start path where seg: "seg = (start, path)" by (cases seg)
  obtain es t where c: "c = (es, t)" by (cases c)
  have "replay_segment snap (concat (map record_bytes es) @ t) 0 st =
      Inr (t \<noteq> [], foldl (replay_entry snap) st es)"
    using replay_segment_entries [of es t snap "[]" st] Cons.hyps(1) by (simp add: seg_holds_def c)
  then show ?case
    using Cons.hyps(1) Cons.IH [of "foldl (replay_entry snap) st es"] by (auto simp: seg_holds_def seg c)
qed

lemma replay_segments_torn:
  assumes "list_all2 (seg_holds dir) segs cs" and "\<exists>c \<in> set cs. snd c \<noteq> []"
  shows "replay_segments dir snap (segs @ later) st =
         Inr (True, foldl (replay_entry snap) st (surviving cs))"
  using assms
proof (induction segs cs arbitrary: st rule: list_all2_induct)
  case Nil
  then show ?case by simp
next
  case (Cons seg segs c cs)
  obtain start path where seg: "seg = (start, path)" by (cases seg)
  obtain es t where c: "c = (es, t)" by (cases c)
  have "replay_segment snap (concat (map record_bytes es) @ t) 0 st =
      Inr (t \<noteq> [], foldl (replay_entry snap) st es)"
    using replay_segment_entries [of es t snap "[]" st] Cons.hyps(1) by (simp add: seg_holds_def c)
  then show ?case
    using Cons.hyps(1) Cons.IH [of "foldl (replay_entry snap) st es"] Cons.prems
    by (auto simp: seg_holds_def seg c)
qed

lemma foldl_replay_entry:
  "replay_db (foldl (replay_entry snap) st es) = foldl apply_body (replay_db st) (map snd (live snap es))"
  "highest (foldl (replay_entry snap) st es) = foldl max (highest st) (map fst (live snap es))"
  by (induction es arbitrary: st) (auto simp: replay_entry_def live_def not_le)

lemma recover_eq:
  assumes "mkdir_ok dir" and "load_snapshot dir = Inr (d0, snap)"
    and "list_segments (dir\<lparr>dir_exists := True\<rparr>) = Inr segs"
    and "list_all2 (seg_holds dir) segs cs"
  shows "recover dir = Inr (foldl apply_body d0 (map snd (live snap (surviving cs))),
                            foldl max snap (map fst (live snap (surviving cs))) + 1)"
proof -
  have "seg_holds (dir\<lparr>dir_exists := True\<rparr>) = seg_holds dir"
    by (simp add: fun_eq_iff seg_holds_def dir_file_def)
  then obtain torn where "replay_segments (dir\<lparr>dir_exists := True\<rparr>) snap segs
      \<lparr>replay_db = d0, highest = snap, replayed = 0\<rparr> =
      Inr (torn, foldl (replay_entry snap) \<lparr>replay_db = d0, highest = snap, replayed = 0\<rparr> (surviving cs))"
    using replay_segments_surviving [of "dir\<lparr>dir_exists := True\<rparr>" segs cs] assms(4) by metis
  moreover have "load_snapshot (dir\<lparr>dir_exists := True\<rparr>) = load_snapshot dir"
    by (simp add: load_snapshot_def dir_file_def cong: option.case_cong)
  ultimately show ?thesis
    using assms(1,2,3) by (simp add: recover_def foldl_replay_entry)
qed

text \<open>Bodies applied to tables with the same contents keep them the same.\<close>

lemma apply_body_get:
  "db_inv d \<Longrightarrow> db_get (apply_body d b) =
     (if hd b = OP_PUT then (db_get d)(fst (kv_of b) \<mapsto> snd (kv_of b)) else db_get d)"
  by (auto simp: apply_body_def db_get_insert_raw)

lemma apply_body_inv: "db_inv d \<Longrightarrow> db_inv (apply_body d b)"
  by (simp add: apply_body_def db_inv_insert_raw)

lemma apply_bodies_inv: "db_inv d \<Longrightarrow> db_inv (foldl apply_body d bs)"
  by (induction bs arbitrary: d) (auto simp: apply_body_inv)

lemma apply_bodies_cong:
  "db_inv d \<Longrightarrow> db_inv d' \<Longrightarrow> db_get d = db_get d' \<Longrightarrow>
   db_get (foldl apply_body d bs) = db_get (foldl apply_body d' bs)"
  by (induction bs arbitrary: d d') (auto simp: apply_body_get apply_body_inv)

section \<open>Adding a segment\<close>

lemma insort_key_snoc: "f x \<le> f y \<Longrightarrow> insort_key f x (ys @ [y]) = insort_key f x ys @ [y]"
  by (induction ys) auto

lemma sort_key_snoc:
  "\<forall>x \<in> set xs. f x \<le> f y \<Longrightarrow> sort_key f (xs @ [y]) = sort_key f xs @ [y]"
  by (induction xs) (auto simp: insort_key_snoc)

lemma dir_write_new:
  "dir_file name dir = None \<Longrightarrow> dir_write name b dir = dir\<lparr>entries := entries dir @ [(name, b)]\<rparr>"
  by (simp add: dir_write_def dir_file_def update_new)

lemma list_segments_dir_write:
  assumes "list_segments dir = Inr segs" and "dir_exists dir"
    and "\<forall>seg \<in> set segs. fst seg \<le> start" and "dir_file (segment_path start) dir = None"
  shows "list_segments (dir_write (segment_path start) b dir) = Inr (segs @ [(start, segment_path start)])"
proof -
  let ?f = "\<lambda>(name, b :: bytes). case seg_start name of None \<Rightarrow> [] | Some start \<Rightarrow> [(start, name)]"
  have segs: "segs = sort_key fst (concat (map ?f (entries dir)))" and rd: "readdir_ok dir"
    using assms(1,2) by (auto simp: list_segments_def Let_def split: if_splits)
  have "sort_key fst (concat (map ?f (entries dir)) @ [(start, segment_path start)]) =
      sort_key fst (concat (map ?f (entries dir))) @ [(start, segment_path start)]"
    using assms(3) by (intro sort_key_snoc) (simp add: segs)
  then show ?thesis
    using assms(2,4) rd segs by (simp add: dir_write_new list_segments_def Let_def)
qed

lemma segment_path_not_snapshot: "segment_path l \<noteq> ''snapshot'' \<and> segment_path l \<noteq> ''snapshot.tmp''"
proof -
  have "seg_start ''snapshot'' = None" "seg_start ''snapshot.tmp'' = None"
    by (simp_all add: seg_start_def strip_prefix_def SEG_PREFIX_def)
  then show ?thesis using seg_start_segment_path by (metis option.distinct(1))
qed

lemma dir_write_segment:
  assumes segs: "list_segments (dir\<lparr>dir_exists := True\<rparr>) = Inr segs"
    and holds: "list_all2 (seg_holds dir) segs cs"
    and fresh: "\<forall>seg \<in> set segs. fst seg < l" "dir_file (segment_path l) dir = None"
  shows "list_segments ((dir_write (segment_path l) log dir)\<lparr>dir_exists := True\<rparr>) = Inr (segs @ [(l, segment_path l)]) \<and>
    list_all2 (seg_holds (dir_write (segment_path l) log dir)) segs cs \<and>
    load_snapshot (dir_write (segment_path l) log dir) = load_snapshot dir \<and>
    dir_file (segment_path l) (dir_write (segment_path l) log dir) = Some log"
proof -
  let ?dir = "dir_write (segment_path l) log dir"
  let ?e = "\<lambda>dir. dir\<lparr>dir_exists := True\<rparr>"
  have files: "f \<noteq> segment_path l \<Longrightarrow> dir_file f ?dir = dir_file f dir" for f
    by (simp add: dir_write_def dir_file_def update_conv')
  have rd: "readable ?dir = readable dir" by (simp add: dir_write_def)
  have comm: "?e ?dir = dir_write (segment_path l) log (?e dir)"
    by (simp add: dir_write_def)
  have "list_segments (?e ?dir) = Inr (segs @ [(l, segment_path l)])"
    unfolding comm using segs fresh by (intro list_segments_dir_write) (auto simp: dir_file_def less_imp_le)
  moreover have "snd seg \<noteq> segment_path l" if "seg \<in> set segs" for seg
    using that fresh(2) holds by (auto simp: list_all2_conv_all_nth seg_holds_def in_set_conv_nth)
  then have "list_all2 (seg_holds ?dir) segs cs"
    using holds by (elim list.rel_mono_strong) (simp add: seg_holds_def files rd)
  moreover have "dir_file ''snapshot'' ?dir = dir_file ''snapshot'' dir"
    using segment_path_not_snapshot [of l] by (intro files) metis
  then have "load_snapshot ?dir = load_snapshot dir" unfolding load_snapshot_def rd by simp
  moreover have "dir_file (segment_path l) ?dir = Some log" by (simp add: dir_write_def dir_file_def update_conv')
  ultimately show ?thesis by blast
qed

section \<open>The recovered table\<close>

lemma load_entries_inv: "load_entries n bs p d = Inr d' \<Longrightarrow> db_inv d \<Longrightarrow> db_inv d'"
  by (induction n bs p d arbitrary: d' rule: load_entries.induct)
     (fastforce simp: obind_eq_Inr Let_def db_inv_insert_raw split: if_splits)+

lemma load_inv: "load bs d = Inr (l, d') \<Longrightarrow> db_inv d \<Longrightarrow> db_inv d'"
  using load_entries_inv by (auto simp: load_def obind_eq_Inr split: if_splits)

lemma replay_segment_inv:
  "replay_segment l bs p st = Inr (torn, st') \<Longrightarrow> db_inv (replay_db st) \<Longrightarrow> db_inv (replay_db st')"
proof (induction l bs p st arbitrary: torn st' rule: replay_segment.induct)
  case (1 l bs p st)
  show ?case
  proof (cases "p < length bs")
    case False
    then show ?thesis using "1.prems" by (simp add: replay_segment.simps [of l bs p])
  next
    case True
    obtain rest dec where r: "slice_from bs p = Inr rest" "decode_record rest = Inr dec"
      using "1.prems"(1) True by (auto simp: replay_segment.simps [of l bs p] obind_eq_Inr)
    show ?thesis
    proof (cases dec)
      case None
      then show ?thesis using "1.prems" True r by (simp add: replay_segment.simps [of l bs p])
    next
      case (Some x)
      show ?thesis
      proof (cases "rec_lsn x \<le> l")
        case le: True
        then have "replay_segment l bs (p + consumed x) st = Inr (torn, st')"
          using "1.prems"(1) True r Some by (simp add: replay_segment.simps [of l bs p])
        then show ?thesis using "1.IH"(1) [OF True r Some le] "1.prems"(2) by blast
      next
        case gt: False
        then obtain oper d where o: "wire_op (wire_body x) = Inr oper"
          and d: "(if oper = OP_PUT
                   then obind (split_kv (wire_body x)) (\<lambda>(k, v). Inr (db_insert_raw (replay_db st) k v))
                   else Inr (replay_db st)) = Inr d"
          and rec: "replay_segment l bs (p + consumed x)
            \<lparr>replay_db = d, highest = max (highest st) (rec_lsn x), replayed = replayed st + 1\<rparr> = Inr (torn, st')"
          using "1.prems"(1) True r Some by (auto simp: replay_segment.simps [of l bs p] obind_eq_Inr simp del: replay_segment.simps)
        have "db_inv d" using d "1.prems"(2) db_inv_insert_raw by (auto simp: obind_eq_Inr split: if_splits)
        then show ?thesis using "1.IH"(2) [OF True r Some gt o d rec] by simp
      qed
    qed
  qed
qed

lemma replay_segments_inv:
  "replay_segments dir l segs st = Inr (torn, st') \<Longrightarrow> db_inv (replay_db st) \<Longrightarrow> db_inv (replay_db st')"
proof (induction segs arbitrary: st)
  case Nil
  then show ?case by simp
next
  case (Cons seg segs)
  obtain start path where seg: "seg = (start, path)" by (cases seg)
  obtain bs torn1 st1 where st1: "replay_segment l bs 0 st = Inr (torn1, st1)"
    and rest: "(if torn1 then Inr (True, st1) else replay_segments dir l segs st1) = Inr (torn, st')"
    using Cons.prems(1) by (auto simp: seg obind_eq_Inr split: option.splits if_split_asm)
  have "db_inv (replay_db st1)" using replay_segment_inv [OF st1 Cons.prems(2)] .
  then show ?case using rest Cons.IH by (cases torn1) auto
qed

text \<open>Whatever the directory holds, recovery returns a table with one entry per key.\<close>

lemma recover_inv:
  assumes "recover dir = Inr (d, l)"
  shows "db_inv d"
proof -
  let ?dir = "dir\<lparr>dir_exists := True\<rparr>"
  obtain d0 l0 segs torn st where d0: "load_snapshot ?dir = Inr (d0, l0)"
    and st: "replay_segments ?dir l0 segs \<lparr>replay_db = d0, highest = l0, replayed = 0\<rparr> = Inr (torn, st)"
    and d: "d = replay_db st"
    using assms by (auto simp: recover_def obind_eq_Inr Let_def)
  have "db_inv d0"
    using d0 load_inv [of _ db_new] by (auto simp: load_snapshot_def obind_eq_Inr split: option.splits if_split_asm)
  then show ?thesis using replay_segments_inv [OF st] by (simp add: d)
qed

section \<open>Properties\<close>

text \<open>
  C8. Recovery replays the log. When the segment files hold well-formed records followed by
  nothing or by a torn tail, recovery returns normally: the table is the one obtained by
  applying to the snapshot, in order, the PUTs of every record after the snapshot's sequence
  number up to the first torn tail, and the next sequence number is one more than the highest
  number seen.
\<close>

theorem recover_replays:
  assumes "mkdir_ok dir" and snap: "dir_file ''snapshot'' dir = Some (snapshot_bytes l d0)"
      "readable dir ''snapshot''" "db_inv d0" "list_all entry_fits d0" "length d0 < 2 ^ 64"
    and "list_segments (dir\<lparr>dir_exists := True\<rparr>) = Inr segs"
    and "list_all2 (seg_holds dir) segs cs"
  shows "\<exists>d. recover dir = Inr (d, foldl max l (map fst (live l (surviving cs))) + 1) \<and>
             db_get d = db_get (foldl apply_body d0 (map snd (live l (surviving cs))))"
proof -
  obtain d' where d': "load (snapshot_bytes l d0) db_new = Inr (Some l, d')" "db_inv d'" "db_get d' = db_get d0"
    using snapshot_load_ok [OF snap(3-5)] by blast
  have ls: "load_snapshot dir = Inr (d', l)" using snap(1,2) d'(1) by (simp add: load_snapshot_def)
  have "db_get (foldl apply_body d' bs) = db_get (foldl apply_body d0 bs)" for bs
    using d' snap(3) by (intro apply_bodies_cong)
  then show ?thesis using recover_eq [OF assms(1) ls assms(7,8)] by auto
qed

text \<open>A directory with an empty snapshot and one segment that holds one PUT.\<close>

definition one_put_dir :: dir_state where
  "one_put_dir =
     \<lparr>dir_exists = True, mkdir_ok = True, readdir_ok = True, readable = (\<lambda>_. True),
      entries = [(''snapshot'', snapshot_bytes 0 []),
                 (segment_path 1, record_bytes (2, req_body Put [1] [7]))]\<rparr>"

lemma one_put_dir_facts:
  "dir_file ''snapshot'' one_put_dir = Some (snapshot_bytes 0 [])"
  "list_segments (one_put_dir\<lparr>dir_exists := True\<rparr>) = Inr [(1, segment_path 1)]"
  "list_all2 (seg_holds one_put_dir) [(1, segment_path 1)] [([(2, req_body Put [1] [7])], [])]"
proof -
  have no: "seg_start ''snapshot'' = None"
    by (simp add: seg_start_def strip_prefix_def SEG_PREFIX_def)
  have "hd (req_body Put [1] [7]) = OP_PUT" "req_body Put [1] [7] \<noteq> []"
    by (simp_all add: req_body_def)
  then have "entry_ok (2, req_body Put [1] [7])"
    by (simp add: entry_ok_def record_fits_def)
  then show "dir_file ''snapshot'' one_put_dir = Some (snapshot_bytes 0 [])"
    "list_segments (one_put_dir\<lparr>dir_exists := True\<rparr>) = Inr [(1, segment_path 1)]"
    "list_all2 (seg_holds one_put_dir) [(1, segment_path 1)] [([(2, req_body Put [1] [7])], [])]"
    using segment_path_not_snapshot [of 1]
    by (auto simp: one_put_dir_def dir_file_def list_segments_def no seg_holds_def)
qed

theorem recover_replays_witness:
  "\<exists>d. recover one_put_dir = Inr (d, 3) \<and> db_get d = db_get (foldl apply_body [] [req_body Put [1] [7]])"
proof -
  have "mkdir_ok one_put_dir" "readable one_put_dir ''snapshot''" by (simp_all add: one_put_dir_def)
  then show ?thesis
    using recover_replays [OF _ one_put_dir_facts(1) _ _ _ _ one_put_dir_facts(2,3)]
    by (simp add: db_inv_def live_def)
qed

text \<open>
  C32. A torn tail hides everything written after it. Once some segment ends in a torn tail
  (the trace of an unclean shutdown), the next run opens a new segment at the recovered
  sequence number and appends to it; the recovery after that run returns exactly what the
  previous recovery returned, whatever the new segment holds. Writes acknowledged and synced
  in that run are lost.
\<close>

theorem recover_ignores_after_torn:
  assumes mk: "mkdir_ok dir" and snap: "load_snapshot dir = Inr (d0, l)"
    and segs: "list_segments (dir\<lparr>dir_exists := True\<rparr>) = Inr segs"
    and holds: "list_all2 (seg_holds dir) segs cs"
    and torn: "\<exists>c \<in> set cs. snd c \<noteq> []"
    and rec: "recover dir = Inr (d, next_lsn)"
    and fresh: "\<forall>seg \<in> set segs. fst seg < next_lsn" "dir_file (segment_path next_lsn) dir = None"
  shows "recover (dir_write (segment_path next_lsn) new_log dir) = Inr (d, next_lsn)"
proof -
  let ?dir = "dir_write (segment_path next_lsn) new_log dir"
  let ?e = "\<lambda>dir. dir\<lparr>dir_exists := True\<rparr>"
  note dw = dir_write_segment [OF segs holds fresh, of new_log]
  have "list_segments (?e ?dir) = Inr (segs @ [(next_lsn, segment_path next_lsn)])" using dw by blast
  moreover have old: "list_all2 (seg_holds ?dir) segs cs" using dw by blast
  moreover have ls: "load_snapshot ?dir = Inr (d0, l)" using dw snap by simp
  moreover have same: "seg_holds (?e ?dir) = seg_holds ?dir" "seg_holds (?e dir) = seg_holds dir"
    "load_snapshot (?e ?dir) = load_snapshot ?dir" "load_snapshot (?e dir) = load_snapshot dir"
    by (simp_all add: fun_eq_iff seg_holds_def load_snapshot_def dir_file_def cong: option.case_cong)
  moreover have "replay_segments (?e dir) l (segs @ []) st =
      replay_segments (?e ?dir) l (segs @ [(next_lsn, segment_path next_lsn)]) st" for st
    using holds old torn by (simp only: same replay_segments_torn)
  ultimately show ?thesis
    using rec mk snap segs by (simp add: recover_def dir_write_def)
qed

text \<open>A directory whose only segment holds one record and half of the next.\<close>

definition torn_dir :: dir_state where
  "torn_dir =
     \<lparr>dir_exists = True, mkdir_ok = True, readdir_ok = True, readable = (\<lambda>_. True),
      entries = [(segment_path 1, record_bytes (2, req_body Put [1] [7]) @ [15, 0])]\<rparr>"

lemma torn_dir_facts:
  "load_snapshot torn_dir = Inr (db_new, 0)"
  "list_segments (torn_dir\<lparr>dir_exists := True\<rparr>) = Inr [(1, segment_path 1)]"
  "list_all2 (seg_holds torn_dir) [(1, segment_path 1)] [([(2, req_body Put [1] [7])], [15, 0])]"
proof -
  have "hd (req_body Put [1] [7]) = OP_PUT" "req_body Put [1] [7] \<noteq> []"
    by (simp_all add: req_body_def)
  then have "entry_ok (2, req_body Put [1] [7])"
    by (simp add: entry_ok_def record_fits_def)
  moreover have "torn_tail [15, 0]" by (simp add: torn_tail_def decode_record_eq)
  ultimately show "load_snapshot torn_dir = Inr (db_new, 0)"
    "list_segments (torn_dir\<lparr>dir_exists := True\<rparr>) = Inr [(1, segment_path 1)]"
    "list_all2 (seg_holds torn_dir) [(1, segment_path 1)] [([(2, req_body Put [1] [7])], [15, 0])]"
    using segment_path_not_snapshot [of 1]
    by (auto simp: torn_dir_def load_snapshot_def dir_file_def list_segments_def seg_holds_def)
qed

theorem recover_ignores_after_torn_witness:
  "\<exists>d. recover torn_dir = Inr (d, 3) \<and>
       recover (dir_write (segment_path 3) (record_bytes (4, req_body Put [2] [9])) torn_dir) = Inr (d, 3)"
proof -
  have mk: "mkdir_ok torn_dir" by (simp add: torn_dir_def)
  obtain d where r: "recover torn_dir = Inr (d, 3)"
    using recover_eq [OF mk torn_dir_facts] by (simp add: live_def)
  have "dir_file (segment_path 3) torn_dir = None"
    by (simp add: torn_dir_def dir_file_def segment_path_inject)
  then show ?thesis
    using recover_ignores_after_torn [OF mk torn_dir_facts _ r] r by simp
qed

end
