(* ===== verification/Fsync_Planner.thy ===== *)
theory Fsync_Planner
  imports Batches
begin

text \<open>
  When stage 3 asks for an fsync (\<open>crates/server/src/stage3/fsync_planner.rs\<close>). The byte counter
  is a \<open>u64\<close> and wraps.
\<close>

section \<open>Cadence and planner\<close>

datatype fsync_cadence = Never | Consistently | EveryBytes u64

fun cadence_of_mode :: "mode \<Rightarrow> fsync_cadence" where
  "cadence_of_mode NoFsync = Never"
| "cadence_of_mode Sync = Consistently"
| "cadence_of_mode Async = EveryBytes (push_bit 20 1)"

record fsync_planner =
  cadence :: fsync_cadence
  dirty_bytes :: u64
  flush_running :: bool

definition planner_new :: "fsync_cadence \<Rightarrow> fsync_planner" where
  "planner_new c = \<lparr>cadence = c, dirty_bytes = 0, flush_running = False\<rparr>"

definition should_fsync :: "fsync_planner \<Rightarrow> bool \<times> fsync_planner" where
  "should_fsync p =
     (if dirty_bytes p = 0 then (False, p)
      else
        let due = (case cadence p of
                     Never \<Rightarrow> False
                   | Consistently \<Rightarrow> \<not> flush_running p
                   | EveryBytes limit \<Rightarrow> limit \<le> dirty_bytes p)
        in if due then (True, p\<lparr>dirty_bytes := 0, flush_running := True\<rparr>) else (False, p))"

definition on_fsync_completed :: "fsync_planner \<Rightarrow> fsync_planner" where
  "on_fsync_completed p = p\<lparr>flush_running := False\<rparr>"

definition on_write_queued :: "u64 \<Rightarrow> fsync_planner \<Rightarrow> fsync_planner" where
  "on_write_queued n p = p\<lparr>dirty_bytes := dirty_bytes p + n\<rparr>"

lemma should_fsync_Consistently:
  "cadence p = Consistently \<Longrightarrow>
   should_fsync p =
     (if dirty_bytes p \<noteq> 0 \<and> \<not> flush_running p then (True, p\<lparr>dirty_bytes := 0, flush_running := True\<rparr>)
      else (False, p))"
  by (simp add: should_fsync_def)

section \<open>Histories\<close>

text \<open>
  What stage 3 does with a planner, and the log of a history: the bytes queued, the completions and
  the answers to \<open>should_fsync\<close>, in order.
\<close>

datatype planner_event = Queued u64 | Completed | Asked

datatype planner_entry = LogQueued u64 | LogCompleted | LogAnswer bool

fun planner_event_step :: "planner_entry list \<times> fsync_planner \<Rightarrow> planner_event \<Rightarrow> planner_entry list \<times> fsync_planner" where
  "planner_event_step (lg, p) (Queued n) = (lg @ [LogQueued n], on_write_queued n p)"
| "planner_event_step (lg, p) Completed = (lg @ [LogCompleted], on_fsync_completed p)"
| "planner_event_step (lg, p) Asked = (let (b, p') = should_fsync p in (lg @ [LogAnswer b], p'))"

definition planner_run :: "fsync_planner \<Rightarrow> planner_event list \<Rightarrow> planner_entry list \<times> fsync_planner" where
  "planner_run p es = foldl planner_event_step ([], p) es"

text \<open>
  What a log says on its own, without a planner: the entries after the last \<open>x\<close>, the bytes queued
  since an fsync was last asked for (they wrap as the counter does), and whether one is outstanding.
\<close>

definition since :: "planner_entry \<Rightarrow> planner_entry list \<Rightarrow> planner_entry list" where
  "since x lg = rev (takeWhile (\<lambda>y. y \<noteq> x) (rev lg))"

fun queued_bytes :: "planner_entry \<Rightarrow> u64" where
  "queued_bytes (LogQueued n) = n"
| "queued_bytes _ = 0"

definition uncovered :: "planner_entry list \<Rightarrow> u64" where
  "uncovered lg = sum_list (map queued_bytes (since (LogAnswer True) lg))"

definition outstanding :: "planner_entry list \<Rightarrow> bool" where
  "outstanding lg \<longleftrightarrow> LogAnswer True \<in> set (since LogCompleted lg)"

lemma since_simps [simp]: "since x [] = []" "since x (lg @ [y]) = (if y = x then [] else since x lg @ [y])"
  by (simp_all add: since_def)

lemma uncovered_snoc [simp]:
  "uncovered [] = 0" "uncovered (lg @ [y]) = (if y = LogAnswer True then 0 else uncovered lg + queued_bytes y)"
  by (simp_all add: uncovered_def)

lemma outstanding_snoc [simp]:
  "\<not> outstanding []" "outstanding (lg @ [y]) \<longleftrightarrow> y \<noteq> LogCompleted \<and> (outstanding lg \<or> y = LogAnswer True)"
  by (auto simp: outstanding_def)

text \<open>The answer that is due after a log.\<close>

definition fsync_due :: "fsync_cadence \<Rightarrow> planner_entry list \<Rightarrow> bool" where
  "fsync_due c lg \<longleftrightarrow> uncovered lg \<noteq> 0 \<and>
     (case c of Never \<Rightarrow> False | Consistently \<Rightarrow> \<not> outstanding lg | EveryBytes limit \<Rightarrow> limit \<le> uncovered lg)"

text \<open>The planner remembers of its history exactly what it needs, and answers what is due.\<close>

definition planner_inv :: "fsync_cadence \<Rightarrow> planner_entry list \<times> fsync_planner \<Rightarrow> bool" where
  "planner_inv c x \<longleftrightarrow>
     (case x of (lg, p) \<Rightarrow> cadence p = c \<and> dirty_bytes p = uncovered lg \<and> flush_running p = outstanding lg)"

lemma should_fsync_due:
  "planner_inv c (lg, p) \<Longrightarrow>
   should_fsync p = (if fsync_due c lg then (True, p\<lparr>dirty_bytes := 0, flush_running := True\<rparr>) else (False, p))"
  by (cases c) (auto simp: planner_inv_def should_fsync_def fsync_due_def)

lemma planner_inv_step:
  assumes "planner_inv c x"
  shows "planner_inv c (planner_event_step x e)"
proof -
  obtain lg p where x: "x = (lg, p)" by (cases x)
  have fields: "cadence p = c" "dirty_bytes p = uncovered lg" "flush_running p = outstanding lg"
    using assms by (simp_all add: x planner_inv_def)
  show ?thesis
  proof (cases e)
    case Asked
    then show ?thesis using should_fsync_due [OF assms [unfolded x]] fields
      by (cases "fsync_due c lg") (simp_all add: x planner_inv_def)
  qed (use fields in \<open>simp_all add: x planner_inv_def on_write_queued_def on_fsync_completed_def\<close>)
qed

definition answers_due :: "fsync_cadence \<Rightarrow> planner_entry list \<Rightarrow> bool" where
  "answers_due c lg \<longleftrightarrow> (\<forall>lg1 b lg2. lg = lg1 @ LogAnswer b # lg2 \<longrightarrow> b = fsync_due c lg1)"

lemma answers_due_snoc:
  "answers_due c lg \<Longrightarrow> (\<And>b. y = LogAnswer b \<Longrightarrow> b = fsync_due c lg) \<Longrightarrow> answers_due c (lg @ [y])"
  by (auto simp: answers_due_def append_eq_append_conv2 append_eq_Cons_conv Cons_eq_append_conv)

lemma planner_run_inv:
  "planner_inv c (planner_run (planner_new c) es) \<and> answers_due c (fst (planner_run (planner_new c) es))"
proof (induction es rule: rev_induct)
  case Nil
  then show ?case by (simp add: planner_run_def planner_inv_def planner_new_def answers_due_def)
next
  case (snoc e es)
  obtain lg p where x: "planner_run (planner_new c) es = (lg, p)" by (cases "planner_run (planner_new c) es")
  have step: "planner_run (planner_new c) (es @ [e]) = planner_event_step (lg, p) e"
    using x by (simp add: planner_run_def)
  have inv: "planner_inv c (lg, p)" and ans: "answers_due c lg" using snoc.IH by (simp_all add: x)
  have "answers_due c (fst (planner_event_step (lg, p) e))"
    using should_fsync_due [OF inv] by (cases e; cases "fsync_due c lg") (auto intro!: answers_due_snoc [OF ans])
  then show ?case unfolding step using planner_inv_step [OF inv] by blast
qed

text \<open>A log whose answers in mode \<open>Sync\<close> are those fsync_due has at most one question outstanding.\<close>

definition asked_for :: "planner_entry list \<Rightarrow> nat" where
  "asked_for lg = length (filter (\<lambda>y. y = LogAnswer True) lg)"

definition completions :: "planner_entry list \<Rightarrow> nat" where
  "completions lg = length (filter (\<lambda>y. y = LogCompleted) lg)"

lemma one_outstanding:
  "answers_due Consistently lg \<Longrightarrow> asked_for lg + (if outstanding lg then 0 else 1) \<le> completions lg + 1"
proof (induction lg rule: rev_induct)
  case Nil
  then show ?case by (simp add: asked_for_def completions_def)
next
  case (snoc y lg)
  have "answers_due Consistently lg" using snoc.prems by (simp add: answers_due_def)
  note IH = snoc.IH [OF this]
  have "y = LogAnswer True \<Longrightarrow> fsync_due Consistently lg" using snoc.prems by (auto simp: answers_due_def)
  then show ?case using IH by (cases y) (auto simp: asked_for_def completions_def fsync_due_def split: if_splits)
qed

lemma never_asked:
  assumes "answers_due Never lg"
  shows "asked_for lg = 0"
proof -
  have False if "LogAnswer True \<in> set lg"
  proof -
    from that obtain lg1 lg2 where "lg = lg1 @ LogAnswer True # lg2" by (auto simp: in_set_conv_decomp)
    then have "fsync_due Never lg1" using assms by (auto simp: answers_due_def)
    then show False by (simp add: fsync_due_def)
  qed
  then show ?thesis by (auto simp: asked_for_def filter_empty_conv)
qed

section \<open>Properties\<close>

text \<open>
  C24. The fsync cadence. Over every history of a new planner, every single answer is determined
  by the log before it: the planner asks for an fsync exactly if bytes were queued since it last
  asked, and in addition: in mode \<open>NoFsync\<close> never; in mode \<open>Sync\<close> exactly if no fsync is
  outstanding, that is, none was asked for since the last completion; in mode \<open>Async\<close> exactly if
  those bytes are at least 1 MiB (counted in 64 bits). So in mode \<open>NoFsync\<close> it has asked for none,
  and in mode \<open>Sync\<close> for at most one more than have completed.
\<close>

theorem planner_cadences:
  assumes "planner_run (planner_new (cadence_of_mode m)) es = (lg, p)"
  shows "(\<forall>lg1 b lg2. lg = lg1 @ LogAnswer b # lg2 \<longrightarrow>
      b = (uncovered lg1 \<noteq> 0 \<and>
        (case m of NoFsync \<Rightarrow> False | Sync \<Rightarrow> \<not> outstanding lg1 | Async \<Rightarrow> 1048576 \<le> uncovered lg1))) \<and>
    (m = NoFsync \<longrightarrow> asked_for lg = 0) \<and> (m = Sync \<longrightarrow> asked_for lg \<le> completions lg + 1)"
proof -
  let ?c = "cadence_of_mode m"
  have ans: "answers_due ?c lg" using planner_run_inv [of ?c es] by (simp add: assms)
  have d: "fsync_due ?c lg1 = (uncovered lg1 \<noteq> 0 \<and>
        (case m of NoFsync \<Rightarrow> False | Sync \<Rightarrow> \<not> outstanding lg1 | Async \<Rightarrow> 1048576 \<le> uncovered lg1))" for lg1
    by (cases m) (simp_all add: fsync_due_def push_bit_eq_mult)
  have "\<forall>lg1 b lg2. lg = lg1 @ LogAnswer b # lg2 \<longrightarrow> b = fsync_due ?c lg1" using ans unfolding answers_due_def .
  moreover have "m = NoFsync \<longrightarrow> asked_for lg = 0" using ans never_asked by auto
  moreover have "m = Sync \<longrightarrow> asked_for lg \<le> completions lg + 1" using ans one_outstanding by fastforce
  ultimately show ?thesis unfolding d by blast
qed

theorem planner_cadences_witness:
  "fst (planner_run (planner_new (cadence_of_mode Async)) [Queued 5, Asked, Queued 1048571, Asked]) =
     [LogQueued 5, LogAnswer False, LogQueued 1048571, LogAnswer True] \<and>
   (1048576 \<le> uncovered [LogQueued 5, LogAnswer False, LogQueued 1048571]) \<and>
   \<not> (1048576 \<le> uncovered [LogQueued 5])"
proof -
  let ?es = "[Queued 5, Asked, Queued 1048571, Asked]"
  let ?lg = "[LogQueued 5, LogAnswer False, LogQueued 1048571, LogAnswer True]"
  obtain p where r: "planner_run (planner_new (cadence_of_mode Async)) ?es = (?lg, p)"
    by (simp add: planner_run_def planner_new_def on_write_queued_def should_fsync_def push_bit_eq_mult)
  from planner_cadences [OF r]
  have all: "\<And>lg1 b lg2. ?lg = lg1 @ LogAnswer b # lg2 \<Longrightarrow> b = (uncovered lg1 \<noteq> 0 \<and> 1048576 \<le> uncovered lg1)" by auto
  have "1048576 \<le> uncovered [LogQueued 5, LogAnswer False, LogQueued 1048571]"
    using all [of "[LogQueued 5, LogAnswer False, LogQueued 1048571]" True "[]"] by simp
  moreover have "False = (uncovered [LogQueued 5] \<noteq> 0 \<and> 1048576 \<le> uncovered [LogQueued 5])"
    using all [of "[LogQueued 5]" False "[LogQueued 1048571, LogAnswer True]"] by simp
  moreover have "uncovered [LogQueued 5] \<noteq> 0" using uncovered_snoc(2) [of "[]" "LogQueued 5"] by simp
  ultimately show ?thesis unfolding r fst_conv by simp
qed

end
