(* ===== verification/Io_Work.thy ===== *)
theory Io_Work
  imports Batches Wal_Format
begin

text \<open>
  What stage 3 gives to the kernel and how each operation ends
  (\<open>crates/server/src/stage3/io_work.rs\<close>), and the open segment file (\<open>segment.rs\<close>). A file
  descriptor is the path it was opened at. The entry that \<open>sqe\<close> builds holds the bytes its
  pointer and length denote; completion results are the kernel's 32-bit signed integers.
\<close>

section \<open>The open segment\<close>

record segment =
  seg_fd :: string
  seg_offset :: u64
  seg_start_lsn :: u64

text \<open>
  Opening creates the file when it is missing and continues at its end. \<open>open_ok\<close> says whether
  the two system calls succeed; the directory afterwards is returned as well.
\<close>

definition segment_open :: "bool \<Rightarrow> dir_state \<Rightarrow> u64 \<Rightarrow> (segment \<times> dir_state) outcome" where
  "segment_open open_ok dir start_lsn =
     (let path = segment_path start_lsn in
      if open_ok then
        let dir' = (if map_of (entries dir) path = None then dir\<lparr>entries := entries dir @ [(path, [])]\<rparr> else dir);
            size = (case map_of (entries dir') path of None \<Rightarrow> 0 | Some bs \<Rightarrow> length bs)
        in Inr (\<lparr>seg_fd = path, seg_offset = of_nat size, seg_start_lsn = start_lsn\<rparr>, dir')
      else Inl IoError)"

definition advance_offset :: "u64 \<Rightarrow> segment \<Rightarrow> (u64 \<times> u64) \<times> segment" where
  "advance_offset n s = (let o1 = seg_offset s in ((o1, o1 + n), s\<lparr>seg_offset := o1 + n\<rparr>))"

section \<open>Operations\<close>

record write_op =
  w_data :: batch
  w_offset :: u64
  w_done :: nat

datatype io_work = WriteWork write_op | FsyncWork u64 | RemoveWork string

datatype verdict = VerdictOk "batch option" | Retry io_work | VerdictDurable | Fatal int

definition io_write :: "batch \<Rightarrow> u64 \<Rightarrow> io_work" where
  "io_write b off = WriteWork \<lparr>w_data = b, w_offset = off, w_done = 0\<rparr>"

text \<open>
  A submission: a write of bytes at an offset, a data sync with the drain flag, an unlink. The
  length of a write is cast to \<open>u32\<close>, so the kernel sees the first \<open>len mod 2 ^ 32\<close> bytes.
\<close>

datatype sqe =
    SqeWrite string bytes u64
  | SqeFsyncDrain string
  | SqeUnlink string

definition sqe_of :: "io_work \<Rightarrow> string \<Rightarrow> sqe outcome" where
  "sqe_of work fd =
     (case work of
        WriteWork w \<Rightarrow>
          obind (slice_from (out (w_data w)) (w_done w)) (\<lambda>remainder.
            let len = as_u32 (length remainder) in
            Inr (SqeWrite fd (take (unat len) remainder) (w_offset w + of_nat (w_done w))))
      | FsyncWork l \<Rightarrow> Inr (SqeFsyncDrain fd)
      | RemoveWork path \<Rightarrow> Inr (SqeUnlink path))"

definition EINTR :: int where
  "EINTR = 4"

definition EAGAIN :: int where
  "EAGAIN = 11"

definition complete :: "io_work \<Rightarrow> int \<Rightarrow> verdict" where
  "complete work res =
     (case work of
        WriteWork w \<Rightarrow>
          if res = - EINTR \<or> res = - EAGAIN then Retry (WriteWork w)
          else if res < 0 then Fatal (- res)
          else
            let w = w\<lparr>w_done := w_done w + nat res\<rparr> in
            if w_done w < length (out (w_data w)) then Retry (WriteWork w)
            else VerdictOk (Some (w_data w))
      | FsyncWork l \<Rightarrow> if res < 0 then Fatal (- res) else VerdictDurable
      | RemoveWork path \<Rightarrow> VerdictOk None)"

section \<open>Retrying a write\<close>

text \<open>
  A write driven to its end alone: each element of the list is the result of one submission.
  The second component collects what the kernel put into the file, offset and bytes.
\<close>

fun drive_write :: "io_work \<Rightarrow> string \<Rightarrow> int list \<Rightarrow> (verdict \<times> (u64 \<times> bytes) list) outcome" where
  "drive_write work fd [] = Inr (Retry work, [])"
| "drive_write work fd (res # rs) =
     obind (sqe_of work fd) (\<lambda>s.
     let put = (case s of SqeWrite f bs off \<Rightarrow> if 0 \<le> res then [(off, take (nat res) bs)] else [] | _ \<Rightarrow> []) in
     case complete work res of
       Retry work' \<Rightarrow> obind (drive_write work' fd rs) (\<lambda>(v, puts). Inr (v, put @ puts))
     | v \<Rightarrow> Inr (v, put))"

text \<open>
  Results the kernel may give: at most the bytes submitted. \<open>puts_from\<close> says that writes follow
  each other without a gap.
\<close>

fun kernel_results :: "io_work \<Rightarrow> string \<Rightarrow> int list \<Rightarrow> bool" where
  "kernel_results work fd [] \<longleftrightarrow> True"
| "kernel_results work fd (res # rs) \<longleftrightarrow>
     (case sqe_of work fd of
        Inr (SqeWrite f bs off) \<Rightarrow>
          (0 \<le> res \<longrightarrow> nat res \<le> length bs) \<and>
          (case complete work res of Retry work' \<Rightarrow> kernel_results work' fd rs | _ \<Rightarrow> True)
      | _ \<Rightarrow> False)"

fun puts_from :: "u64 \<Rightarrow> (u64 \<times> bytes) list \<Rightarrow> bool" where
  "puts_from off [] \<longleftrightarrow> True"
| "puts_from off ((o1, bs) # ps) \<longleftrightarrow> o1 = off \<and> puts_from (off + of_nat (length bs)) ps"

definition resumed :: "batch \<Rightarrow> u64 \<Rightarrow> nat \<Rightarrow> io_work" where
  "resumed b off n = WriteWork \<lparr>w_data = b, w_offset = off, w_done = n\<rparr>"

definition transient :: "int \<Rightarrow> bool" where
  "transient res \<longleftrightarrow> res = - EINTR \<or> res = - EAGAIN"

lemma resumed_sqe:
  assumes "n \<le> length (out b)" and "length (out b) < 2 ^ 32"
  shows "sqe_of (resumed b off n) fd = Inr (SqeWrite fd (drop n (out b)) (off + of_nat n))"
  using assms by (simp add: sqe_of_def resumed_def Let_def slice_from_ok unat_as_u32)

lemma resumed_complete:
  "complete (resumed b off n) res =
     (if transient res then Retry (resumed b off n)
      else if res < 0 then Fatal (- res)
      else if n + nat res < length (out b) then Retry (resumed b off (n + nat res))
      else VerdictOk (Some b))"
  by (simp add: complete_def resumed_def transient_def Let_def)

text \<open>How a write that had \<open>n\<close> bytes done can end after further submissions.\<close>

definition write_outcome :: "batch \<Rightarrow> u64 \<Rightarrow> nat \<Rightarrow> int list \<Rightarrow> verdict \<Rightarrow> (u64 \<times> bytes) list \<Rightarrow> bool" where
  "write_outcome b off n rs v ps \<longleftrightarrow>
     puts_from (off + of_nat n) ps \<and>
     (\<exists>m. n + m \<le> length (out b) \<and> concat (map snd ps) = take m (drop n (out b)) \<and>
       (case v of
          VerdictOk ob \<Rightarrow> ob = Some b \<and> n + m = length (out b)
        | Retry work \<Rightarrow> work = resumed b off (n + m) \<and> n + m < length (out b)
        | VerdictDurable \<Rightarrow> False
        | Fatal err \<Rightarrow> - err \<in> set rs \<and> 0 < err \<and> \<not> transient (- err))) \<and>
     (list_all (\<lambda>res. 0 \<le> res \<or> transient res) rs \<and> length (out b) - n \<le> length (filter (\<lambda>res. 0 < res) rs) \<longrightarrow>
        v = VerdictOk (Some b)) \<and>
     (list_all (\<lambda>res. res = 0 \<or> transient res) rs \<longrightarrow> v = Retry (resumed b off n))"

text \<open>One more submission in front, which wrote \<open>k\<close> bytes.\<close>

lemma write_outcome_step:
  assumes o: "write_outcome b off (n + k) rs v ps" and k: "n + k < length (out b)"
    and put: "put = (if 0 \<le> res then [(off + of_nat n, take k (drop n (out b)))] else [])"
    and res: "0 \<le> res \<Longrightarrow> k = nat res" "\<not> 0 \<le> res \<Longrightarrow> k = 0"
  shows "write_outcome b off n (res # rs) v (put @ ps)"
proof -
  obtain m where m: "n + k + m \<le> length (out b)" "concat (map snd ps) = take m (drop (n + k) (out b))"
    and v: "case v of VerdictOk ob \<Rightarrow> ob = Some b \<and> n + k + m = length (out b)
      | Retry work \<Rightarrow> work = resumed b off (n + k + m) \<and> n + k + m < length (out b)
      | VerdictDurable \<Rightarrow> False | Fatal err \<Rightarrow> - err \<in> set rs \<and> 0 < err \<and> \<not> transient (- err)"
    and ps: "puts_from (off + of_nat (n + k)) ps"
    and fin: "list_all (\<lambda>res. 0 \<le> res \<or> transient res) rs \<and> length (out b) - (n + k) \<le> length (filter (\<lambda>res. 0 < res) rs) \<longrightarrow>
        v = VerdictOk (Some b)"
      "list_all (\<lambda>res. res = 0 \<or> transient res) rs \<longrightarrow> v = Retry (resumed b off (n + k))"
    using o by (auto simp: write_outcome_def)
  have "puts_from (off + of_nat n) (put @ ps)" using ps res(2) k by (auto simp: put min_absorb2 add.assoc)
  moreover have "concat (map snd (put @ ps)) = take (k + m) (drop n (out b))"
    using res(2) m(2) by (auto simp: put take_add add.commute)
  moreover have "length (out b) - n \<le> length (filter (\<lambda>res. 0 < res) (res # rs)) \<Longrightarrow>
      length (out b) - (n + k) \<le> length (filter (\<lambda>res. 0 < res) rs)"
    using res by (cases "0 < res") auto
  then have "list_all (\<lambda>res. 0 \<le> res \<or> transient res) (res # rs) \<and>
      length (out b) - n \<le> length (filter (\<lambda>res. 0 < res) (res # rs)) \<longrightarrow> v = VerdictOk (Some b)"
    using fin(1) by simp
  moreover have "list_all (\<lambda>res. res = 0 \<or> transient res) (res # rs) \<longrightarrow> v = Retry (resumed b off n)"
  proof
    assume a: "list_all (\<lambda>res. res = 0 \<or> transient res) (res # rs)"
    then have "k = 0" using res by (cases "res = 0") (auto simp: transient_def EINTR_def EAGAIN_def)
    then show "v = Retry (resumed b off n)" using fin(2) a by simp
  qed
  moreover have "case v of VerdictOk ob \<Rightarrow> ob = Some b \<and> n + (k + m) = length (out b)
      | Retry work \<Rightarrow> work = resumed b off (n + (k + m)) \<and> n + (k + m) < length (out b)
      | VerdictDurable \<Rightarrow> False | Fatal err \<Rightarrow> - err \<in> set (res # rs) \<and> 0 < err \<and> \<not> transient (- err)"
    using v by (auto simp: add.assoc split: verdict.splits)
  ultimately show ?thesis
    unfolding write_outcome_def using m(1) by (intro conjI exI [of _ "k + m"]) (simp_all add: add.assoc)
qed

lemma drive_resumed:
  assumes "n < length (out b)" and "length (out b) < 2 ^ 32" and "kernel_results (resumed b off n) fd rs"
  shows "\<exists>v ps. drive_write (resumed b off n) fd rs = Inr (v, ps) \<and> write_outcome b off n rs v ps"
  using assms
proof (induction rs arbitrary: n)
  case Nil
  then show ?case by (auto simp: write_outcome_def)
next
  case (Cons res rs)
  note sqe = resumed_sqe [OF less_imp_le [OF Cons.prems(1)] Cons.prems(2), of off fd]
  have le: "0 \<le> res \<Longrightarrow> n + nat res \<le> length (out b)" using Cons.prems(1,3) by (auto simp: sqe)
  show ?case
  proof (cases "transient res \<or> 0 \<le> res \<and> n + nat res < length (out b)")
    case True
    define k where "k = (if transient res then 0 else nat res)"
    have neg: "transient res \<Longrightarrow> res < 0" by (auto simp: transient_def EINTR_def EAGAIN_def)
    have k: "n + k < length (out b)" "complete (resumed b off n) res = Retry (resumed b off (n + k))"
      using True Cons.prems(1) neg by (auto simp: k_def resumed_complete)
    have "kernel_results (resumed b off (n + k)) fd rs" using Cons.prems(3) by (simp add: sqe k(2))
    from Cons.IH [OF k(1) Cons.prems(2) this] obtain v ps where
      d: "drive_write (resumed b off (n + k)) fd rs = Inr (v, ps)" and o: "write_outcome b off (n + k) rs v ps" by blast
    have r: "0 \<le> res \<Longrightarrow> k = nat res" "\<not> 0 \<le> res \<Longrightarrow> k = 0" using True neg by (auto simp: k_def)
    from write_outcome_step [OF o k(1) refl r]
    have "write_outcome b off n (res # rs) v
        ((if 0 \<le> res then [(off + of_nat n, take (nat res) (drop n (out b)))] else []) @ ps)"
      using r by (auto split: if_splits)
    then show ?thesis using d k(2) by (auto simp: sqe)
  next
    case False
    show ?thesis
    proof (cases "res < 0")
      case True
      then show ?thesis using False Cons.prems(1) by (auto simp: sqe resumed_complete write_outcome_def intro!: exI [of _ 0])
    next
      case pos: False
      then have "n + nat res = length (out b)" using False le by simp
      then show ?thesis using False pos
        using Cons.prems(1) by (auto simp: sqe resumed_complete write_outcome_def intro!: exI [of _ "nat res"])
    qed
  qed
qed

section \<open>Properties\<close>

text \<open>
  C15. A write survives short writes and interruptions. However the kernel cuts a batch's write
  (any number of short writes, \<open>EINTR\<close> and \<open>EAGAIN\<close>), the pieces written are consecutive and make
  up a beginning of the buffer at the batch's offset; the batch is reported written exactly when
  the pieces make up the whole buffer, otherwise the operation kept for the next submission
  points at the first unwritten byte; only another error ends it. Interruptions and writes of no
  byte only delay it: without another error it ends at the latest with the submission that makes
  progress for the \<open>n\<close>-th time, for a buffer of \<open>n\<close> bytes, however many submissions without progress
  lie between. Their number has no bound: as long as none makes progress, the same write is
  submitted again.
\<close>

theorem write_retries:
  assumes "out b \<noteq> []" and "length (out b) < 2 ^ 32" and "kernel_results (io_write b off) fd rs"
  shows "\<exists>v ps m. drive_write (io_write b off) fd rs = Inr (v, ps) \<and>
    puts_from off ps \<and> m \<le> length (out b) \<and> concat (map snd ps) = take m (out b) \<and>
    (case v of
       VerdictOk ob \<Rightarrow> ob = Some b \<and> m = length (out b)
     | Retry work \<Rightarrow> work = WriteWork \<lparr>w_data = b, w_offset = off, w_done = m\<rparr> \<and> m < length (out b)
     | VerdictDurable \<Rightarrow> False
     | Fatal err \<Rightarrow> - err \<in> set rs \<and> 0 < err \<and> err \<noteq> EINTR \<and> err \<noteq> EAGAIN) \<and>
    (list_all (\<lambda>res. 0 \<le> res \<or> res = - EINTR \<or> res = - EAGAIN) rs \<and> length (out b) \<le> length (filter (\<lambda>res. 0 < res) rs) \<longrightarrow>
       v = VerdictOk (Some b)) \<and>
    (list_all (\<lambda>res. res = 0 \<or> res = - EINTR \<or> res = - EAGAIN) rs \<longrightarrow> v = Retry (io_write b off))"
proof -
  have w: "io_write b off = resumed b off 0" by (simp add: io_write_def resumed_def)
  from drive_resumed [of 0 b off fd rs] assms obtain v ps where
    d: "drive_write (io_write b off) fd rs = Inr (v, ps)" and o: "write_outcome b off 0 rs v ps" by (auto simp: w)
  from o obtain m where "m \<le> length (out b)" "concat (map snd ps) = take m (out b)"
    "case v of VerdictOk ob \<Rightarrow> ob = Some b \<and> m = length (out b)
     | Retry work \<Rightarrow> work = resumed b off m \<and> m < length (out b) | VerdictDurable \<Rightarrow> False
     | Fatal err \<Rightarrow> - err \<in> set rs \<and> 0 < err \<and> \<not> transient (- err)"
    unfolding write_outcome_def add_0 drop_0 by blast
  then show ?thesis using d o
    by (auto intro!: exI [of _ v] exI [of _ ps] exI [of _ m] simp: write_outcome_def resumed_def transient_def io_write_def split: verdict.splits)
qed

theorem write_retries_witness:
  "\<exists>ps. drive_write (io_write (batch_new\<lparr>out := [1, 2, 3]\<rparr>) 10) ''wal'' [2, - EINTR, 1] =
      Inr (VerdictOk (Some (batch_new\<lparr>out := [1, 2, 3]\<rparr>)), ps) \<and> concat (map snd ps) = [1, 2, 3] \<and> puts_from 10 ps"
proof -
  let ?b = "batch_new\<lparr>out := [1, 2, 3]\<rparr>"
  have k: "kernel_results (io_write ?b 10) ''wal'' [2, - EINTR, 1]"
    and v: "\<exists>ps. drive_write (io_write ?b 10) ''wal'' [2, - EINTR, 1] = Inr (VerdictOk (Some ?b), ps)"
    by (simp_all add: io_write_def sqe_of_def complete_def slice_from_ok unat_as_u32 EINTR_def EAGAIN_def Let_def)
  from write_retries [OF _ _ k] v show ?thesis by auto
qed

end
