(* ===== verification/Wal_Engine.thy ===== *)
theory Wal_Engine
  imports Fsync_Planner Io_Work
begin

text \<open>
  Stage 3, the write-ahead-log engine (\<open>crates/server/src/stage3/mod.rs\<close>): encoding batches,
  queueing writes, fsyncs and removals, submitting them to the ring, and processing
  completions. The ring and the slab are libraries: the entries submitted are an output, the
  completions reaped and the free submission slots are inputs, and the slab's choice of a key
  is the parameter \<open>vacant\<close>. Channels to clients and to the buffer pool are output lists.
\<close>

section \<open>State\<close>

definition DEFAULT_SPIN_BUDGET :: int where
  "DEFAULT_SPIN_BUDGET = 500"

text \<open>
  \<open>replies\<close> are the responses sent, \<open>recycle_tx\<close> the buffers sent back to the pool. \<open>finished\<close> is
  history: the batches as they were when the level that let them go was reached.
\<close>

record wal_engine =
  depth :: nat
  pending :: "io_work list"
  inflight :: "(nat \<times> io_work) list"
  spin_budget :: int
  last_ingested_lsn :: u64
  seg :: segment
  ack :: acker
  planner :: fsync_planner
  awaiting_fsync :: "batch list"
  replies :: "(nat \<times> resp) list"
  recycle_tx :: "batch list"
  finished :: "batch list"

definition wal_engine_new :: "bool \<Rightarrow> bool \<Rightarrow> nat \<Rightarrow> dir_state \<Rightarrow> u64 \<Rightarrow> mode \<Rightarrow> acker \<Rightarrow> (wal_engine \<times> dir_state) outcome" where
  "wal_engine_new ring_ok open_ok ring_depth dir start_lsn m a =
     obind (ensure IoError ring_ok) (\<lambda>_.
     obind (segment_open open_ok dir start_lsn) (\<lambda>(s, dir').
       Inr (\<lparr>depth = ring_depth, pending = [], inflight = [], spin_budget = DEFAULT_SPIN_BUDGET,
             last_ingested_lsn = start_lsn, seg = s, ack = a, planner = planner_new (cadence_of_mode m),
             awaiting_fsync = [], replies = [], recycle_tx = [], finished = []\<rparr>, dir')))"

definition out_of_spins :: "wal_engine \<Rightarrow> bool" where
  "out_of_spins e \<longleftrightarrow> spin_budget e \<le> 0"

definition should_park :: "wal_engine \<Rightarrow> bool" where
  "should_park e \<longleftrightarrow> pending e = [] \<and> inflight e = []"

definition ring_is_full :: "wal_engine \<Rightarrow> bool" where
  "ring_is_full e \<longleftrightarrow> depth e \<le> length (inflight e)"

section \<open>Encoding a batch\<close>

text \<open>
  The check that the batch continues the log is an \<open>assert\<close>; the count of PUTs is compared by a
  \<open>debug_assert\<close>, which release builds leave out, as the model does.
\<close>

fun encode_items :: "bytes \<Rightarrow> u64 \<Rightarrow> request list \<Rightarrow> (bytes \<times> u64) outcome" where
  "encode_items buf lsn [] = Inr (buf, lsn)"
| "encode_items buf lsn (r # rs) =
     obind (req_op r) (\<lambda>oper.
       case oper of
         Put \<Rightarrow> encode_items (encode_record buf (lsn + 1) (data r)) (lsn + 1) rs
       | _ \<Rightarrow> encode_items buf lsn rs)"

definition handle_batch :: "wal_engine \<Rightarrow> batch \<Rightarrow> wal_engine outcome" where
  "handle_batch e b =
     obind (ensure AssertFailed (lsn_low b = last_ingested_lsn e)) (\<lambda>_.
     obind (encode_items (out b) (lsn_low b) (items b)) (\<lambda>(buf, lsn).
       let b = b\<lparr>out := buf\<rparr>;
           batch_size = of_nat (length (out b));
           ((off, _), s) = advance_offset batch_size (seg e)
       in Inr (e\<lparr>last_ingested_lsn := lsn_hi b, seg := s,
                 planner := on_write_queued batch_size (planner e),
                 pending := pending e @ [io_write b off]\<rparr>)))"

section \<open>Submission\<close>

text \<open>
  The submission loop, with \<open>room\<close> free slots in the submission queue. The result lists the
  entries pushed, each with its key.
\<close>

fun submit_loop :: "((nat \<times> io_work) list \<Rightarrow> nat) \<Rightarrow> nat \<Rightarrow> wal_engine \<Rightarrow> (wal_engine \<times> (nat \<times> sqe) list) outcome" where
  "submit_loop vacant 0 e = Inr (e, [])"
| "submit_loop vacant (Suc room) e =
     (if length (inflight e) < depth e then
        case pending e of
          [] \<Rightarrow> Inr (e, [])
        | work # rest \<Rightarrow>
            let key = vacant (inflight e) in
            obind (sqe_of work (seg_fd (seg e))) (\<lambda>s.
            obind (submit_loop vacant room (e\<lparr>pending := rest, inflight := inflight e @ [(key, work)]\<rparr>))
              (\<lambda>(e', ss). Inr (e', (key, s) # ss)))
      else Inr (e, []))"

definition handle_pending ::
  "((nat \<times> io_work) list \<Rightarrow> nat) \<Rightarrow> nat \<Rightarrow> wal_engine \<Rightarrow> (wal_engine \<times> (nat \<times> sqe) list \<times> bool) outcome" where
  "handle_pending vacant room e =
     (if pending e = [] then Inr (e, [], False)
      else
        obind (submit_loop vacant room e) (\<lambda>(e', ss).
          Inr (e', ss, length (inflight e) \<noteq> length (inflight e'))))"

section \<open>Completion\<close>

text \<open>Answering and recycling every batch that waits for durability.\<close>

fun finish_awaiting :: "wal_engine \<Rightarrow> batch list \<Rightarrow> wal_engine outcome" where
  "finish_awaiting e [] = Inr e"
| "finish_awaiting e (b # bs) =
     obind (advance (ack e) b Durable) (\<lambda>(b', sent).
       finish_awaiting (e\<lparr>replies := replies e @ sent, recycle_tx := recycle_tx e @ [recycle b'],
                          finished := finished e @ [b]\<rparr>) bs)"

definition reap_one :: "wal_engine \<Rightarrow> nat \<times> int \<Rightarrow> wal_engine outcome" where
  "reap_one e cqe =
     (case map_of (inflight e) (fst cqe) of
        None \<Rightarrow> Inl ExpectFailed
      | Some work \<Rightarrow>
          let e = e\<lparr>inflight := AList.delete (fst cqe) (inflight e)\<rparr> in
          case complete work (snd cqe) of
            VerdictOk None \<Rightarrow> Inr e
          | VerdictOk (Some b) \<Rightarrow>
              obind (advance (ack e) b Written) (\<lambda>(b', sent).
                let e = e\<lparr>replies := replies e @ sent\<rparr> in
                if is_settled b'
                then Inr (e\<lparr>recycle_tx := recycle_tx e @ [recycle b'], finished := finished e @ [b]\<rparr>)
                else Inr (e\<lparr>awaiting_fsync := awaiting_fsync e @ [b']\<rparr>))
          | Retry work \<Rightarrow>
              let e = (case work of
                         WriteWork w \<Rightarrow>
                           e\<lparr>planner := on_write_queued (of_nat (length (out (w_data w)) - w_done w)) (planner e)\<rparr>
                       | _ \<Rightarrow> e)
              in Inr (e\<lparr>pending := work # pending e\<rparr>)
          | VerdictDurable \<Rightarrow>
              obind (finish_awaiting (e\<lparr>awaiting_fsync := []\<rparr>) (awaiting_fsync e)) (\<lambda>e.
                Inr (e\<lparr>planner := on_fsync_completed (planner e)\<rparr>))
          | Fatal err \<Rightarrow> Inl ExplicitPanic)"

fun reap_cqes :: "wal_engine \<Rightarrow> (nat \<times> int) list \<Rightarrow> wal_engine outcome" where
  "reap_cqes e [] = Inr e"
| "reap_cqes e (c # cs) = obind (reap_one e c) (\<lambda>e. reap_cqes e cs)"

section \<open>Rotation and retirement\<close>

text \<open>Submitting and waiting (\<open>submit_ring_and_park\<close>), given the error of the system call if any: only an interruption is tolerated.\<close>

definition submit_ring_and_park :: "int option \<Rightarrow> unit outcome" where
  "submit_ring_and_park err =
     (case err of None \<Rightarrow> Inr () | Some code \<Rightarrow> ensure ExplicitPanic (code = EINTR))"

text \<open>
  Waiting for all outstanding work before a rotation. Each round of the loop submits, waits and
  reaps; the list gives for each round the free slots, the outcome of the wait and the
  completions. \<open>None\<close> means that the
  loop is still waiting when the list ends.
\<close>

fun quiesce :: "((nat \<times> io_work) list \<Rightarrow> nat) \<Rightarrow> wal_engine \<Rightarrow> (nat \<times> int option \<times> (nat \<times> int) list) list \<Rightarrow> wal_engine option outcome" where
  "quiesce vacant e [] = (if should_park e then Inr (Some e) else Inr None)"
| "quiesce vacant e ((room, err, cqes) # rounds) =
     (if should_park e then Inr (Some e)
      else
        obind (handle_pending vacant room e) (\<lambda>(e, ss, moved).
        obind (submit_ring_and_park err) (\<lambda>_.
        obind (reap_cqes e cqes) (\<lambda>e.
          quiesce vacant e rounds))))"

definition rotate ::
  "((nat \<times> io_work) list \<Rightarrow> nat) \<Rightarrow> (nat \<times> int option \<times> (nat \<times> int) list) list \<Rightarrow> bool \<Rightarrow> bool \<Rightarrow> dir_state \<Rightarrow> wal_engine \<Rightarrow> u64
    \<Rightarrow> (wal_engine \<times> dir_state) option outcome" where
  "rotate vacant rounds fsync_ok open_ok dir e boundary_lsn =
     obind (quiesce vacant e rounds) (\<lambda>q.
       case q of
         None \<Rightarrow> Inr None
       | Some e \<Rightarrow>
           obind (ensure AssertFailed fsync_ok) (\<lambda>_.
           let e = e\<lparr>planner := on_fsync_completed (planner e)\<rparr> in
           obind (finish_awaiting (e\<lparr>awaiting_fsync := []\<rparr>) (awaiting_fsync e)) (\<lambda>e.
             case segment_open open_ok dir boundary_lsn of
               Inl err \<Rightarrow> Inl ExpectFailed
             | Inr (s, dir') \<Rightarrow> Inr (Some (e\<lparr>seg := s\<rparr>, dir')))))"

definition retire :: "dir_state \<Rightarrow> wal_engine \<Rightarrow> u64 \<Rightarrow> wal_engine outcome" where
  "retire dir e boundary_lsn =
     obind (ensure ExplicitPanic (\<not> seg_start_lsn (seg e) < boundary_lsn)) (\<lambda>_.
       case list_segments dir of
         Inl err \<Rightarrow> Inr e
       | Inr segs \<Rightarrow>
           Inr (e\<lparr>pending := pending e @
                  map (\<lambda>(lsn, path). RemoveWork path) (filter (\<lambda>(lsn, path). lsn < boundary_lsn) segs)\<rparr>))"

section \<open>The main loop\<close>

text \<open>
  Receiving: with no work at hand the thread blocks on the channel (\<open>None\<close> when it is empty),
  otherwise an empty channel costs one spin. The channel closes only with the process, so the
  panic on a closed channel is left out.
\<close>

definition poll_channel_or_park :: "wal_engine \<Rightarrow> wal_msg list \<Rightarrow> (wal_engine \<times> wal_msg list \<times> wal_msg option) option" where
  "poll_channel_or_park e msgs =
     (case msgs of
        m # rest \<Rightarrow> Some (e, rest, Some m)
      | [] \<Rightarrow> if should_park e then None
              else Some (e\<lparr>spin_budget := spin_budget e - 1\<rparr>, [], None))"

text \<open>The steps of one iteration after receiving; rotation and retirement see the directory.\<close>

definition handle_msg ::
  "((nat \<times> io_work) list \<Rightarrow> nat) \<Rightarrow> (nat \<times> int option \<times> (nat \<times> int) list) list \<Rightarrow> bool \<Rightarrow> bool \<Rightarrow> dir_state \<Rightarrow> wal_engine \<Rightarrow> wal_msg
    \<Rightarrow> (wal_engine \<times> dir_state) option outcome" where
  "handle_msg vacant rounds fsync_ok open_ok dir e m =
     obind (case m of
              WalWrite b \<Rightarrow> obind (handle_batch e b) (\<lambda>e. Inr (Some (e, dir)))
            | WalRotate l \<Rightarrow> rotate vacant rounds fsync_ok open_ok dir e l
            | WalRetire l \<Rightarrow> obind (retire dir e l) (\<lambda>e. Inr (Some (e, dir)))) (\<lambda>q.
       Inr (map_option (\<lambda>(e, dir). (e\<lparr>spin_budget := DEFAULT_SPIN_BUDGET\<rparr>, dir)) q))"

definition plan_fsync :: "wal_engine \<Rightarrow> wal_engine" where
  "plan_fsync e =
     (let (due, p) = should_fsync (planner e) in
      let e = e\<lparr>planner := p\<rparr> in
      if due then e\<lparr>pending := pending e @ [FsyncWork (last_ingested_lsn e)]\<rparr> else e)"

text \<open>How the iteration ends: wait for a completion, submit, or go on.\<close>

datatype park = ParkOnRing | SubmitOnly | GoOn

definition park_decision :: "wal_engine \<Rightarrow> bool \<Rightarrow> park" where
  "park_decision e is_need_submit =
     (if (out_of_spins e \<and> inflight e \<noteq> []) \<or> ring_is_full e then ParkOnRing
      else if is_need_submit then SubmitOnly
      else GoOn)"

text \<open>The system call at the end of the iteration; any error of a plain submission is fatal.\<close>

definition finish_turn :: "park \<Rightarrow> int option \<Rightarrow> unit outcome" where
  "finish_turn p err =
     (case p of
        ParkOnRing \<Rightarrow> submit_ring_and_park err
      | SubmitOnly \<Rightarrow> ensure ExplicitPanic (err = None)
      | GoOn \<Rightarrow> Inr ())"

text \<open>
  One iteration on a channel of batches: \<open>None\<close> while it blocks. \<open>cqes\<close> are the completions found
  after the submission.
\<close>

definition wal_turn ::
  "((nat \<times> io_work) list \<Rightarrow> nat) \<Rightarrow> nat \<Rightarrow> (nat \<times> int) list \<Rightarrow> (nat \<times> int option \<times> (nat \<times> int) list) list \<Rightarrow> bool \<Rightarrow> bool \<Rightarrow> dir_state
    \<Rightarrow> wal_engine \<Rightarrow> wal_msg list \<Rightarrow> (wal_engine \<times> dir_state \<times> wal_msg list \<times> (nat \<times> sqe) list \<times> park) option outcome" where
  "wal_turn vacant room cqes rounds fsync_ok open_ok dir e msgs =
     (case poll_channel_or_park e msgs of
        None \<Rightarrow> Inr None
      | Some (e, msgs', received) \<Rightarrow>
          obind (case received of
                   None \<Rightarrow> Inr (Some (e, dir))
                 | Some m \<Rightarrow> handle_msg vacant rounds fsync_ok open_ok dir e m) (\<lambda>q.
            case q of
              None \<Rightarrow> Inr None
            | Some (e, dir) \<Rightarrow>
                obind (handle_pending vacant room (plan_fsync e)) (\<lambda>(e, ss, moved).
                obind (reap_cqes e cqes) (\<lambda>e.
                  Inr (Some (e, dir, msgs', ss, park_decision e moved))))))"

end
