(* ===== verification/Wal_Durability.thy ===== *)
theory Wal_Durability
  imports Wal_Engine
begin

text \<open>
  Stage 3 together with the ring and the disk. The ring belongs to the kernel: what it does is a
  parameter, a relation between its states, and \<open>ring_contract\<close> states the documented behaviour
  that the engine relies on (one submitted entry completes at a time, an entry with the drain
  flag waits for all earlier ones and holds back all later ones, a write stores a prefix of
  its bytes and reports its length, a data sync makes everything written so far stable).
  The engine and the ring run interleaved in any order.
\<close>

section \<open>Bytes at positions of a file\<close>

type_synonym image = "nat \<rightharpoonup> u8"

definition region :: "nat \<Rightarrow> bytes \<Rightarrow> image" where
  "region off bs = (\<lambda>p. if off \<le> p \<and> p < off + length bs then Some (bs ! (p - off)) else None)"

lemma dom_region [simp]: "dom (region off bs) = {off..<off + length bs}"
  by (auto simp: region_def dom_def)

lemma region_Nil [simp]: "region off [] = Map.empty"
  by (auto simp: region_def)

lemma region_append: "region off (xs @ ys) = region off xs ++ region (off + length xs) ys"
proof
  fix p
  show "region off (xs @ ys) p = (region off xs ++ region (off + length xs) ys) p"
    by (auto simp: region_def map_add_def nth_append diff_diff_add split: option.splits)
qed

lemma region_append_le:
  "region off xs \<subseteq>\<^sub>m region off (xs @ ys)" "region (off + length xs) ys \<subseteq>\<^sub>m region off (xs @ ys)"
  by (auto simp: region_def map_le_def nth_append diff_diff_add)

text \<open>Two parts of one image agree, so adding one to the other only extends it.\<close>

lemma agree_add:
  assumes "a \<subseteq>\<^sub>m p" and "b \<subseteq>\<^sub>m p"
  shows "a ++ b \<subseteq>\<^sub>m p" "a \<subseteq>\<^sub>m a ++ b"
  using assms unfolding map_le_def map_add_def
  by (auto split: option.splits) (metis domI option.inject)+

lemma region_append_le_iff:
  "region off (xs @ ys) \<subseteq>\<^sub>m m \<longleftrightarrow> region off xs \<subseteq>\<^sub>m m \<and> region (off + length xs) ys \<subseteq>\<^sub>m m"
proof
  assume "region off (xs @ ys) \<subseteq>\<^sub>m m"
  then show "region off xs \<subseteq>\<^sub>m m \<and> region (off + length xs) ys \<subseteq>\<^sub>m m"
    using region_append_le map_le_trans by blast
next
  assume "region off xs \<subseteq>\<^sub>m m \<and> region (off + length xs) ys \<subseteq>\<^sub>m m"
  then show "region off (xs @ ys) \<subseteq>\<^sub>m m"
    unfolding region_append by (auto intro: agree_add)
qed

lemma region_take_add:
  "n \<le> length bs \<Longrightarrow>
   region off (take (n + k) bs) \<subseteq>\<^sub>m m \<longleftrightarrow>
     region off (take n bs) \<subseteq>\<^sub>m m \<and> region (off + n) (take k (drop n bs)) \<subseteq>\<^sub>m m"
  by (simp add: take_add region_append_le_iff min_absorb2)

section \<open>The ring\<close>

record ring_state =
  ring_sq :: "(nat \<times> sqe) list"
  ring_cq :: "(nat \<times> int) list"
  cache :: image
  stable :: image

fun is_drain :: "sqe \<Rightarrow> bool" where
  "is_drain (SqeFsyncDrain fd) = True"
| "is_drain _ = False"

text \<open>The i-th submitted entry completes with the given result.\<close>

definition completes :: "nat \<Rightarrow> int \<Rightarrow> ring_state \<Rightarrow> ring_state \<Rightarrow> bool" where
  "completes i res k k' \<longleftrightarrow>
     i < length (ring_sq k) \<and>
     (\<forall>j < i. \<not> is_drain (snd (ring_sq k ! j))) \<and> (is_drain (snd (ring_sq k ! i)) \<longrightarrow> i = 0) \<and>
     ring_sq k' = take i (ring_sq k) @ drop (Suc i) (ring_sq k) \<and>
     ring_cq k' = ring_cq k @ [(fst (ring_sq k ! i), res)] \<and>
     (case snd (ring_sq k ! i) of
        SqeWrite fd bs off \<Rightarrow>
          stable k' = stable k \<and>
          (if res < 0 then cache k' = cache k
           else nat res \<le> length bs \<and> cache k' = cache k ++ region (unat off) (take (nat res) bs))
      | SqeFsyncDrain fd \<Rightarrow> cache k' = cache k \<and> stable k' = (if res < 0 then stable k else cache k)
      | SqeUnlink path \<Rightarrow> cache k' = cache k \<and> stable k' = stable k)"

definition ring_contract :: "(ring_state \<Rightarrow> ring_state \<Rightarrow> bool) \<Rightarrow> bool" where
  "ring_contract kstep \<longleftrightarrow> (\<forall>k k'. kstep k k' \<longrightarrow> (\<exists>i res. completes i res k k'))"

text \<open>A ring that moreover never cuts a write short and never interrupts one.\<close>

definition full_writes :: "(ring_state \<Rightarrow> ring_state \<Rightarrow> bool) \<Rightarrow> bool" where
  "full_writes kstep \<longleftrightarrow>
     (\<forall>k k'. kstep k k' \<longrightarrow>
        (\<exists>i res. completes i res k k' \<and>
           (\<forall>fd bs off. snd (ring_sq k ! i) = SqeWrite fd bs off \<longrightarrow> res = int (length bs))))"

section \<open>The system\<close>

text \<open>
  \<open>base\<close> is the size of the segment file when it was opened, \<open>outs\<close> the encoded batches in the
  order they were received; both are history. \<open>cache\<close> and \<open>stable\<close> hold what this run wrote.
\<close>

record wal_system =
  eng :: wal_engine
  ker :: ring_state
  base :: nat
  outs :: "bytes list"

definition log_image :: "wal_system \<Rightarrow> image" where
  "log_image s = region (base s) (concat (outs s))"

text \<open>Where a batch's bytes belong: after all batches received before it.\<close>

definition in_log :: "wal_system \<Rightarrow> nat \<Rightarrow> bytes \<Rightarrow> bool" where
  "in_log s off bs \<longleftrightarrow>
     (\<exists>i < length (outs s). bs = outs s ! i \<and> off = base s + length (concat (take i (outs s))))"

text \<open>
  The batches stage 2 hands over when PUTs wait for durability: some PUT is unanswered, and
  GETs are answered already.
\<close>

definition awaits_durable :: "batch \<Rightarrow> bool" where
  "awaits_durable b \<longleftrightarrow>
     list_all (\<lambda>r. data r \<noteq> [] \<and> (kind r = Get \<longrightarrow> resp r = None)) (items b) \<and>
     list_ex (\<lambda>r. resp r \<noteq> None) (items b)"

inductive wal_step :: "(ring_state \<Rightarrow> ring_state \<Rightarrow> bool) \<Rightarrow> wal_system \<Rightarrow> wal_system \<Rightarrow> bool"
  for kstep :: "ring_state \<Rightarrow> ring_state \<Rightarrow> bool" where
  receive: "awaits_durable b \<Longrightarrow>
    encode_items (out b) (lsn_low b) (items b) = Inr (buf, lsn) \<Longrightarrow>
    unat (seg_offset (seg (eng s))) + length buf < 2 ^ 64 \<Longrightarrow>
    handle_batch (eng s) b = Inr e \<Longrightarrow>
    wal_step kstep s (s\<lparr>eng := e\<lparr>spin_budget := DEFAULT_SPIN_BUDGET\<rparr>, outs := outs s @ [buf]\<rparr>)"
| spin: "wal_step kstep s (s\<lparr>eng := (eng s)\<lparr>spin_budget := spin_budget (eng s) - 1\<rparr>\<rparr>)"
| plan: "wal_step kstep s (s\<lparr>eng := plan_fsync (eng s)\<rparr>)"
| submit: "\<forall>slab. vacant slab \<notin> set (map fst slab) \<Longrightarrow>
    handle_pending vacant room (eng s) = Inr (e, ss, moved) \<Longrightarrow>
    wal_step kstep s (s\<lparr>eng := e, ker := (ker s)\<lparr>ring_sq := ring_sq (ker s) @ ss\<rparr>\<rparr>)"
| reap: "reap_cqes (eng s) (ring_cq (ker s)) = Inr e \<Longrightarrow>
    wal_step kstep s (s\<lparr>eng := e, ker := (ker s)\<lparr>ring_cq := []\<rparr>\<rparr>)"
| kernel: "kstep (ker s) k \<Longrightarrow> wal_step kstep s (s\<lparr>ker := k\<rparr>)"

definition wal_start :: "wal_engine \<Rightarrow> wal_system" where
  "wal_start e = \<lparr>eng = e, ker = \<lparr>ring_sq = [], ring_cq = [], cache = Map.empty, stable = Map.empty\<rparr>,
     base = unat (seg_offset (seg e)), outs = []\<rparr>"

inductive wal_reach :: "(ring_state \<Rightarrow> ring_state \<Rightarrow> bool) \<Rightarrow> wal_system \<Rightarrow> wal_system \<Rightarrow> bool"
  for kstep :: "ring_state \<Rightarrow> ring_state \<Rightarrow> bool" where
  start: "wal_reach kstep s s"
| next_step: "wal_reach kstep s s' \<Longrightarrow> wal_step kstep s' s'' \<Longrightarrow> wal_reach kstep s s''"

section \<open>The invariant\<close>

definition op_ok :: "wal_system \<Rightarrow> io_work \<Rightarrow> bool" where
  "op_ok s work =
     (case work of
        WriteWork w \<Rightarrow>
          in_log s (unat (w_offset w)) (out (w_data w)) \<and> w_done w \<le> length (out (w_data w)) \<and>
          region (unat (w_offset w)) (take (w_done w) (out (w_data w))) \<subseteq>\<^sub>m cache (ker s) \<and>
          awaits_durable (w_data w)
      | _ \<Rightarrow> True)"

text \<open>A completion refers to an operation in flight, and the bytes it reports are in \<open>mem\<close>.\<close>

definition cqe_in :: "image \<Rightarrow> wal_engine \<Rightarrow> nat \<times> int \<Rightarrow> bool" where
  "cqe_in mem e c =
     (case map_of (inflight e) (fst c) of
        Some (WriteWork w) \<Rightarrow>
          0 \<le> snd c \<longrightarrow>
            w_done w + nat (snd c) \<le> length (out (w_data w)) \<and>
            region (unat (w_offset w)) (take (w_done w + nat (snd c)) (out (w_data w))) \<subseteq>\<^sub>m mem
      | Some _ \<Rightarrow> True
      | None \<Rightarrow> False)"

definition fsync_cqe :: "wal_engine \<Rightarrow> nat \<times> int \<Rightarrow> bool" where
  "fsync_cqe e c \<longleftrightarrow> (\<exists>l. map_of (inflight e) (fst c) = Some (FsyncWork l)) \<and> 0 \<le> snd c"

text \<open>Whatever completed before a data sync did is stable.\<close>

fun sync_ok :: "image \<Rightarrow> wal_engine \<Rightarrow> (nat \<times> int) list \<Rightarrow> bool" where
  "sync_ok mem e [] = True"
| "sync_ok mem e (c # cs) = ((list_ex (fsync_cqe e) cs \<longrightarrow> cqe_in mem e c) \<and> sync_ok mem e cs)"

definition safe :: "wal_system \<Rightarrow> image \<Rightarrow> batch \<Rightarrow> bool" where
  "safe s mem b \<longleftrightarrow> (\<exists>off. in_log s off (out b) \<and> region off (out b) \<subseteq>\<^sub>m mem)"

text \<open>A submitted entry is the one its operation in flight asks for.\<close>

definition sqe_for :: "wal_engine \<Rightarrow> nat \<times> sqe \<Rightarrow> bool" where
  "sqe_for e x \<longleftrightarrow>
     (\<exists>work. map_of (inflight e) (fst x) = Some work \<and> sqe_of work (seg_fd (seg e)) = Inr (snd x))"

definition ring_inv :: "wal_system \<Rightarrow> bool" where
  "ring_inv s \<longleftrightarrow>
     distinct (map fst (inflight (eng s))) \<and>
     distinct (map fst (ring_sq (ker s)) @ map fst (ring_cq (ker s))) \<and>
     list_all (sqe_for (eng s)) (ring_sq (ker s)) \<and>
     list_all (cqe_in (cache (ker s)) (eng s)) (ring_cq (ker s)) \<and>
     sync_ok (stable (ker s)) (eng s) (ring_cq (ker s))"

definition data_inv :: "wal_system \<Rightarrow> bool" where
  "data_inv s \<longleftrightarrow>
     unat (seg_offset (seg (eng s))) = base s + length (concat (outs s)) \<and>
     cache (ker s) \<subseteq>\<^sub>m log_image s \<and> stable (ker s) \<subseteq>\<^sub>m cache (ker s) \<and>
     list_all (op_ok s) (pending (eng s)) \<and> list_all (op_ok s) (map snd (inflight (eng s)))"

definition owed_to :: "batch list \<Rightarrow> (nat \<times> resp) list" where
  "owed_to bs = concat (map (\<lambda>b. concat (map response_of (items b))) bs)"

definition ack_inv :: "wal_system \<Rightarrow> bool" where
  "ack_inv s \<longleftrightarrow>
     level (ack (eng s)) = Durable \<and>
     list_all (\<lambda>b. safe s (cache (ker s)) b \<and> awaits_durable b) (awaiting_fsync (eng s)) \<and>
     (list_ex (fsync_cqe (eng s)) (ring_cq (ker s)) \<longrightarrow>
        list_all (safe s (stable (ker s))) (awaiting_fsync (eng s))) \<and>
     list_all (safe s (stable (ker s))) (finished (eng s)) \<and>
     replies (eng s) = owed_to (finished (eng s))"

definition wal_inv :: "wal_system \<Rightarrow> bool" where
  "wal_inv s \<longleftrightarrow> ring_inv s \<and> data_inv s \<and> ack_inv s"

section \<open>Monotonicity\<close>

text \<open>The log, the cache and the stable image only grow.\<close>

definition grows :: "wal_system \<Rightarrow> wal_system \<Rightarrow> bool" where
  "grows s s' \<longleftrightarrow>
     (\<forall>off bs. in_log s off bs \<longrightarrow> in_log s' off bs) \<and>
     cache (ker s) \<subseteq>\<^sub>m cache (ker s') \<and> stable (ker s) \<subseteq>\<^sub>m stable (ker s')"

lemma grows_same:
  "base s' = base s \<Longrightarrow> outs s' = outs s \<Longrightarrow> cache (ker s') = cache (ker s) \<Longrightarrow> stable (ker s') = stable (ker s) \<Longrightarrow>
   grows s s'"
  by (simp add: grows_def in_log_def)

lemma op_ok_grows: "op_ok s work \<Longrightarrow> grows s s' \<Longrightarrow> op_ok s' work"
  by (auto simp: op_ok_def grows_def intro: map_le_trans split: io_work.splits)

lemma safe_grows: "safe s mem b \<Longrightarrow> grows s s' \<Longrightarrow> mem \<subseteq>\<^sub>m mem' \<Longrightarrow> safe s' mem' b"
  unfolding safe_def grows_def by (meson map_le_trans)

lemma cqe_in_mono: "cqe_in mem e c \<Longrightarrow> mem \<subseteq>\<^sub>m mem' \<Longrightarrow> cqe_in mem' e c"
  by (auto simp: cqe_in_def intro: map_le_trans split: option.splits io_work.splits)

lemma sync_ok_mono: "sync_ok mem e cs \<Longrightarrow> mem \<subseteq>\<^sub>m mem' \<Longrightarrow> sync_ok mem' e cs"
  by (induction cs) (auto intro: cqe_in_mono)

lemma sync_ok_all: "list_all (cqe_in mem e) cs \<Longrightarrow> sync_ok mem e cs"
  by (induction cs) auto

lemma sync_ok_snoc:
  "sync_ok mem e (cs @ [c]) \<longleftrightarrow> (if fsync_cqe e c then list_all (cqe_in mem e) cs else sync_ok mem e cs)"
  by (induction cs) (auto intro: sync_ok_all)

text \<open>Completions are judged by the operations they refer to only.\<close>

lemma same_lookups:
  assumes "\<forall>c \<in> set cs. map_of (inflight e') (fst c) = map_of (inflight e) (fst c)"
  shows "sync_ok mem e' cs = sync_ok mem e cs \<and> list_all (cqe_in mem e') cs = list_all (cqe_in mem e) cs \<and>
         list_ex (fsync_cqe e') cs = list_ex (fsync_cqe e) cs"
  using assms by (induction cs) (auto simp: cqe_in_def fsync_cqe_def)

lemma in_log_region:
  assumes "in_log s off bs"
  shows "region off bs \<subseteq>\<^sub>m log_image s" "off + length bs \<le> base s + length (concat (outs s))"
proof -
  obtain i where i: "i < length (outs s)" "bs = outs s ! i" "off = base s + length (concat (take i (outs s)))"
    using assms by (auto simp: in_log_def)
  have "outs s = take i (outs s) @ [bs] @ drop (Suc i) (outs s)"
    using i by (simp add: id_take_nth_drop)
  then have split: "concat (outs s) = concat (take i (outs s)) @ bs @ concat (drop (Suc i) (outs s))"
    by (metis concat_append concat.simps append_Nil2)
  show "region off bs \<subseteq>\<^sub>m log_image s"
    unfolding log_image_def split i(3) using region_append_le map_le_trans by blast
  show "off + length bs \<le> base s + length (concat (outs s))"
    unfolding split i(3) by simp
qed

section \<open>Preservation by the ring\<close>

lemma sqe_of_write:
  assumes "sqe_of work fd = Inr (SqeWrite fd' bs off)"
  obtains w where "work = WriteWork w" "w_done w \<le> length (out (w_data w))"
    "bs = take (unat (as_u32 (length (out (w_data w)) - w_done w))) (drop (w_done w) (out (w_data w)))"
    "off = w_offset w + of_nat (w_done w)"
  using assms by (cases work) (auto simp: sqe_of_def slice_from_def Let_def split: if_splits)

lemma sqe_of_fsync: "sqe_of work fd = Inr (SqeFsyncDrain fd') \<Longrightarrow> \<exists>l. work = FsyncWork l"
  by (cases work) (auto simp: sqe_of_def slice_from_def Let_def split: if_splits)

lemma sqe_of_unlink: "sqe_of work fd = Inr (SqeUnlink path) \<Longrightarrow> \<exists>l. work = RemoveWork l"
  by (cases work) (auto simp: sqe_of_def slice_from_def Let_def split: if_splits)

lemma map_of_list_all: "list_all P (map snd xs) \<Longrightarrow> map_of xs k = Some v \<Longrightarrow> P v"
  using map_of_SomeD by (fastforce simp: list_all_iff)

text \<open>What the completion of a write adds to the cache.\<close>

lemma write_completion:
  assumes inv: "data_inv s" and op: "op_ok s (WriteWork w)"
    and res: "n \<le> length (out (w_data w)) - w_done w"
    and c: "c = cache (ker s) ++ region (unat (w_offset w + of_nat (w_done w))) (take n (drop (w_done w) (out (w_data w))))"
  shows "c \<subseteq>\<^sub>m log_image s" "cache (ker s) \<subseteq>\<^sub>m c"
    "region (unat (w_offset w)) (take (w_done w + n) (out (w_data w))) \<subseteq>\<^sub>m c"
proof -
  let ?o = "unat (w_offset w)" and ?out = "out (w_data w)" and ?d = "w_done w"
  have log: "in_log s ?o ?out" and d: "?d \<le> length ?out"
    and cached: "region ?o (take ?d ?out) \<subseteq>\<^sub>m cache (ker s)" using op by (simp_all add: op_ok_def)
  have "unat (seg_offset (seg (eng s))) = base s + length (concat (outs s))" using inv by (simp add: data_inv_def)
  then have "base s + length (concat (outs s)) < 2 ^ 64" using unat_u64_lt by metis
  then have "?o + ?d < 2 ^ 64" using in_log_region(2) [OF log] d by simp
  then have off: "unat (w_offset w + of_nat ?d) = ?o + ?d"
    by (simp add: unat_word_ariths unat_of_nat)
  have "region ?o (take (?d + n) ?out) \<subseteq>\<^sub>m region ?o ?out"
    using region_append_le(1) [of ?o "take (?d + n) ?out" "drop (?d + n) ?out"] by simp
  then have part: "region ?o (take (?d + n) ?out) \<subseteq>\<^sub>m log_image s"
    using in_log_region(1) [OF log] map_le_trans by blast
  then have new: "region (?o + ?d) (take n (drop ?d ?out)) \<subseteq>\<^sub>m log_image s"
    using region_take_add [OF d] by blast
  have cl: "cache (ker s) \<subseteq>\<^sub>m log_image s" using inv by (simp add: data_inv_def)
  show "c \<subseteq>\<^sub>m log_image s" "cache (ker s) \<subseteq>\<^sub>m c"
    unfolding c off using agree_add [OF cl new] by simp_all
  moreover have "region (?o + ?d) (take n (drop ?d ?out)) \<subseteq>\<^sub>m c" unfolding c off by (rule map_le_map_add)
  ultimately show "region ?o (take (?d + n) ?out) \<subseteq>\<^sub>m c"
    using region_take_add [OF d] cached map_le_trans by blast
qed

text \<open>
  A completion that leaves the stable image alone, and the completion of a data sync: what has
  to be shown of the new cache.
\<close>

lemma drop_entry:
  assumes "i < length xs"
  shows "set (take i xs @ drop (Suc i) xs) \<subseteq> set xs"
    "distinct (map fst xs @ ks) \<Longrightarrow>
     distinct (map fst (take i xs @ drop (Suc i) xs) @ ks @ [fst (xs ! i)])"
proof -
  let ?r = "take i xs @ drop (Suc i) xs"
  have xs: "xs = take i xs @ xs ! i # drop (Suc i) xs" using assms by (rule id_take_nth_drop)
  show "set ?r \<subseteq> set xs" by (auto dest: in_set_takeD in_set_dropD)
  have "mset (map fst ?r @ ks @ [fst (xs ! i)]) = mset (map fst xs @ ks)"
    by (subst (4) xs) simp
  then show "distinct (map fst xs @ ks) \<Longrightarrow> distinct (map fst ?r @ ks @ [fst (xs ! i)])"
    using mset_eq_imp_distinct_iff by blast
qed

lemma completion_inv:
  assumes inv: "wal_inv s" and i: "i < length (ring_sq (ker s))" "ring_sq (ker s) ! i = (key, q)"
    and sq: "ring_sq k = take i (ring_sq (ker s)) @ drop (Suc i) (ring_sq (ker s))"
    and cq: "ring_cq k = ring_cq (ker s) @ [(key, res)]"
    and grow: "cache (ker s) \<subseteq>\<^sub>m cache k" "stable (ker s) \<subseteq>\<^sub>m stable k" "stable k \<subseteq>\<^sub>m cache k" "cache k \<subseteq>\<^sub>m log_image s"
    and new: "cqe_in (cache k) (eng s) (key, res)"
    and sync: "fsync_cqe (eng s) (key, res) \<Longrightarrow> stable k = cache (ker s)"
  shows "wal_inv (s\<lparr>ker := k\<rparr>)"
proof -
  let ?e = "eng s" and ?k = "ker s" and ?s = "s\<lparr>ker := k\<rparr>"
  have ri: "ring_inv s" and di: "data_inv s" and ai: "ack_inv s" using inv by (simp_all add: wal_inv_def)
  have dist: "distinct (map fst (ring_sq ?k) @ map fst (ring_cq ?k))" using ri by (simp add: ring_inv_def)
  have base: "distinct (map fst (ring_sq k) @ map fst (ring_cq k))"
    using drop_entry(2) [OF i(1) dist] i(2) by (simp only: sq cq map_append) simp
  have sqs: "list_all (sqe_for ?e) (ring_sq k)"
    using ri drop_entry(1) [OF i(1)] by (auto simp only: ring_inv_def list_all_iff sq)
  have cqok: "list_all (cqe_in (cache ?k) ?e) (ring_cq ?k)" using ri by (simp add: ring_inv_def)
  have so: "sync_ok (stable ?k) ?e (ring_cq ?k)" using ri by (simp add: ring_inv_def)
  have g: "grows s ?s" using grow by (simp add: grows_def in_log_def)
  have "sync_ok (stable k) ?e (ring_cq k)"
    using sync cqok so grow(2) by (auto simp: cq sync_ok_snoc intro: sync_ok_mono)
  then have "ring_inv ?s"
    using base sqs ri new cqok grow(1) by (auto simp: ring_inv_def cq list_all_iff intro: cqe_in_mono)
  moreover have "data_inv ?s"
    using di grow g op_ok_grows by (auto simp: data_inv_def log_image_def list_all_iff)
  moreover have "ack_inv ?s"
    using ai g grow sync safe_grows [of s _ _ ?s]
    by (fastforce simp: ack_inv_def cq list_all_iff)
  ultimately show ?thesis by (simp add: wal_inv_def)
qed

text \<open>What the completion of a write puts into the cache.\<close>

lemma write_completes:
  assumes di: "data_inv s" and look: "map_of (inflight (eng s)) key = Some (WriteWork w)"
    and sqe: "sqe_of (WriteWork w) (seg_fd (seg (eng s))) = Inr (SqeWrite fd bs off)"
    and n: "nat res \<le> length bs" and c: "m = cache (ker s) ++ region (unat off) (take (nat res) bs)"
  shows "cache (ker s) \<subseteq>\<^sub>m m \<and> m \<subseteq>\<^sub>m log_image s \<and> cqe_in m (eng s) (key, res)"
proof -
  have ok: "op_ok s (WriteWork w)" using di look by (auto simp: data_inv_def intro: map_of_list_all)
  have w: "w_done w \<le> length (out (w_data w))" "off = w_offset w + of_nat (w_done w)"
    "bs = take (unat (as_u32 (length (out (w_data w)) - w_done w))) (drop (w_done w) (out (w_data w)))"
    using sqe_of_write [OF sqe] by auto
  have n': "nat res \<le> length (out (w_data w)) - w_done w" using n w(3) by simp
  have "nat res \<le> unat (as_u32 (length (out (w_data w)) - w_done w))" using n w(3) by simp
  then have "take (nat res) bs = take (nat res) (drop (w_done w) (out (w_data w)))" by (simp add: w(3) min_absorb1)
  then have c': "m = cache (ker s) ++ region (unat (w_offset w + of_nat (w_done w)))
      (take (nat res) (drop (w_done w) (out (w_data w))))" using c w(2) by simp
  note wc = write_completion [OF di ok n' c']
  have "w_done w + nat res \<le> length (out (w_data w))" using n' w(1) by linarith
  then show ?thesis using wc look by (auto simp: cqe_in_def)
qed

lemma kernel_preserves:
  assumes inv: "wal_inv s" and step: "completes i res (ker s) k"
  shows "wal_inv (s\<lparr>ker := k\<rparr>)"
proof -
  let ?e = "eng s" and ?k = "ker s"
  obtain key q where q: "ring_sq ?k ! i = (key, q)" by fastforce
  have i: "i < length (ring_sq ?k)" and sq: "ring_sq k = take i (ring_sq ?k) @ drop (Suc i) (ring_sq ?k)"
    and cq: "ring_cq k = ring_cq ?k @ [(key, res)]" using step q by (simp_all add: completes_def)
  have di: "data_inv s" using inv by (simp add: wal_inv_def)
  have "(key, q) \<in> set (ring_sq ?k)" using i q nth_mem by metis
  then obtain work where work: "map_of (inflight ?e) key = Some work" "sqe_of work (seg_fd (seg ?e)) = Inr q"
    using inv by (auto simp: wal_inv_def ring_inv_def list_all_iff sqe_for_def)
  have st: "stable ?k \<subseteq>\<^sub>m cache ?k" and cl: "cache ?k \<subseteq>\<^sub>m log_image s" using di by (simp_all add: data_inv_def)
  note finish = completion_inv [OF inv i q sq cq]
  show ?thesis
  proof (cases q)
    case (SqeWrite fd bs off)
    obtain w where w: "work = WriteWork w" using sqe_of_write work(2) SqeWrite by metis
    have nf: "\<not> fsync_cqe ?e (key, res)" and stk: "stable k = stable ?k"
      using work(1) w step q SqeWrite by (simp_all add: fsync_cqe_def completes_def)
    show ?thesis
    proof (cases "res < 0")
      case True
      then have "cache k = cache ?k" using step q SqeWrite by (simp add: completes_def)
      moreover have "cqe_in (cache ?k) ?e (key, res)" using True work(1) w by (simp add: cqe_in_def)
      ultimately show ?thesis using nf stk st cl by (intro finish) simp_all
    next
      case False
      then have "nat res \<le> length bs" "cache k = cache ?k ++ region (unat off) (take (nat res) bs)"
        using step q SqeWrite by (simp_all add: completes_def)
      from write_completes [OF di work(1) [unfolded w] _ this] work(2) w SqeWrite
      show ?thesis using nf stk st map_le_trans by (intro finish) auto
    qed
  next
    case (SqeFsyncDrain fd)
    obtain l where "work = FsyncWork l" using sqe_of_fsync work(2) SqeFsyncDrain by metis
    then have c: "cqe_in m ?e (key, res)" for m using work(1) by (simp add: cqe_in_def)
    have "cache k = cache ?k" "stable k = (if res < 0 then stable ?k else cache ?k)"
      using step q SqeFsyncDrain by (simp_all add: completes_def)
    then show ?thesis using c st cl by (intro finish) (auto simp: fsync_cqe_def)
  next
    case (SqeUnlink path)
    obtain l where l: "work = RemoveWork l" using sqe_of_unlink work(2) SqeUnlink by metis
    then have c: "cqe_in m ?e (key, res)" for m using work(1) by (simp add: cqe_in_def)
    have "cache k = cache ?k" "stable k = stable ?k" using step q SqeUnlink by (simp_all add: completes_def)
    then show ?thesis using c st cl l work(1) by (intro finish) (auto simp: fsync_cqe_def)
  qed
qed

section \<open>Preservation by the engine\<close>

text \<open>Changes of the engine that the invariant does not look at.\<close>

lemma wal_inv_frame:
  assumes "wal_inv s" and "inflight e = inflight (eng s)" "seg e = seg (eng s)" "ack e = ack (eng s)"
    "awaiting_fsync e = awaiting_fsync (eng s)" "replies e = replies (eng s)" "finished e = finished (eng s)"
    and "list_all (op_ok s) (pending e)"
  shows "wal_inv (s\<lparr>eng := e\<rparr>)"
proof -
  have g: "grows s (s\<lparr>eng := e\<rparr>)" by (rule grows_same) simp_all
  have look: "\<forall>c \<in> set cs. map_of (inflight e) (fst c) = map_of (inflight (eng s)) (fst c)" for cs :: "(nat \<times> int) list"
    by (simp add: assms(2))
  have "sqe_for e = sqe_for (eng s)" by (simp add: sqe_for_def assms fun_eq_iff)
  then have "ring_inv (s\<lparr>eng := e\<rparr>)"
    using assms(1) same_lookups [OF look] by (simp add: wal_inv_def ring_inv_def assms(2))
  moreover have "data_inv (s\<lparr>eng := e\<rparr>)"
    using assms op_ok_grows [OF _ g] by (auto simp: wal_inv_def data_inv_def log_image_def list_all_iff)
  moreover have "ack_inv (s\<lparr>eng := e\<rparr>)"
    using assms same_lookups [OF look] safe_grows [OF _ g map_le_refl]
    by (auto simp: wal_inv_def ack_inv_def list_all_iff)
  ultimately show ?thesis by (simp add: wal_inv_def)
qed

lemma plan_preserves: "wal_inv s \<Longrightarrow> wal_inv (s\<lparr>eng := plan_fsync (eng s)\<rparr>)"
  by (rule wal_inv_frame)
     (auto simp: plan_fsync_def Let_def case_prod_beta op_ok_def wal_inv_def data_inv_def)

lemma spin_preserves: "wal_inv s \<Longrightarrow> wal_inv (s\<lparr>eng := (eng s)\<lparr>spin_budget := n\<rparr>\<rparr>)"
  by (rule wal_inv_frame) (auto simp: wal_inv_def data_inv_def)

lemma receive_preserves:
  assumes inv: "wal_inv s" and b: "awaits_durable b"
    and enc: "encode_items (out b) (lsn_low b) (items b) = Inr (buf, lsn)"
    and fits: "unat (seg_offset (seg (eng s))) + length buf < 2 ^ 64"
    and step: "handle_batch (eng s) b = Inr e"
  shows "wal_inv (s\<lparr>eng := e, outs := outs s @ [buf]\<rparr>)"
proof -
  let ?e = "eng s" and ?s = "s\<lparr>eng := e, outs := outs s @ [buf]\<rparr>"
  let ?w = "io_write (b\<lparr>out := buf\<rparr>) (seg_offset (seg ?e))"
  have e: "e = ?e\<lparr>last_ingested_lsn := lsn_hi b,
        seg := (seg ?e)\<lparr>seg_offset := seg_offset (seg ?e) + of_nat (length buf)\<rparr>,
        planner := on_write_queued (of_nat (length buf)) (planner ?e), pending := pending ?e @ [?w]\<rparr>"
    using step enc by (auto simp: handle_batch_def advance_offset_def Let_def ensure_def split: if_splits)
  have off: "unat (seg_offset (seg ?e) + of_nat (length buf)) = unat (seg_offset (seg ?e)) + length buf"
    using fits by (simp add: unat_word_ariths unat_of_nat)
  have start: "unat (seg_offset (seg ?e)) = base s + length (concat (outs s))"
    using inv by (simp add: wal_inv_def data_inv_def)
  have g: "grows s ?s"
    unfolding grows_def in_log_def by (auto simp: nth_append intro: less_SucI)
  have li: "log_image s \<subseteq>\<^sub>m log_image ?s" by (simp add: log_image_def region_append_le)
  have "in_log ?s (unat (seg_offset (seg ?e))) buf"
    unfolding in_log_def start by (rule exI [of _ "length (outs s)"]) simp
  then have w: "op_ok ?s ?w" using b by (simp add: op_ok_def io_write_def awaits_durable_def)
  have look: "\<forall>c \<in> set cs. map_of (inflight e) (fst c) = map_of (inflight ?e) (fst c)" for cs :: "(nat \<times> int) list"
    by (simp add: e)
  have "sqe_for e = sqe_for ?e" by (simp add: sqe_for_def e fun_eq_iff)
  then have "ring_inv ?s" using inv same_lookups [OF look] by (simp add: wal_inv_def ring_inv_def) (simp add: e)
  moreover have "data_inv ?s"
    using inv w li start off op_ok_grows [OF _ g] map_le_trans
    by (auto simp: wal_inv_def data_inv_def list_all_iff e)
  moreover have "ack_inv ?s"
    using inv same_lookups [OF look] safe_grows [OF _ g map_le_refl]
    by (auto simp: wal_inv_def ack_inv_def list_all_iff) (auto simp: e)
  ultimately show ?thesis by (simp add: wal_inv_def)
qed

text \<open>Submitting one operation moves it from the queue into the slab and the ring.\<close>

lemma submit_one:
  assumes inv: "wal_inv s" and p: "pending (eng s) = work # rest"
    and key: "key \<notin> set (map fst (inflight (eng s)))" and q: "sqe_of work (seg_fd (seg (eng s))) = Inr q"
  shows "wal_inv (s\<lparr>eng := (eng s)\<lparr>pending := rest, inflight := inflight (eng s) @ [(key, work)]\<rparr>,
                   ker := (ker s)\<lparr>ring_sq := ring_sq (ker s) @ [(key, q)]\<rparr>\<rparr>)"
proof -
  let ?e = "(eng s)\<lparr>pending := rest, inflight := inflight (eng s) @ [(key, work)]\<rparr>"
  let ?k = "(ker s)\<lparr>ring_sq := ring_sq (ker s) @ [(key, q)]\<rparr>"
  let ?s = "s\<lparr>eng := ?e, ker := ?k\<rparr>"
  have g: "grows s ?s" by (rule grows_same) simp_all
  have ri: "ring_inv s" and di: "data_inv s" and ai: "ack_inv s" using inv by (simp_all add: wal_inv_def)
  have keep: "map_of (inflight ?e) k = map_of (inflight (eng s)) k" if "map_of (inflight (eng s)) k \<noteq> None" for k
    using that by (auto simp: map_add_def split: option.splits)
  have cqk: "map_of (inflight (eng s)) (fst c) \<noteq> None" if "c \<in> set (ring_cq (ker s))" for c
    using that ri by (auto simp: ring_inv_def list_all_iff cqe_in_def split: option.splits)
  have sqk: "map_of (inflight (eng s)) (fst x) \<noteq> None" if "x \<in> set (ring_sq (ker s))" for x
  proof -
    have "sqe_for (eng s) x" using that ri by (simp add: ring_inv_def list_all_iff)
    then show ?thesis unfolding sqe_for_def by (elim exE conjE) (simp only: option.distinct not_False_eq_True)
  qed
  have look: "\<forall>c \<in> set (ring_cq (ker s)). map_of (inflight ?e) (fst c) = map_of (inflight (eng s)) (fst c)"
    using keep cqk by blast
  have nk: "map_of (inflight (eng s)) key = None" using key by (simp add: map_of_eq_None_iff)
  have "key \<notin> fst ` set (ring_sq (ker s))" "key \<notin> fst ` set (ring_cq (ker s))"
    using nk sqk cqk by fastforce+
  moreover have "sqe_for ?e x" if "x \<in> set (ring_sq (ker s))" for x
    using that ri keep [OF sqk [OF that]] by (auto simp: ring_inv_def list_all_iff sqe_for_def)
  moreover have "sqe_for ?e (key, q)" using q nk by (simp add: sqe_for_def map_add_def)
  ultimately have "ring_inv ?s"
    using ri key same_lookups [OF look] by (auto simp: ring_inv_def list_all_iff simp del: map_of_append)
  moreover have "data_inv ?s"
    using di p op_ok_grows [OF _ g] by (auto simp: data_inv_def log_image_def list_all_iff)
  moreover have "ack_inv ?s"
    using ai same_lookups [OF look] safe_grows [OF _ g map_le_refl]
    by (auto simp: ack_inv_def list_all_iff)
  ultimately show ?thesis by (simp add: wal_inv_def)
qed

lemma submit_loop_preserves:
  "submit_loop vacant room (eng s) = Inr (e, ss) \<Longrightarrow> \<forall>slab. vacant slab \<notin> set (map fst slab) \<Longrightarrow> wal_inv s \<Longrightarrow>
   wal_inv (s\<lparr>eng := e, ker := (ker s)\<lparr>ring_sq := ring_sq (ker s) @ ss\<rparr>\<rparr>)"
proof (induction room arbitrary: s e ss)
  case 0
  then have "e = eng s" "ss = []" by auto
  then show ?case using "0.prems"(3) by simp
next
  case (Suc room)
  show ?case
  proof (cases "length (inflight (eng s)) < depth (eng s) \<and> pending (eng s) \<noteq> []")
    case False
    then have "e = eng s" "ss = []" using Suc.prems(1) by (auto split: list.splits if_splits)
    then show ?thesis using Suc.prems(3) by simp
  next
    case True
    then obtain work rest where p: "pending (eng s) = work # rest" by (cases "pending (eng s)") auto
    let ?key = "vacant (inflight (eng s))"
    let ?e = "(eng s)\<lparr>pending := rest, inflight := inflight (eng s) @ [(?key, work)]\<rparr>"
    obtain q ss' where q: "sqe_of work (seg_fd (seg (eng s))) = Inr q"
      and rec: "submit_loop vacant room ?e = Inr (e, ss')" and ss: "ss = (?key, q) # ss'"
      using Suc.prems(1) True p by (auto simp: obind_eq_Inr Let_def)
    let ?s = "s\<lparr>eng := ?e, ker := (ker s)\<lparr>ring_sq := ring_sq (ker s) @ [(?key, q)]\<rparr>\<rparr>"
    have "?key \<notin> set (map fst (inflight (eng s)))" using Suc.prems(2) by blast
    from submit_one [OF Suc.prems(3) p this q] have "wal_inv ?s" .
    from Suc.IH [of ?s e ss', OF _ Suc.prems(2) this] rec show ?thesis by (simp add: ss)
  qed
qed

lemma submit_preserves:
  assumes "handle_pending vacant room (eng s) = Inr (e, ss, moved)"
    and "\<forall>slab. vacant slab \<notin> set (map fst slab)" and "wal_inv s"
  shows "wal_inv (s\<lparr>eng := e, ker := (ker s)\<lparr>ring_sq := ring_sq (ker s) @ ss\<rparr>\<rparr>)"
  using assms submit_loop_preserves [of vacant room s e ss]
  by (auto simp: handle_pending_def obind_eq_Inr split: if_splits)

text \<open>Acknowledging: nothing leaves at \<open>Written\<close>, everything at \<open>Durable\<close>.\<close>

lemma advance_Written_awaits:
  assumes "level a = Durable" and b: "awaits_durable b"
  shows "advance a b Written = Inr (b, [])" "\<not> is_settled b"
proof -
  have *: "settle a Written r = r" "answered_at a Written r \<Longrightarrow> response_of r = []" if "r \<in> set (items b)" for r
    using assms that by (cases r; auto simp: awaits_durable_def list_all_iff settle_def answered_at_def response_of_def split: if_splits)+
  have "list_all (\<lambda>r. data r \<noteq> []) (items b)" using b by (auto simp: awaits_durable_def list_all_iff)
  moreover have "map (settle a Written) (items b) = items b" using * by (simp add: map_idI)
  moreover have "concat (map response_of (filter (answered_at a Written) (items b))) = []" using * by auto
  ultimately show "advance a b Written = Inr (b, [])" by (simp add: advance_eq)
  show "\<not> is_settled b" using b by (auto simp: awaits_durable_def is_settled_def list_all_iff list_ex_iff)
qed

lemma finish_awaiting_eq:
  "list_all (\<lambda>b. list_all (\<lambda>r. data r \<noteq> []) (items b)) bs \<Longrightarrow>
   finish_awaiting e bs =
     Inr (e\<lparr>replies := replies e @ owed_to bs, recycle_tx := recycle_tx e @ map (\<lambda>_. batch_new) bs,
            finished := finished e @ bs\<rparr>)"
proof (induction bs arbitrary: e)
  case Nil
  then show ?case by (simp add: owed_to_def)
next
  case (Cons b bs)
  have "filter (answered_at (ack e) Durable) (items b) = items b" by (simp add: filter_id_conv)
  then show ?case using Cons by (simp add: advance_eq owed_to_def)
qed

text \<open>Taking a completed operation out of the slab does not touch the others.\<close>

lemma reap_look:
  assumes "wal_inv s" and cq: "ring_cq (ker s) = c # cs"
  shows "\<forall>x \<in> set cs. map_of (inflight ((eng s)\<lparr>inflight := AList.delete (fst c) (inflight (eng s))\<rparr>)) (fst x) =
    map_of (inflight (eng s)) (fst x)"
proof
  fix x assume "x \<in> set cs"
  moreover have "fst c \<notin> fst ` set cs" using assms by (auto simp: wal_inv_def ring_inv_def)
  ultimately have "fst x \<noteq> fst c" by (metis imageI)
  then show "map_of (inflight ((eng s)\<lparr>inflight := AList.delete (fst c) (inflight (eng s))\<rparr>)) (fst x) =
    map_of (inflight (eng s)) (fst x)" by (simp add: delete_conv')
qed

lemma reap_remove:
  assumes inv: "wal_inv s" and cq: "ring_cq (ker s) = c # cs"
  shows "wal_inv (s\<lparr>eng := (eng s)\<lparr>inflight := AList.delete (fst c) (inflight (eng s))\<rparr>, ker := (ker s)\<lparr>ring_cq := cs\<rparr>\<rparr>)"
proof -
  let ?e = "(eng s)\<lparr>inflight := AList.delete (fst c) (inflight (eng s))\<rparr>"
  let ?s = "s\<lparr>eng := ?e, ker := (ker s)\<lparr>ring_cq := cs\<rparr>\<rparr>"
  have g: "grows s ?s" by (rule grows_same) simp_all
  have ri: "ring_inv s" and di: "data_inv s" and ai: "ack_inv s" using inv by (simp_all add: wal_inv_def)
  have other: "fst c \<notin> fst ` set (ring_sq (ker s))"
    using ri cq by (auto simp: ring_inv_def)
  have keep: "map_of (inflight ?e) k = map_of (inflight (eng s)) k" if "k \<noteq> fst c" for k
    using that by (simp add: delete_conv')
  note look = reap_look [OF inv cq]
  have sq: "sqe_for ?e x" if "x \<in> set (ring_sq (ker s))" for x
  proof -
    have "fst x \<noteq> fst c" using other that by (metis imageI)
    then have "map_of (inflight ?e) (fst x) = map_of (inflight (eng s)) (fst x)" by (rule keep)
    moreover have "sqe_for (eng s) x" using that ri by (simp add: ring_inv_def list_all_iff)
    ultimately show ?thesis unfolding sqe_for_def by simp
  qed
  have "ring_inv ?s"
    using ri cq sq same_lookups [OF look] by (simp add: ring_inv_def list_all_iff distinct_delete)
  moreover have "data_inv ?s"
    using di op_ok_grows [OF _ g] by (auto simp: data_inv_def log_image_def list_all_iff AList.delete_eq)
  moreover have "ack_inv ?s"
    using ai cq same_lookups [OF look] safe_grows [OF _ g map_le_refl]
    by (auto simp: ack_inv_def list_all_iff)
  ultimately show ?thesis by (simp add: wal_inv_def)
qed

text \<open>A batch whose write has completed joins those that wait for an fsync.\<close>

lemma await_preserves:
  assumes inv: "wal_inv s" and b: "safe s (cache (ker s)) b" "awaits_durable b"
    and fs: "list_ex (fsync_cqe (eng s)) (ring_cq (ker s)) \<longrightarrow> safe s (stable (ker s)) b"
  shows "wal_inv (s\<lparr>eng := (eng s)\<lparr>awaiting_fsync := awaiting_fsync (eng s) @ [b]\<rparr>\<rparr>)"
proof -
  let ?e = "(eng s)\<lparr>awaiting_fsync := awaiting_fsync (eng s) @ [b]\<rparr>"
  have g: "grows s (s\<lparr>eng := ?e\<rparr>)" by (rule grows_same) simp_all
  have look: "\<forall>c \<in> set cs. map_of (inflight ?e) (fst c) = map_of (inflight (eng s)) (fst c)" for cs :: "(nat \<times> int) list"
    by simp
  have "sqe_for ?e = sqe_for (eng s)" by (simp add: sqe_for_def fun_eq_iff)
  then have "ring_inv (s\<lparr>eng := ?e\<rparr>)"
    using inv same_lookups [OF look] by (simp add: wal_inv_def ring_inv_def)
  moreover have "data_inv (s\<lparr>eng := ?e\<rparr>)"
    using inv op_ok_grows [OF _ g] by (auto simp: wal_inv_def data_inv_def log_image_def list_all_iff)
  moreover have "ack_inv (s\<lparr>eng := ?e\<rparr>)"
    using inv b fs same_lookups [OF look] safe_grows [OF _ g map_le_refl]
    by (auto simp: wal_inv_def ack_inv_def list_all_iff)
  ultimately show ?thesis by (simp add: wal_inv_def)
qed

text \<open>The completion of a data sync answers the batches that waited.\<close>

lemma finish_preserves:
  assumes inv: "wal_inv s" and sf: "list_all (safe s (stable (ker s))) (awaiting_fsync (eng s))"
  shows "wal_inv (s\<lparr>eng := (eng s)\<lparr>awaiting_fsync := [], replies := replies (eng s) @ owed_to (awaiting_fsync (eng s)),
      recycle_tx := rt, finished := finished (eng s) @ awaiting_fsync (eng s), planner := p\<rparr>\<rparr>)"
proof -
  let ?e = "(eng s)\<lparr>awaiting_fsync := [], replies := replies (eng s) @ owed_to (awaiting_fsync (eng s)),
      recycle_tx := rt, finished := finished (eng s) @ awaiting_fsync (eng s), planner := p\<rparr>"
  have g: "grows s (s\<lparr>eng := ?e\<rparr>)" by (rule grows_same) simp_all
  have look: "\<forall>c \<in> set cs. map_of (inflight ?e) (fst c) = map_of (inflight (eng s)) (fst c)" for cs :: "(nat \<times> int) list"
    by simp
  have "sqe_for ?e = sqe_for (eng s)" by (simp add: sqe_for_def fun_eq_iff)
  then have "ring_inv (s\<lparr>eng := ?e\<rparr>)"
    using inv same_lookups [OF look] by (simp add: wal_inv_def ring_inv_def)
  moreover have "data_inv (s\<lparr>eng := ?e\<rparr>)"
    using inv op_ok_grows [OF _ g] by (auto simp: wal_inv_def data_inv_def log_image_def list_all_iff)
  moreover have "ack_inv (s\<lparr>eng := ?e\<rparr>)"
    using inv sf safe_grows [OF _ g map_le_refl]
    by (auto simp: wal_inv_def ack_inv_def list_all_iff owed_to_def)
  ultimately show ?thesis by (simp add: wal_inv_def)
qed

lemma eng_again: "(s\<lparr>eng := e', ker := k\<rparr>)\<lparr>eng := e\<rparr> = s\<lparr>eng := e, ker := k\<rparr>" for s :: wal_system
  by simp

text \<open>A write reported whole is in the cache, and stable when a completed data sync follows it.\<close>

lemma whole_write_safe:
  assumes inv: "wal_inv s" and cq: "ring_cq (ker s) = c # cs"
    and w: "map_of (inflight (eng s)) (fst c) = Some (WriteWork w)" and pos: "0 \<le> snd c"
    and whole: "length (out (w_data w)) \<le> w_done w + nat (snd c)" and log: "in_log s' (unat (w_offset w)) (out (w_data w))"
  shows "safe s' (cache (ker s)) (w_data w) \<and>
    (list_ex (fsync_cqe (eng s)) cs \<longrightarrow> safe s' (stable (ker s)) (w_data w))"
proof -
  have all: "take (w_done w + nat (snd c)) (out (w_data w)) = out (w_data w)" using whole by simp
  have "cqe_in (cache (ker s)) (eng s) c" "list_ex (fsync_cqe (eng s)) cs \<longrightarrow> cqe_in (stable (ker s)) (eng s) c"
    using inv cq by (simp_all add: wal_inv_def ring_inv_def)
  then show ?thesis using pos w log by (auto simp: cqe_in_def safe_def all)
qed

lemma reap_write_preserves:
  assumes inv: "wal_inv s" and cq: "ring_cq (ker s) = c # cs"
    and w: "map_of (inflight (eng s)) (fst c) = Some (WriteWork w)" and step: "reap_one (eng s) c = Inr e"
  shows "wal_inv (s\<lparr>eng := e, ker := (ker s)\<lparr>ring_cq := cs\<rparr>\<rparr>)"
proof -
  let ?e = "(eng s)\<lparr>inflight := AList.delete (fst c) (inflight (eng s))\<rparr>"
  let ?s = "s\<lparr>eng := ?e, ker := (ker s)\<lparr>ring_cq := cs\<rparr>\<rparr>"
  let ?out = "out (w_data w)" and ?n = "w_done w + nat (snd c)"
  have s: "wal_inv ?s" using reap_remove [OF inv cq] .
  have g: "grows s ?s" by (rule grows_same) simp_all
  have op: "op_ok s (WriteWork w)"
    using inv w by (auto simp: wal_inv_def data_inv_def intro: map_of_list_all)
  then have op': "op_ok ?s (WriteWork w)" using op_ok_grows [OF _ g] by blast
  have retry: "wal_inv (s\<lparr>eng := ?e\<lparr>planner := p, pending := work # pending ?e\<rparr>, ker := (ker s)\<lparr>ring_cq := cs\<rparr>\<rparr>)" if "op_ok ?s work" for work p
    using wal_inv_frame [OF s, of "?e\<lparr>planner := p, pending := work # pending ?e\<rparr>", unfolded eng_again] s that
    by (simp add: wal_inv_def data_inv_def)
  show ?thesis
  proof (cases "snd c < 0")
    case True
    then have "snd c = - EINTR \<or> snd c = - EAGAIN"
      using step w by (auto simp: reap_one_def complete_def split: if_splits)
    then show ?thesis using step w retry [OF op'] by (auto simp: reap_one_def complete_def Let_def)
  next
    case False
    then have ni: "\<not> (snd c = - EINTR \<or> snd c = - EAGAIN)" by (auto simp: EINTR_def EAGAIN_def)
    have "cqe_in (cache (ker s)) (eng s) c" using inv cq by (simp add: wal_inv_def ring_inv_def)
    then have n: "?n \<le> length ?out" "region (unat (w_offset w)) (take ?n ?out) \<subseteq>\<^sub>m cache (ker s)"
      using False w by (simp_all add: cqe_in_def)
    show ?thesis
    proof (cases "?n < length ?out")
      case True
      have "op_ok ?s (WriteWork (w\<lparr>w_done := ?n\<rparr>))" using op' n by (simp add: op_ok_def)
      from retry [OF this] show ?thesis
        using step w True False ni by (auto simp: reap_one_def complete_def Let_def)
    next
      case full: False
      have lv: "level (ack ?e) = Durable" using inv by (simp add: wal_inv_def ack_inv_def)
      have b: "awaits_durable (w_data w)" and il: "in_log ?s (unat (w_offset w)) ?out"
        using op' by (simp_all add: op_ok_def)
      have "list_ex (fsync_cqe (eng ?s)) (ring_cq (ker ?s)) = list_ex (fsync_cqe (eng s)) cs"
        using same_lookups [OF reap_look [OF inv cq]] by simp
      with whole_write_safe [OF inv cq w _ _ il] full False
      have "wal_inv (s\<lparr>eng := ?e\<lparr>awaiting_fsync := awaiting_fsync ?e @ [w_data w]\<rparr>, ker := (ker s)\<lparr>ring_cq := cs\<rparr>\<rparr>)"
        using await_preserves [OF s, of "w_data w", unfolded eng_again] b by simp
      then show ?thesis
        using step w full False ni advance_Written_awaits [OF lv b]
        by (simp add: reap_one_def complete_def Let_def)
    qed
  qed
qed

lemma reap_one_preserves:
  assumes inv: "wal_inv s" and cq: "ring_cq (ker s) = c # cs" and step: "reap_one (eng s) c = Inr e"
  shows "wal_inv (s\<lparr>eng := e, ker := (ker s)\<lparr>ring_cq := cs\<rparr>\<rparr>)"
proof -
  let ?e = "(eng s)\<lparr>inflight := AList.delete (fst c) (inflight (eng s))\<rparr>"
  let ?s = "s\<lparr>eng := ?e, ker := (ker s)\<lparr>ring_cq := cs\<rparr>\<rparr>"
  have s: "wal_inv ?s" using reap_remove [OF inv cq] .
  have g: "grows s ?s" by (rule grows_same) simp_all
  obtain work where w: "map_of (inflight (eng s)) (fst c) = Some work"
    using step by (auto simp: reap_one_def split: option.splits)
  show ?thesis
  proof (cases work)
    case (WriteWork wo)
    then show ?thesis using reap_write_preserves [OF inv cq _ step] w by simp
  next
    case (FsyncWork l)
    have res: "0 \<le> snd c" using step w FsyncWork by (auto simp: reap_one_def complete_def split: if_splits)
    have "fsync_cqe (eng s) c" using w FsyncWork res by (simp add: fsync_cqe_def)
    then have "list_all (safe s (stable (ker s))) (awaiting_fsync (eng s))"
      using inv cq by (simp add: wal_inv_def ack_inv_def)
    then have sf: "list_all (safe ?s (stable (ker ?s))) (awaiting_fsync (eng ?s))"
      using safe_grows [OF _ g map_le_refl] by (auto simp: list_all_iff)
    have "list_all (\<lambda>b. list_all (\<lambda>r. data r \<noteq> []) (items b)) (awaiting_fsync (eng s))"
      using inv by (auto simp: wal_inv_def ack_inv_def list_all_iff awaits_durable_def)
    then have e: "e = ?e\<lparr>awaiting_fsync := [], replies := replies ?e @ owed_to (awaiting_fsync ?e),
        recycle_tx := recycle_tx ?e @ map (\<lambda>_. batch_new) (awaiting_fsync ?e),
        finished := finished ?e @ awaiting_fsync ?e, planner := on_fsync_completed (planner ?e)\<rparr>"
      using step w FsyncWork res by (simp add: reap_one_def complete_def Let_def finish_awaiting_eq)
    show ?thesis
      using finish_preserves [OF s sf, where rt = "recycle_tx ?e @ map (\<lambda>_. batch_new) (awaiting_fsync ?e)"
          and p = "on_fsync_completed (planner ?e)", unfolded eng_again]
      unfolding e by simp
  next
    case (RemoveWork path)
    then show ?thesis using s step w by (simp add: reap_one_def complete_def Let_def)
  qed
qed

lemma reap_cqes_preserves:
  "reap_cqes (eng s) cqes = Inr e \<Longrightarrow> ring_cq (ker s) = cqes \<Longrightarrow> wal_inv s \<Longrightarrow>
   wal_inv (s\<lparr>eng := e, ker := (ker s)\<lparr>ring_cq := []\<rparr>\<rparr>)"
proof (induction cqes arbitrary: s)
  case Nil
  then have "(ker s)\<lparr>ring_cq := []\<rparr> = ker s" "eng s = e" by (cases "ker s", simp_all)
  then have "s\<lparr>eng := e, ker := (ker s)\<lparr>ring_cq := []\<rparr>\<rparr> = s" by simp
  then show ?case using Nil.prems(3) by simp
next
  case (Cons c cs)
  obtain e1 where e1: "reap_one (eng s) c = Inr e1" "reap_cqes e1 cs = Inr e"
    using Cons.prems(1) by (auto simp: obind_eq_Inr)
  let ?s = "s\<lparr>eng := e1, ker := (ker s)\<lparr>ring_cq := cs\<rparr>\<rparr>"
  have "wal_inv ?s" using reap_one_preserves [OF Cons.prems(3,2) e1(1)] .
  from Cons.IH [of ?s, OF _ _ this] e1(2) show ?case by simp
qed

lemma wal_step_preserves:
  assumes "wal_step kstep s s'" and "ring_contract kstep" and inv: "wal_inv s"
  shows "wal_inv s'"
  using assms(1)
proof cases
  case (receive b buf lsn e)
  have "s' = (s\<lparr>eng := e, outs := outs s @ [buf]\<rparr>)\<lparr>eng := e\<lparr>spin_budget := DEFAULT_SPIN_BUDGET\<rparr>\<rparr>"
    using receive(1) by simp
  then show ?thesis
    using spin_preserves [OF receive_preserves [OF inv receive(2-5)], of DEFAULT_SPIN_BUDGET] by simp
next
  case spin
  then show ?thesis using spin_preserves [OF inv] by simp
next
  case plan
  then show ?thesis using plan_preserves [OF inv] by simp
next
  case (submit vacant room e ss moved)
  then show ?thesis using submit_preserves inv by blast
next
  case (reap e)
  then show ?thesis using reap_cqes_preserves inv by blast
next
  case (kernel k)
  then obtain i res where "completes i res (ker s) k" using assms(2) unfolding ring_contract_def by blast
  then show ?thesis using kernel_preserves [OF inv] kernel(1) by simp
qed

section \<open>Starting up\<close>

lemma wal_engine_new_fields:
  assumes "wal_engine_new ring_ok open_ok n dir l m a = Inr (e, dir')"
  shows "pending e = [] \<and> inflight e = [] \<and> awaiting_fsync e = [] \<and> replies e = [] \<and> finished e = [] \<and>
         ack e = a \<and> depth e = n \<and> last_ingested_lsn e = l \<and> planner e = planner_new (cadence_of_mode m) \<and>
         seg_fd (seg e) = segment_path l \<and> seg_start_lsn (seg e) = l \<and> spin_budget e = DEFAULT_SPIN_BUDGET"
  using assms
  by (auto simp: wal_engine_new_def obind_eq_Inr segment_open_def Let_def split: if_splits)

lemma wal_inv_start:
  assumes "wal_engine_new ring_ok open_ok n dir l Sync (acker_new Sync) = Inr (e, dir')"
  shows "wal_inv (wal_start e)"
  using wal_engine_new_fields [OF assms]
  by (simp add: wal_inv_def ring_inv_def data_inv_def ack_inv_def wal_start_def acker_new_def owed_to_def)

lemma wal_inv_reach:
  "wal_reach kstep s s' \<Longrightarrow> ring_contract kstep \<Longrightarrow> wal_inv s \<Longrightarrow> wal_inv s'"
  by (induction rule: wal_reach.induct) (auto intro: wal_step_preserves)

section \<open>A complete run\<close>

text \<open>
  The ring that completes every write whole, in any order the contract allows, a slab, and the
  run of one batch from its arrival to its acknowledgement.
\<close>

definition whole_ring :: "ring_state \<Rightarrow> ring_state \<Rightarrow> bool" where
  "whole_ring k k' \<longleftrightarrow>
     (\<exists>i res. completes i res k k' \<and>
        (\<forall>fd bs off. snd (ring_sq k ! i) = SqeWrite fd bs off \<longrightarrow> res = int (length bs)))"

definition next_key :: "(nat \<times> io_work) list \<Rightarrow> nat" where
  "next_key slab = Suc (sum_list (map fst slab))"

lemma whole_ring_contract: "ring_contract whole_ring" "full_writes whole_ring"
  by (auto simp: ring_contract_def full_writes_def whole_ring_def)

lemma next_key_vacant: "\<forall>slab. next_key slab \<notin> set (map fst slab)"
  using member_le_sum_list by (fastforce simp: next_key_def)

lemma should_fsync_first:
  "cadence p = Consistently \<Longrightarrow> \<not> flush_running p \<Longrightarrow> dirty_bytes p \<noteq> 0 \<Longrightarrow>
   should_fsync p = (True, p\<lparr>dirty_bytes := 0, flush_running := True\<rparr>)"
  by (simp add: should_fsync_def)

lemma of_nat_u64_nonzero: "0 < n \<Longrightarrow> n < 2 ^ 64 \<Longrightarrow> (of_nat n :: u64) \<noteq> 0"
  by (simp add: word_unat_eq_iff unat_of_nat)

lemma one_batch_submitted:
  assumes new: "wal_engine_new ring_ok open_ok depth_n dir l Sync (acker_new Sync) = Inr (e, dir')"
    and depth: "2 \<le> depth_n" and b: "awaits_durable b" "lsn_low b = l"
    and enc: "encode_items (out b) l (items b) = Inr (buf, lsn)" and buf: "buf \<noteq> []" "length buf < 2 ^ 31"
    and room: "unat (seg_offset (seg e)) + length buf < 2 ^ 64"
  shows "\<exists>s. wal_reach whole_ring (wal_start e) s \<and> outs s = [buf] \<and>
    ker s = \<lparr>ring_sq = [(1, SqeWrite (seg_fd (seg e)) buf (seg_offset (seg e))), (2, SqeFsyncDrain (seg_fd (seg e)))],
             ring_cq = [], cache = Map.empty, stable = Map.empty\<rparr> \<and>
    pending (eng s) = [] \<and> ack (eng s) = acker_new Sync \<and> awaiting_fsync (eng s) = [] \<and> finished (eng s) = [] \<and>
    (\<exists>l'. inflight (eng s) = [(1, io_write (b\<lparr>out := buf\<rparr>) (seg_offset (seg e))), (2, FsyncWork l')])"
proof -
  note e = wal_engine_new_fields [OF new]
  let ?b = "b\<lparr>out := buf\<rparr>" and ?off = "seg_offset (seg e)"
  let ?w = "io_write ?b ?off" and ?q = "SqeWrite (seg_fd (seg e)) buf ?off"
  have n64: "(of_nat (length buf) :: u64) \<noteq> 0" using buf by (intro of_nat_u64_nonzero) simp_all
  obtain e1 where e1: "handle_batch e b = Inr e1" and f1: "pending e1 = [?w]" "inflight e1 = []"
    "planner e1 = on_write_queued (of_nat (length buf)) (planner_new Consistently)" "depth e1 = depth_n"
    "awaiting_fsync e1 = []" "finished e1 = []" "ack e1 = acker_new Sync" "seg_fd (seg e1) = seg_fd (seg e)"
    using e b enc by (simp add: handle_batch_def Let_def advance_offset_def)
  let ?s1 = "(wal_start e)\<lparr>eng := e1\<lparr>spin_budget := DEFAULT_SPIN_BUDGET\<rparr>, outs := [buf]\<rparr>"
  have s1: "wal_step whole_ring (wal_start e) ?s1"
    using wal_step.receive [of b buf lsn "wal_start e" e1 whole_ring] b enc room e1 by (simp add: wal_start_def)
  let ?e2 = "plan_fsync (eng ?s1)" and ?s2 = "?s1\<lparr>eng := plan_fsync (eng ?s1)\<rparr>"
  have s2: "wal_step whole_ring ?s1 ?s2" by (rule wal_step.plan)
  have f2: "pending ?e2 = [?w, FsyncWork (last_ingested_lsn e1)]" "inflight ?e2 = []" "depth ?e2 = depth_n"
    "awaiting_fsync ?e2 = []" "finished ?e2 = []" "ack ?e2 = acker_new Sync" "seg_fd (seg ?e2) = seg_fd (seg e)"
    using n64 f1 by (simp_all add: plan_fsync_def should_fsync_first on_write_queued_def planner_new_def)
  have q: "sqe_of ?w (seg_fd (seg e)) = Inr ?q"
    using buf(2) by (simp add: sqe_of_def io_write_def slice_from_def unat_as_u32)
  let ?e3 = "?e2\<lparr>pending := [], inflight := [(1, ?w), (2, FsyncWork (last_ingested_lsn e1))]\<rparr>"
  let ?ss = "[(1, ?q), (2, SqeFsyncDrain (seg_fd (seg e)))]"
  have "submit_loop next_key 2 ?e2 = Inr (?e3, ?ss)"
    using f2 q depth by (simp add: numeral_2_eq_2 next_key_def sqe_of_def [of "FsyncWork _"] Let_def)
  then have hp: "handle_pending next_key 2 (eng ?s2) = Inr (?e3, ?ss, True)"
    using f2 by (simp add: handle_pending_def)
  let ?s3 = "?s2\<lparr>eng := ?e3, ker := (ker ?s2)\<lparr>ring_sq := ring_sq (ker ?s2) @ ?ss\<rparr>\<rparr>"
  have s3: "wal_step whole_ring ?s2 ?s3" by (rule wal_step.submit [OF next_key_vacant hp])
  have "wal_reach whole_ring (wal_start e) ?s3"
    using wal_reach.start s1 s2 s3 by (meson wal_reach.next_step)
  then show ?thesis
    by (rule exI [of _ ?s3, OF conjI]) (use f2 in \<open>simp add: wal_start_def\<close>)
qed

lemma one_batch_run:
  assumes new: "wal_engine_new ring_ok open_ok depth_n dir l Sync (acker_new Sync) = Inr (e, dir')"
    and depth: "2 \<le> depth_n" and b: "awaits_durable b" "lsn_low b = l"
    and enc: "encode_items (out b) l (items b) = Inr (buf, lsn)" and buf: "buf \<noteq> []" "length buf < 2 ^ 31"
    and room: "unat (seg_offset (seg e)) + length buf < 2 ^ 64"
  shows "\<exists>s. wal_reach whole_ring (wal_start e) s \<and> finished (eng s) = [b\<lparr>out := buf\<rparr>] \<and> outs s = [buf]"
proof -
  let ?b = "b\<lparr>out := buf\<rparr>" and ?off = "seg_offset (seg e)" and ?f = "SqeFsyncDrain (seg_fd (seg e))"
  let ?w = "io_write ?b ?off" and ?img = "region (unat (seg_offset (seg e))) buf"
  obtain s l' where s: "wal_reach whole_ring (wal_start e) s" "outs s = [buf]"
    and k: "ker s = \<lparr>ring_sq = [(1, SqeWrite (seg_fd (seg e)) buf ?off), (2, ?f)],
      ring_cq = [], cache = Map.empty, stable = Map.empty\<rparr>"
    and f: "pending (eng s) = []" "ack (eng s) = acker_new Sync" "awaiting_fsync (eng s) = []" "finished (eng s) = []"
      "inflight (eng s) = [(1, ?w), (2, FsyncWork l')]"
    using one_batch_submitted [OF assms] by blast
  let ?k4 = "\<lparr>ring_sq = [(2, ?f)], ring_cq = [(1, int (length buf))], cache = ?img, stable = Map.empty\<rparr>"
  let ?k5 = "\<lparr>ring_sq = [], ring_cq = [(1, int (length buf)), (2, 0)], cache = ?img, stable = ?img\<rparr>"
  have "whole_ring (ker s) ?k4" unfolding k whole_ring_def
    by (intro exI [of _ 0] exI [of _ "int (length buf)"]) (simp add: completes_def)
  then have s4: "wal_step whole_ring s (s\<lparr>ker := ?k4\<rparr>)" by (rule wal_step.kernel)
  have "whole_ring ?k4 ?k5" unfolding whole_ring_def
    by (intro exI [of _ 0]) (simp add: completes_def)
  then have s5: "wal_step whole_ring (s\<lparr>ker := ?k4\<rparr>) (s\<lparr>ker := ?k5\<rparr>)"
    using wal_step.kernel [of whole_ring "s\<lparr>ker := ?k4\<rparr>" ?k5] by simp
  have lv: "level (acker_new Sync) = Durable" by (simp add: acker_new_def)
  have ab: "awaits_durable ?b" using b(1) by (simp add: awaits_durable_def)
  have ne: "list_all (\<lambda>r. data r \<noteq> []) (items ?b)" using ab by (auto simp: awaits_durable_def list_all_iff)
  have c1: "complete ?w (int (length buf)) = VerdictOk (Some ?b)"
    by (simp add: complete_def io_write_def EINTR_def EAGAIN_def)
  let ?e4 = "(eng s)\<lparr>inflight := [(2, FsyncWork l')], awaiting_fsync := [?b]\<rparr>"
  have r1: "reap_one (eng s) (1, int (length buf)) = Inr ?e4"
    using f c1 advance_Written_awaits [OF lv ab] by (simp add: reap_one_def Let_def)
  obtain e5 where r2: "reap_one ?e4 (2, 0) = Inr e5" and f5: "finished e5 = [?b]"
    using f ne by (simp add: reap_one_def Let_def complete_def finish_awaiting_eq del: finish_awaiting.simps)
  have "reap_cqes (eng (s\<lparr>ker := ?k5\<rparr>)) (ring_cq (ker (s\<lparr>ker := ?k5\<rparr>))) = Inr e5"
    using r1 r2 by simp
  from wal_step.reap [OF this] obtain s6 where s6: "wal_step whole_ring (s\<lparr>ker := ?k5\<rparr>) s6"
    and "eng s6 = e5" "outs s6 = [buf]" using s(2) by fastforce
  moreover have "wal_reach whole_ring (wal_start e) s6"
    using s(1) s4 s5 s6 by (meson wal_reach.next_step)
  ultimately show ?thesis using f5 by auto
qed

text \<open>An empty data directory, and a batch of one PUT as stage 2 hands it over.\<close>

definition empty_dir :: dir_state where
  "empty_dir = \<lparr>dir_exists = True, mkdir_ok = True, readdir_ok = True, readable = (\<lambda>_. True), entries = []\<rparr>"

definition put_batch :: "u64 \<Rightarrow> batch" where
  "put_batch l =
     \<lparr>items = [\<lparr>data = req_body Put [1] [7], reply = 3, resp = Some Ok\<rparr>], out = [], lsn_low = l, lsn_hi = l + 1\<rparr>"

lemma put_batch_simps [simp]:
  "out (put_batch l) = []" "lsn_low (put_batch l) = l" "lsn_hi (put_batch l) = l + 1"
  "concat (map response_of (items (put_batch l))) = [(3, Ok)]"
  by (simp_all add: put_batch_def response_of_def)

lemma put_batch_facts:
  "awaits_durable (put_batch l)"
  "encode_items [] l (items (put_batch l)) = Inr (record_bytes (l + 1, req_body Put [1] [7]), l + 1)"
proof -
  have "kind (hd (items (put_batch l))) = Put" by (simp add: put_batch_def kind_def req_body_def)
  then show "awaits_durable (put_batch l)" by (simp add: awaits_durable_def put_batch_def) (simp add: req_body_def)
  have "req_op (hd (items (put_batch l))) = Inr Put" by (simp add: put_batch_def req_op_def wire_op_req_body)
  then show "encode_items [] l (items (put_batch l)) = Inr (record_bytes (l + 1, req_body Put [1] [7]), l + 1)"
    by (simp add: put_batch_def encode_record_append)
qed

lemma record_bytes_not_Nil [simp]: "record_bytes x \<noteq> []"
proof -
  have "0 < length (record_bytes (fst x, snd x))" unfolding length_record_bytes by simp
  then show ?thesis by auto
qed

lemma one_put_run:
  "\<exists>e dir' s. wal_engine_new True True 128 empty_dir 1 Sync (acker_new Sync) = Inr (e, dir') \<and>
     wal_reach whole_ring (wal_start e) s \<and>
     finished (eng s) = [(put_batch 1)\<lparr>out := record_bytes (2, req_body Put [1] [7])\<rparr>] \<and>
     outs s = [record_bytes (2, req_body Put [1] [7])]"
proof -
  let ?buf = "record_bytes (2, req_body Put [1] [7])"
  obtain e dir' where new: "wal_engine_new True True 128 empty_dir 1 Sync (acker_new Sync) = Inr (e, dir')"
    and off: "unat (seg_offset (seg e)) = 0"
    by (simp add: wal_engine_new_def segment_open_def Let_def empty_dir_def)
  have len: "length ?buf = 27" by simp
  show ?thesis
    using one_batch_run [OF new, of "put_batch 1" ?buf 2] put_batch_facts [of 1] off len new by auto
qed

section \<open>Properties\<close>

text \<open>
  C2. In mode \<open>Sync\<close> an acknowledged write is on stable storage. In every state that engine and
  ring can reach, whatever the interleaving, the short writes and the interruptions, the
  responses stage 3 has sent are exactly those of the batches it has let go, and the records of
  each such batch lie, complete and at their place in the log, in the stable part of the file.
\<close>

theorem sync_ack_durable:
  assumes "ring_contract kstep"
    and "wal_engine_new ring_ok open_ok n dir l Sync (acker_new Sync) = Inr (e, dir')"
    and "wal_reach kstep (wal_start e) s"
  shows "replies (eng s) = concat (map (\<lambda>b. concat (map response_of (items b))) (finished (eng s))) \<and>
         (\<forall>b \<in> set (finished (eng s)). \<exists>off. in_log s off (out b) \<and> region off (out b) \<subseteq>\<^sub>m stable (ker s))"
  using wal_inv_reach [OF assms(3,1) wal_inv_start [OF assms(2)]]
  by (auto simp: wal_inv_def ack_inv_def owed_to_def list_all_iff safe_def)

theorem sync_ack_durable_witness:
  "\<exists>e dir' s. wal_engine_new True True 128 empty_dir 1 Sync (acker_new Sync) = Inr (e, dir') \<and>
     wal_reach whole_ring (wal_start e) s \<and> replies (eng s) = [(3, Ok)] \<and>
     (\<exists>off. region off (record_bytes (2, req_body Put [1] [7])) \<subseteq>\<^sub>m stable (ker s))"
proof -
  obtain e dir' s where s: "wal_engine_new True True 128 empty_dir 1 Sync (acker_new Sync) = Inr (e, dir')"
    "wal_reach whole_ring (wal_start e) s"
    "finished (eng s) = [(put_batch 1)\<lparr>out := record_bytes (2, req_body Put [1] [7])\<rparr>]"
    using one_put_run by blast
  from sync_ack_durable [OF whole_ring_contract(1) s(1,2)] show ?thesis
    using s by auto
qed

end
