(* ===== verification/Wal_Prefix.thy ===== *)
theory Wal_Prefix
  imports Wal_Durability
begin

text \<open>
  What a power loss leaves of the log. When the ring never cuts a write short, the stable part of
  the file is at all times a prefix of the log, although the ring completes writes out of
  order: a data sync is a barrier. When a write is cut short or interrupted, this fails, and a
  batch can be acknowledged behind a hole.
\<close>

section \<open>The order of outstanding writes\<close>

text \<open>
  The outstanding operations in the order in which they reach the file: first those in the
  ring, then those still queued. A write is the range it fills, a data sync is \<open>None\<close>.
\<close>

fun sqe_span :: "sqe \<Rightarrow> (nat \<times> nat) option" where
  "sqe_span (SqeWrite fd bs off) = Some (unat off, length bs)"
| "sqe_span _ = None"

fun work_span :: "io_work \<Rightarrow> (nat \<times> nat) option" where
  "work_span (WriteWork w) = Some (unat (w_offset w) + w_done w, length (out (w_data w)) - w_done w)"
| "work_span _ = None"

definition trail :: "wal_system \<Rightarrow> (nat \<times> nat) option list" where
  "trail s = map (sqe_span \<circ> snd) (ring_sq (ker s)) @ map work_span (pending (eng s))"

fun spans :: "'a option list \<Rightarrow> 'a list" where
  "spans [] = []"
| "spans (None # t) = spans t"
| "spans (Some x # t) = x # spans t"

definition span_before :: "nat \<times> nat \<Rightarrow> nat \<times> nat \<Rightarrow> bool" where
  "span_before x y \<longleftrightarrow> fst x + snd x \<le> fst y"

definition span_set :: "nat \<times> nat \<Rightarrow> nat set" where
  "span_set x = {fst x..<fst x + snd x}"

text \<open>No byte of the file lies beyond the start of a write that a data sync holds back.\<close>

fun barrier_ok :: "nat set \<Rightarrow> (nat \<times> nat) option list \<Rightarrow> bool" where
  "barrier_ok D [] = True"
| "barrier_ok D (None # t) = (\<forall>x \<in> set (spans t). D \<subseteq> {..<fst x})"
| "barrier_ok D (Some _ # t) = barrier_ok D t"

lemma spans_append [simp]: "spans (xs @ ys) = spans xs @ spans ys"
  by (induction xs rule: spans.induct) auto

lemma barrier_ok_all: "\<forall>x \<in> set (spans t). D \<subseteq> {..<fst x} \<Longrightarrow> barrier_ok D t"
  by (induction D t rule: barrier_ok.induct) auto

lemma barrier_ok_snoc:
  "barrier_ok D (t @ [None]) = barrier_ok D t"
  "D \<subseteq> {..<fst x} \<Longrightarrow> barrier_ok D (t @ [Some x]) = barrier_ok D t"
  by (induction D t rule: barrier_ok.induct) auto

lemma barrier_ok_skip: "None \<notin> set a \<Longrightarrow> barrier_ok D (a @ t) = barrier_ok D t"
proof (induction a)
  case (Cons x a)
  then show ?case by (cases x) auto
qed simp

lemma barrier_ok_add:
  "barrier_ok D t \<Longrightarrow> \<forall>x \<in> set (spans t). E \<subseteq> {..<fst x} \<Longrightarrow> barrier_ok (D \<union> E) t"
  by (induction D t rule: barrier_ok.induct) auto

section \<open>The invariant\<close>

fun no_remove :: "io_work \<Rightarrow> bool" where
  "no_remove (RemoveWork p) = False"
| "no_remove _ = True"

definition full_cqe :: "wal_engine \<Rightarrow> nat \<times> int \<Rightarrow> bool" where
  "full_cqe e c \<longleftrightarrow>
     (\<forall>w. map_of (inflight e) (fst c) = Some (WriteWork w) \<longrightarrow> snd c = int (length (out (w_data w)) - w_done w))"

definition order_inv :: "wal_system \<Rightarrow> bool" where
  "order_inv s \<longleftrightarrow>
     sorted_wrt span_before (spans (trail s)) \<and>
     (\<forall>x \<in> set (spans (trail s)). fst x + snd x \<le> base s + length (concat (outs s))) \<and>
     barrier_ok (dom (cache (ker s))) (trail s) \<and>
     {base s..<base s + length (concat (outs s))} \<subseteq>
       dom (cache (ker s)) \<union> \<Union> (span_set ` set (spans (trail s))) \<and>
     (\<exists>n. stable (ker s) = region (base s) (take n (concat (outs s))))"

definition whole_inv :: "wal_system \<Rightarrow> bool" where
  "whole_inv s \<longleftrightarrow>
     list_all no_remove (pending (eng s)) \<and> list_all no_remove (map snd (inflight (eng s))) \<and>
     list_all (full_cqe (eng s)) (ring_cq (ker s))"

definition small_outs :: "wal_system \<Rightarrow> bool" where
  "small_outs s \<longleftrightarrow> (\<forall>bs \<in> set (outs s). length bs < 2 ^ 32)"

lemma order_inv_same:
  "order_inv s \<Longrightarrow> trail s' = trail s \<Longrightarrow> base s' = base s \<Longrightarrow> outs s' = outs s \<Longrightarrow>
   cache (ker s') = cache (ker s) \<Longrightarrow> stable (ker s') = stable (ker s) \<Longrightarrow> order_inv s'"
  by (simp add: order_inv_def)

lemma sqe_of_span:
  assumes inv: "data_inv s" and op: "op_ok s work" and small: "small_outs s" and q: "sqe_of work fd = Inr q"
    and nr: "no_remove work"
  shows "sqe_span q = work_span work" "is_drain q = (work_span work = None)"
proof -
  have "sqe_span q = work_span work \<and> is_drain q = (work_span work = None)"
  proof (cases work)
    case (WriteWork w)
    let ?o = "unat (w_offset w)" and ?out = "out (w_data w)" and ?d = "w_done w"
    have log: "in_log s ?o ?out" and d: "?d \<le> length ?out" using op WriteWork by (simp_all add: op_ok_def)
    have "?out \<in> set (outs s)" using log by (auto simp: in_log_def)
    then have "length ?out < 2 ^ 32" using small by (simp add: small_outs_def)
    moreover have "unat (seg_offset (seg (eng s))) = base s + length (concat (outs s))"
      using inv by (simp add: data_inv_def)
    then have "?o + ?d < 2 ^ 64"
      using in_log_region(2) [OF log] d unat_u64_lt [of "seg_offset (seg (eng s))"] by simp
    then have "unat (w_offset w + of_nat ?d) = ?o + ?d" by (simp add: unat_word_ariths unat_of_nat)
    ultimately show ?thesis using q d WriteWork
      by (auto simp: sqe_of_def slice_from_def unat_as_u32 Let_def)
  next
    case (FsyncWork l)
    then show ?thesis using q by (auto simp: sqe_of_def)
  next
    case (RemoveWork p)
    then show ?thesis using nr by simp
  qed
  then show "sqe_span q = work_span work" "is_drain q = (work_span work = None)" by simp_all
qed

section \<open>Preservation by the ring\<close>

lemma order_write:
  assumes inv: "order_inv s" and t: "trail s = a @ Some x # b" and na: "None \<notin> set a"
    and s': "trail s' = a @ b" "base s' = base s" "outs s' = outs s" "stable (ker s') = stable (ker s)"
    and c: "dom (cache (ker s')) = dom (cache (ker s)) \<union> span_set x"
  shows "order_inv s'"
proof -
  have srt: "sorted_wrt span_before (spans a @ x # spans b)" using inv t by (simp add: order_inv_def)
  have "\<forall>y \<in> set (spans b). span_set x \<subseteq> {..<fst y}"
    using srt by (auto simp: sorted_wrt_append span_before_def span_set_def)
  moreover have "barrier_ok (dom (cache (ker s))) b"
    using inv t na by (simp add: order_inv_def barrier_ok_skip)
  ultimately have "barrier_ok (dom (cache (ker s'))) (trail s')"
    using na by (simp add: s' c barrier_ok_skip barrier_ok_add)
  moreover have "sorted_wrt span_before (spans (trail s'))" using srt by (simp add: s' sorted_wrt_append)
  ultimately show ?thesis using inv by (auto simp: order_inv_def s' t c)
qed

lemma map_le_same_dom:
  assumes "a \<subseteq>\<^sub>m c" and "b \<subseteq>\<^sub>m c" and "dom a = dom b"
  shows "a = b"
proof
  fix p
  show "a p = b p"
  proof (cases "p \<in> dom a")
    case True
    then show ?thesis using assms unfolding map_le_def by simp
  next
    case False
    then show ?thesis using assms(3) by (metis domIff)
  qed
qed

lemma initial_segment:
  fixes D :: "nat set"
  assumes "D \<subseteq> {a..<a + m}" and "\<And>p. p \<in> D \<Longrightarrow> p < a + n"
    and "\<And>p. a \<le> p \<Longrightarrow> p < a + m \<Longrightarrow> p < a + n \<Longrightarrow> p \<in> D"
  shows "D = {a..<a + min n m}"
proof
  show "D \<subseteq> {a..<a + min n m}" using assms(1,2) by (fastforce simp: min_def)
  show "{a..<a + min n m} \<subseteq> D" using assms(3) by auto
qed

lemma order_sync:
  assumes inv: "order_inv s" and t: "trail s = None # b" and le: "cache (ker s) \<subseteq>\<^sub>m log_image s"
    and s': "trail s' = b" "base s' = base s" "outs s' = outs s" "cache (ker s') = cache (ker s)"
    and st: "stable (ker s') = stable (ker s) \<or> stable (ker s') = cache (ker s)"
  shows "order_inv s'"
proof -
  let ?D = "dom (cache (ker s))" and ?img = "concat (outs s)"
  have bar: "\<forall>x \<in> set (spans b). ?D \<subseteq> {..<fst x}" using inv t by (simp add: order_inv_def)
  have cov: "{base s..<base s + length ?img} \<subseteq> ?D \<union> \<Union> (span_set ` set (spans b))"
    using inv t by (simp add: order_inv_def)
  define n where "n = (case spans b of [] \<Rightarrow> length ?img | x # xs \<Rightarrow> fst x - base s)"
  have sub: "?D \<subseteq> {base s..<base s + length ?img}"
    using map_le_implies_dom_le [OF le] by (simp add: log_image_def)
  have "p < base s + n" if "p \<in> ?D" for p
  proof -
    have "p \<in> {base s..<base s + length ?img}" using sub that by blast
    moreover have "p < fst x" if "spans b = x # xs" for x xs
      using bar that \<open>p \<in> ?D\<close> by (metis lessThan_iff list.set_intros(1) subsetD)
    ultimately show ?thesis by (cases "spans b") (auto simp: n_def)
  qed
  moreover have "p \<in> ?D" if "base s \<le> p" "p < base s + length ?img" "p < base s + n" for p
  proof (cases "spans b")
    case Nil
    then show ?thesis using cov that by auto
  next
    case (Cons x xs)
    then have "p < fst x" using that by (simp add: n_def)
    moreover have "fst x \<le> fst y" if "y \<in> set (spans b)" for y
      using inv t that Cons by (auto simp: order_inv_def span_before_def)
    ultimately have "p \<notin> \<Union> (span_set ` set (spans b))" by (fastforce simp: span_set_def)
    then show ?thesis using cov that by auto
  qed
  ultimately have "?D = {base s..<base s + min n (length ?img)}" using sub by (intro initial_segment) auto
  then have dom: "?D = dom (region (base s) (take n ?img))" by (simp add: min.commute)
  have "region (base s) (take n ?img) \<subseteq>\<^sub>m log_image s"
    using region_append_le(1) [of "base s" "take n ?img" "drop n ?img"] by (simp add: log_image_def)
  then have "cache (ker s) = region (base s) (take n ?img)"
    using le dom by (intro map_le_same_dom)
  then have "\<exists>n. stable (ker s') = region (base s) (take n ?img)"
    using st inv by (auto simp: order_inv_def)
  then show ?thesis using inv cov bar t by (simp add: order_inv_def s' barrier_ok_all)
qed

lemma ring_entry:
  assumes inv: "wal_inv s" and whole: "whole_inv s" and small: "small_outs s" and x: "(key, q) \<in> set (ring_sq (ker s))"
  obtains work where "map_of (inflight (eng s)) key = Some work" "sqe_of work (seg_fd (seg (eng s))) = Inr q"
    "sqe_span q = work_span work" "is_drain q = (sqe_span q = None)" "no_remove work"
proof -
  have "sqe_for (eng s) (key, q)" using inv x by (auto simp: wal_inv_def ring_inv_def list_all_iff)
  then obtain work where w: "map_of (inflight (eng s)) key = Some work" "sqe_of work (seg_fd (seg (eng s))) = Inr q"
    unfolding sqe_for_def by auto
  have "op_ok s work" "no_remove work" "data_inv s"
    using inv whole w(1) by (auto simp: wal_inv_def data_inv_def whole_inv_def intro: map_of_list_all)
  with sqe_of_span [OF _ _ small w(2)] w show thesis by (intro that [of work]) auto
qed

text \<open>The trail around the entry that completes, and what stands before it.\<close>

lemma trail_completes:
  assumes "i < length (ring_sq (ker s))" and "ring_sq (ker s) ! i = (key, q)"
    and "ring_sq k = take i (ring_sq (ker s)) @ drop (Suc i) (ring_sq (ker s))"
  defines "before \<equiv> map (sqe_span \<circ> snd) (take i (ring_sq (ker s)))"
    and "behind \<equiv> map (sqe_span \<circ> snd) (drop (Suc i) (ring_sq (ker s))) @ map work_span (pending (eng s))"
  shows "trail s = before @ sqe_span q # behind \<and> trail (s\<lparr>ker := k\<rparr>) = before @ behind"
proof -
  have "ring_sq (ker s) = take i (ring_sq (ker s)) @ (key, q) # drop (Suc i) (ring_sq (ker s))"
    using id_take_nth_drop [OF assms(1)] assms(2) by simp
  from arg_cong [OF this, of "map (sqe_span \<circ> snd)"] have "map (sqe_span \<circ> snd) (ring_sq (ker s)) =
      before @ sqe_span q # map (sqe_span \<circ> snd) (drop (Suc i) (ring_sq (ker s)))" by (simp add: before_def)
  then show ?thesis by (simp add: trail_def assms(3) before_def behind_def)
qed

lemma writes_before:
  assumes inv: "wal_inv s" "whole_inv s" "small_outs s" and nd: "\<forall>j < i. \<not> is_drain (snd (ring_sq (ker s) ! j))"
  shows "None \<notin> set (map (sqe_span \<circ> snd) (take i (ring_sq (ker s))))"
proof
  assume "None \<in> set (map (sqe_span \<circ> snd) (take i (ring_sq (ker s))))"
  then obtain j where j: "j < i" "j < length (ring_sq (ker s))" "sqe_span (snd (ring_sq (ker s) ! j)) = None"
    by (auto simp: in_set_conv_nth)
  have "(fst (ring_sq (ker s) ! j), snd (ring_sq (ker s) ! j)) \<in> set (ring_sq (ker s))" using j by simp
  from ring_entry [OF inv this] show False using j nd by metis
qed

lemma kernel_order:
  assumes inv: "wal_inv s" "order_inv s" "whole_inv s" and small: "small_outs s"
    and step: "completes i res (ker s) k"
    and full: "\<forall>fd bs off. snd (ring_sq (ker s) ! i) = SqeWrite fd bs off \<longrightarrow> res = int (length bs)"
  shows "order_inv (s\<lparr>ker := k\<rparr>) \<and> whole_inv (s\<lparr>ker := k\<rparr>)"
proof -
  let ?sq = "ring_sq (ker s)" and ?f = "sqe_span \<circ> snd" and ?s = "s\<lparr>ker := k\<rparr>"
  obtain key q where q: "?sq ! i = (key, q)" by fastforce
  have i: "i < length ?sq" and sq: "ring_sq k = take i ?sq @ drop (Suc i) ?sq"
    and cq: "ring_cq k = ring_cq (ker s) @ [(key, res)]" and nd: "\<forall>j < i. \<not> is_drain (snd (?sq ! j))"
    and d: "is_drain q \<longrightarrow> i = 0" using step q by (simp_all add: completes_def)
  from trail_completes [OF i q sq] have
    t: "trail s = map ?f (take i ?sq) @ sqe_span q # map ?f (drop (Suc i) ?sq) @ map work_span (pending (eng s))"
    and t': "trail ?s = map ?f (take i ?sq) @ map ?f (drop (Suc i) ?sq) @ map work_span (pending (eng s))" by simp_all
  have qin: "(key, q) \<in> set ?sq" using i q nth_mem by metis
  obtain work where w: "map_of (inflight (eng s)) key = Some work" "sqe_of work (seg_fd (seg (eng s))) = Inr q"
    "sqe_span q = work_span work" "is_drain q = (sqe_span q = None)" "no_remove work"
    using ring_entry [OF inv(1,3) small qin] .
  have na: "None \<notin> set (map ?f (take i ?sq))" using writes_before [OF inv(1,3) small nd] .
  have le: "cache (ker s) \<subseteq>\<^sub>m log_image s" using inv(1) by (simp add: wal_inv_def data_inv_def)
  have fc: "full_cqe (eng s) (key, res)"
  proof (cases q)
    case (SqeWrite fd bs off)
    then show ?thesis using full q w by (auto simp: full_cqe_def)
  qed (use w in \<open>auto simp: full_cqe_def sqe_of_def slice_from_def obind_def split: if_splits\<close>)
  then have "whole_inv ?s" using inv(3) by (simp add: whole_inv_def cq)
  moreover have "order_inv ?s"
  proof (cases q)
    case (SqeWrite fd bs off)
    then have res: "res = int (length bs)" using full q by simp
    then have "cache k = cache (ker s) ++ region (unat off) bs" "stable k = stable (ker s)"
      using step q SqeWrite by (simp_all add: completes_def)
    then show ?thesis
      using order_write [OF inv(2) _ na, of "(unat off, length bs)" _ ?s] t t' SqeWrite
      by (auto simp: span_set_def)
  next
    case (SqeFsyncDrain fd)
    then have "i = 0" "cache k = cache (ker s)" "stable k = stable (ker s) \<or> stable k = cache (ker s)"
      using d step q by (auto simp: completes_def)
    then show ?thesis using order_sync [OF inv(2) _ le, of _ ?s] t t' SqeFsyncDrain by simp
  next
    case (SqeUnlink path)
    then show ?thesis using sqe_of_unlink w(2,5) by fastforce
  qed
  ultimately show ?thesis by simp
qed

section \<open>Preservation by the engine\<close>

text \<open>The log grows by a batch whose write is the last in the trail.\<close>

lemma order_extend:
  assumes inv: "order_inv s" and D: "dom (cache (ker s)) \<subseteq> {..<base s + length (concat (outs s))}"
    and t: "trail s' = trail s @ [Some (base s + length (concat (outs s)), length buf)]"
    and o: "outs s' = outs s @ [buf]" and same: "base s' = base s" "ker s' = ker s"
  shows "order_inv s'"
proof -
  let ?stop = "base s + length (concat (outs s))"
  have len: "base s + length (concat (outs s')) = ?stop + length buf" by (simp add: o)
  have "\<forall>x \<in> set (spans (trail s')). fst x + snd x \<le> ?stop + length buf"
    using inv by (auto simp: t order_inv_def)
  moreover have "{base s..<?stop + length buf} \<subseteq> dom (cache (ker s)) \<union> \<Union> (span_set ` set (spans (trail s')))"
  proof
    fix p assume "p \<in> {base s..<?stop + length buf}"
    then have "p \<in> {base s..<?stop} \<or> p \<in> span_set (?stop, length buf)" by (auto simp: span_set_def)
    then show "p \<in> dom (cache (ker s)) \<union> \<Union> (span_set ` set (spans (trail s')))"
      using inv by (auto simp: order_inv_def t)
  qed
  moreover obtain n where "stable (ker s) = region (base s) (take n (concat (outs s)))"
    using inv by (auto simp: order_inv_def)
  then have "\<exists>n. stable (ker s) = region (base s) (take n (concat (outs s')))"
    by (intro exI [of _ "min n (length (concat (outs s)))"]) (simp add: o min_def take_all_iff)
  moreover have "sorted_wrt span_before (spans (trail s'))"
    using inv by (simp add: t order_inv_def sorted_wrt_append span_before_def)
  moreover have "barrier_ok (dom (cache (ker s))) (trail s')"
    using inv D by (simp add: t order_inv_def barrier_ok_snoc)
  ultimately show ?thesis unfolding order_inv_def same len by blast
qed

lemma receive_order:
  assumes inv: "wal_inv s" "order_inv s" "whole_inv s"
    and enc: "encode_items (out b) (lsn_low b) (items b) = Inr (buf, lsn)"
    and step: "handle_batch (eng s) b = Inr e"
    and s': "s' = s\<lparr>eng := e\<lparr>spin_budget := n\<rparr>, outs := outs s @ [buf]\<rparr>"
  shows "order_inv s' \<and> whole_inv s'"
proof -
  let ?stop = "base s + length (concat (outs s))"
  have off: "unat (seg_offset (seg (eng s))) = ?stop" using inv(1) by (simp add: wal_inv_def data_inv_def)
  have "dom (cache (ker s)) \<subseteq> {base s..<?stop}"
    using inv(1) map_le_implies_dom_le by (fastforce simp: wal_inv_def data_inv_def log_image_def)
  then have D: "dom (cache (ker s)) \<subseteq> {..<?stop}" by auto
  have e: "pending e = pending (eng s) @ [io_write (b\<lparr>out := buf\<rparr>) (seg_offset (seg (eng s)))]" "inflight e = inflight (eng s)"
    using step enc by (auto simp: handle_batch_def advance_offset_def Let_def ensure_def split: if_splits)
  have "trail s' = trail s @ [Some (?stop, length buf)]" by (simp add: trail_def s' e io_write_def off)
  from order_extend [OF inv(2) D this] have "order_inv s'" by (simp add: s')
  moreover have "whole_inv s'" using inv(3) by (simp add: whole_inv_def s' e io_write_def full_cqe_def [abs_def])
  ultimately show ?thesis by simp
qed

lemma plan_order:
  assumes "order_inv s" and "whole_inv s"
  shows "order_inv (s\<lparr>eng := plan_fsync (eng s)\<rparr>) \<and> whole_inv (s\<lparr>eng := plan_fsync (eng s)\<rparr>)"
proof -
  let ?s = "s\<lparr>eng := plan_fsync (eng s)\<rparr>"
  have "trail ?s = trail s \<or> trail ?s = trail s @ [None]"
    by (simp add: trail_def plan_fsync_def Let_def case_prod_beta)
  then have "order_inv ?s" using assms(1) by (auto simp: order_inv_def barrier_ok_snoc)
  moreover have "whole_inv ?s"
    using assms(2) by (simp add: whole_inv_def plan_fsync_def Let_def case_prod_beta full_cqe_def [abs_def])
  ultimately show ?thesis by simp
qed

lemma submit_loop_order:
  "submit_loop vacant room (eng s) = Inr (e, ss) \<Longrightarrow> \<forall>slab. vacant slab \<notin> set (map fst slab) \<Longrightarrow>
   wal_inv s \<Longrightarrow> whole_inv s \<Longrightarrow> small_outs s \<Longrightarrow>
   trail (s\<lparr>eng := e, ker := (ker s)\<lparr>ring_sq := ring_sq (ker s) @ ss\<rparr>\<rparr>) = trail s \<and>
   whole_inv (s\<lparr>eng := e, ker := (ker s)\<lparr>ring_sq := ring_sq (ker s) @ ss\<rparr>\<rparr>)"
proof (induction room arbitrary: s e ss)
  case 0
  then have "e = eng s" "ss = []" by auto
  then show ?case using 0 by simp
next
  case (Suc room)
  show ?case
  proof (cases "length (inflight (eng s)) < depth (eng s) \<and> pending (eng s) \<noteq> []")
    case False
    then have "e = eng s" "ss = []" using Suc.prems(1) by (auto split: list.splits if_splits)
    then show ?thesis using Suc.prems by simp
  next
    case True
    then obtain work rest where p: "pending (eng s) = work # rest" by (cases "pending (eng s)") auto
    let ?key = "vacant (inflight (eng s))"
    let ?e = "(eng s)\<lparr>pending := rest, inflight := inflight (eng s) @ [(?key, work)]\<rparr>"
    obtain q ss' where q: "sqe_of work (seg_fd (seg (eng s))) = Inr q"
      and rec: "submit_loop vacant room ?e = Inr (e, ss')" and ss: "ss = (?key, q) # ss'"
      using Suc.prems(1) True p by (auto simp: obind_eq_Inr Let_def)
    let ?s = "s\<lparr>eng := ?e, ker := (ker s)\<lparr>ring_sq := ring_sq (ker s) @ [(?key, q)]\<rparr>\<rparr>"
    have key: "?key \<notin> set (map fst (inflight (eng s)))" using Suc.prems(2) by blast
    from submit_one [OF Suc.prems(3) p key q] have inv: "wal_inv ?s" .
    have "op_ok s work" "no_remove work" "data_inv s"
      using Suc.prems(3,4) p by (simp_all add: wal_inv_def data_inv_def whole_inv_def)
    then have "sqe_span q = work_span work" using sqe_of_span [OF _ _ Suc.prems(5) q] by simp
    then have t: "trail ?s = trail s" by (simp add: trail_def p)
    have "full_cqe ?e c" if "c \<in> set (ring_cq (ker s))" for c
    proof -
      have "cqe_in (cache (ker s)) (eng s) c" "full_cqe (eng s) c"
        using that Suc.prems(3,4) by (auto simp: wal_inv_def ring_inv_def whole_inv_def list_all_iff)
      then show ?thesis by (auto simp: cqe_in_def full_cqe_def map_add_def split: option.splits)
    qed
    then have "whole_inv ?s" using Suc.prems(4) p by (auto simp: whole_inv_def list_all_iff)
    moreover have "small_outs ?s" using Suc.prems(5) by (simp add: small_outs_def)
    ultimately show ?thesis using Suc.IH [of ?s e ss', OF _ Suc.prems(2) inv] rec t by (simp add: ss)
  qed
qed

lemma submit_order:
  assumes "handle_pending vacant room (eng s) = Inr (e, ss, moved)"
    and "\<forall>slab. vacant slab \<notin> set (map fst slab)" and "wal_inv s" "order_inv s" "whole_inv s" "small_outs s"
    and s': "s' = s\<lparr>eng := e, ker := (ker s)\<lparr>ring_sq := ring_sq (ker s) @ ss\<rparr>\<rparr>"
  shows "order_inv s' \<and> whole_inv s'"
proof (cases "pending (eng s) = []")
  case True
  then have "s' = s" using assms(1) by (simp add: handle_pending_def s')
  then show ?thesis using assms by simp
next
  case False
  then have "submit_loop vacant room (eng s) = Inr (e, ss)"
    using assms(1) by (auto simp: handle_pending_def obind_eq_Inr)
  then have "trail s' = trail s" "whole_inv s'"
    unfolding s' using submit_loop_order assms by blast+
  then show ?thesis using order_inv_same [OF assms(4)] by (simp add: s')
qed

text \<open>With whole writes there is nothing to retry: reaping leaves the queue alone.\<close>

lemma finish_awaiting_pending:
  "finish_awaiting e bs = Inr e' \<Longrightarrow> pending e' = pending e \<and> inflight e' = inflight e"
  by (induction e bs rule: finish_awaiting.induct) (fastforce simp: obind_eq_Inr)+

lemma reap_one_whole:
  assumes step: "reap_one e c = Inr e'" and full: "full_cqe e c"
    and dn: "\<And>w. map_of (inflight e) (fst c) = Some (WriteWork w) \<Longrightarrow> w_done w \<le> length (out (w_data w))"
  shows "pending e' = pending e" "inflight e' = AList.delete (fst c) (inflight e)"
proof -
  obtain work where w: "map_of (inflight e) (fst c) = Some work"
    using step by (auto simp: reap_one_def split: option.splits)
  have "pending e' = pending e \<and> inflight e' = AList.delete (fst c) (inflight e)"
  proof (cases work)
    case (WriteWork wo)
    then have "snd c = int (length (out (w_data wo)) - w_done wo)" "w_done wo \<le> length (out (w_data wo))"
      using full w dn by (simp_all add: full_cqe_def)
    then have "complete work (snd c) = VerdictOk (Some (w_data wo))"
      by (simp add: WriteWork complete_def EINTR_def EAGAIN_def Let_def del: of_nat_diff)
    then show ?thesis using step w by (auto simp: reap_one_def Let_def obind_eq_Inr split: if_splits)
  next
    case (FsyncWork l)
    then show ?thesis using step w finish_awaiting_pending
      by (fastforce simp: reap_one_def Let_def complete_def obind_eq_Inr split: if_splits)
  next
    case (RemoveWork p)
    then show ?thesis using step w by (auto simp: reap_one_def Let_def complete_def)
  qed
  then show "pending e' = pending e" "inflight e' = AList.delete (fst c) (inflight e)" by simp_all
qed

lemma reap_one_order:
  assumes inv: "wal_inv s" "whole_inv s" and cq: "ring_cq (ker s) = c # cs" and step: "reap_one (eng s) c = Inr e"
  shows "pending e = pending (eng s) \<and> inflight e = AList.delete (fst c) (inflight (eng s)) \<and>
    whole_inv (s\<lparr>eng := e, ker := (ker s)\<lparr>ring_cq := cs\<rparr>\<rparr>)"
proof -
  have "full_cqe (eng s) c" using cq inv(2) by (simp add: whole_inv_def)
  moreover have "w_done w \<le> length (out (w_data w))" if "map_of (inflight (eng s)) (fst c) = Some (WriteWork w)" for w
  proof -
    have "list_all (op_ok s) (map snd (inflight (eng s)))" using inv(1) by (simp add: wal_inv_def data_inv_def)
    from map_of_list_all [OF this that] show ?thesis by (simp add: op_ok_def)
  qed
  ultimately have p: "pending e = pending (eng s)" and i: "inflight e = AList.delete (fst c) (inflight (eng s))"
    using reap_one_whole [OF step] by blast+
  have "list_all (full_cqe e) cs"
    using cq inv(2) reap_look [OF inv(1) cq] by (auto simp: whole_inv_def list_all_iff full_cqe_def i)
  then show ?thesis using inv(2) p i by (auto simp: whole_inv_def list_all_iff AList.delete_eq)
qed

text \<open>Reaping one completion in mode Sync: a whole write waits from now on, an fsync lets all that wait go.\<close>

lemma reap_one_sync:
  assumes inv: "wal_inv s" "whole_inv s" and cq: "ring_cq (ker s) = c # cs" and step: "reap_one (eng s) c = Inr e"
  defines "slab \<equiv> AList.delete (fst c) (inflight (eng s))"
  obtains (Write) w where "map_of (inflight (eng s)) (fst c) = Some (WriteWork w)"
      "e = (eng s)\<lparr>inflight := slab, awaiting_fsync := awaiting_fsync (eng s) @ [w_data w]\<rparr>"
  | (Fsync) l where "map_of (inflight (eng s)) (fst c) = Some (FsyncWork l)"
      "e = (eng s)\<lparr>inflight := slab, awaiting_fsync := [], replies := replies (eng s) @ owed_to (awaiting_fsync (eng s)),
        recycle_tx := recycle_tx (eng s) @ map (\<lambda>_. batch_new) (awaiting_fsync (eng s)),
        finished := finished (eng s) @ awaiting_fsync (eng s), planner := on_fsync_completed (planner (eng s))\<rparr>"
proof -
  obtain work where w: "map_of (inflight (eng s)) (fst c) = Some work"
    using step by (auto simp: reap_one_def split: option.splits)
  have nr: "no_remove work" using inv(2) w by (auto simp: whole_inv_def intro: map_of_list_all)
  show ?thesis
  proof (cases work)
    case (WriteWork wo)
    have op: "op_ok s work" using inv(1) w by (auto simp: wal_inv_def data_inv_def intro: map_of_list_all)
    have full: "snd c = int (length (out (w_data wo)) - w_done wo)" "w_done wo \<le> length (out (w_data wo))"
      and ad: "awaits_durable (w_data wo)" and lv: "level (ack (eng s)) = Durable"
      using inv cq w WriteWork op by (auto simp: whole_inv_def full_cqe_def op_ok_def wal_inv_def ack_inv_def)
    have "complete work (snd c) = VerdictOk (Some (w_data wo))"
      using full by (simp add: WriteWork complete_def EINTR_def EAGAIN_def Let_def del: of_nat_diff)
    then have "e = (eng s)\<lparr>inflight := slab, awaiting_fsync := awaiting_fsync (eng s) @ [w_data wo]\<rparr>"
      using step w advance_Written_awaits [OF lv ad] by (auto simp: reap_one_def Let_def slab_def)
    then show ?thesis using Write w WriteWork by simp
  next
    case (FsyncWork l)
    have ne: "list_all (\<lambda>b. list_all (\<lambda>r. data r \<noteq> []) (items b)) (awaiting_fsync (eng s))"
      using inv(1) by (auto simp: wal_inv_def ack_inv_def awaits_durable_def list_all_iff)
    have "complete work (snd c) = VerdictDurable"
      using step w by (auto simp: FsyncWork complete_def reap_one_def Let_def split: if_splits)
    then have "e = (eng s)\<lparr>inflight := slab, awaiting_fsync := [], replies := replies (eng s) @ owed_to (awaiting_fsync (eng s)),
        recycle_tx := recycle_tx (eng s) @ map (\<lambda>_. batch_new) (awaiting_fsync (eng s)),
        finished := finished (eng s) @ awaiting_fsync (eng s), planner := on_fsync_completed (planner (eng s))\<rparr>"
      using step w finish_awaiting_eq [OF ne] by (auto simp: reap_one_def Let_def slab_def)
    then show ?thesis using Fsync w FsyncWork by simp
  next
    case (RemoveWork p)
    then show ?thesis using nr by simp
  qed
qed

lemma reap_cqes_order:
  "reap_cqes (eng s) cqes = Inr e \<Longrightarrow> ring_cq (ker s) = cqes \<Longrightarrow> wal_inv s \<Longrightarrow> whole_inv s \<Longrightarrow>
   pending e = pending (eng s) \<and> whole_inv (s\<lparr>eng := e, ker := (ker s)\<lparr>ring_cq := []\<rparr>\<rparr>)"
proof (induction cqes arbitrary: s)
  case Nil
  then show ?case by (auto simp: whole_inv_def)
next
  case (Cons c cs)
  obtain e1 where e1: "reap_one (eng s) c = Inr e1" "reap_cqes e1 cs = Inr e"
    using Cons.prems(1) by (auto simp: obind_eq_Inr)
  let ?s = "s\<lparr>eng := e1, ker := (ker s)\<lparr>ring_cq := cs\<rparr>\<rparr>"
  have inv: "wal_inv ?s" using reap_one_preserves [OF Cons.prems(3,2) e1(1)] .
  have p: "pending e1 = pending (eng s)" and "whole_inv ?s"
    using reap_one_order [OF Cons.prems(3,4,2) e1(1)] by simp_all
  from Cons.IH [of ?s, OF _ _ inv this(2)] e1(2) p show ?case by simp
qed

lemma wal_step_outs: "wal_step kstep s s' \<Longrightarrow> small_outs s' \<Longrightarrow> small_outs s"
  by (induction rule: wal_step.induct) (auto simp: small_outs_def)

lemma wal_step_order:
  assumes "wal_step kstep s s'" and full: "full_writes kstep" and inv: "wal_inv s" "order_inv s" "whole_inv s"
    and small: "small_outs s"
  shows "order_inv s' \<and> whole_inv s'"
  using assms(1)
proof cases
  case (receive b buf lsn e)
  then show ?thesis using receive_order [OF inv receive(3,5,1)] by simp
next
  case spin
  then show ?thesis
    using inv(2,3) order_inv_same [OF inv(2), of s'] by (simp add: trail_def whole_inv_def full_cqe_def [abs_def])
next
  case plan
  then show ?thesis using plan_order [OF inv(2,3)] by simp
next
  case (submit vacant room e ss moved)
  then show ?thesis using submit_order inv small by blast
next
  case (reap e)
  from reap_cqes_order [OF reap(2) refl inv(1,3)] show ?thesis
    using order_inv_same [OF inv(2), of s'] reap(1) by (simp add: trail_def)
next
  case (kernel k)
  then show ?thesis using full kernel_order [OF inv small] unfolding full_writes_def by blast
qed

lemma full_writes_contract: "full_writes kstep \<Longrightarrow> ring_contract kstep"
  unfolding full_writes_def ring_contract_def by blast

lemma order_inv_reach:
  "wal_reach kstep s s' \<Longrightarrow> full_writes kstep \<Longrightarrow> wal_inv s \<Longrightarrow> order_inv s \<Longrightarrow> whole_inv s \<Longrightarrow> small_outs s' \<Longrightarrow>
   order_inv s' \<and> whole_inv s'"
proof (induction rule: wal_reach.induct)
  case (start s)
  then show ?case by simp
next
  case (next_step s s' s'')
  then have "small_outs s'" using wal_step_outs by blast
  moreover have "wal_inv s'" using wal_inv_reach next_step full_writes_contract by blast
  ultimately show ?case using next_step wal_step_order by blast
qed

lemma order_inv_start:
  assumes "wal_engine_new ring_ok open_ok n dir l m a = Inr (e, dir')"
  shows "order_inv (wal_start e) \<and> whole_inv (wal_start e)"
  using wal_engine_new_fields [OF assms]
  by (simp add: order_inv_def whole_inv_def wal_start_def trail_def)

text \<open>What was acknowledged lies in the stable prefix.\<close>

lemma finished_prefix:
  assumes inv: "wal_inv s" "order_inv s" and outs: "\<forall>bs \<in> set (outs s). bs \<noteq> []"
  shows "\<exists>m. stable (ker s) = region (base s) (take m (concat (outs s))) \<and>
           (\<forall>b \<in> set (finished (eng s)). \<exists>i < length (outs s).
              out b = outs s ! i \<and> length (concat (take (Suc i) (outs s))) \<le> m)"
proof -
  obtain m where m: "stable (ker s) = region (base s) (take m (concat (outs s)))"
    and fin: "list_all (safe s (stable (ker s))) (finished (eng s))"
    using inv by (auto simp: order_inv_def wal_inv_def ack_inv_def)
  have "\<exists>i < length (outs s). out b = outs s ! i \<and> length (concat (take (Suc i) (outs s))) \<le> m"
    if "b \<in> set (finished (eng s))" for b
  proof -
    have "safe s (stable (ker s)) b" using fin that by (simp add: list_all_iff)
    then obtain i where i: "i < length (outs s)" "out b = outs s ! i"
      and r: "region (base s + length (concat (take i (outs s)))) (out b) \<subseteq>\<^sub>m region (base s) (take m (concat (outs s)))"
      by (auto simp: safe_def in_log_def m)
    have ne: "out b \<noteq> []" using outs i by simp
    from map_le_implies_dom_le [OF r] have
      "{base s + length (concat (take i (outs s)))..<base s + length (concat (take i (outs s))) + length (out b)}
         \<subseteq> {base s..<base s + min (length (concat (outs s))) m}" by simp
    then have "length (concat (take i (outs s))) + length (out b) \<le> m"
      using ne by (simp add: atLeastLessThan_subset_iff)
    then show ?thesis using i by (auto simp: take_Suc_conv_app_nth)
  qed
  then show ?thesis using m by blast
qed

lemma stable_prefix:
  assumes "full_writes kstep" and outs: "\<forall>bs \<in> set (outs s). bs \<noteq> [] \<and> length bs < 2 ^ 32"
    and "wal_engine_new ring_ok open_ok n dir l Sync (acker_new Sync) = Inr (e, dir')"
    and "wal_reach kstep (wal_start e) s"
  shows "\<exists>m. stable (ker s) = region (base s) (take m (concat (outs s))) \<and>
           (\<forall>b \<in> set (finished (eng s)). \<exists>i < length (outs s).
              out b = outs s ! i \<and> length (concat (take (Suc i) (outs s))) \<le> m)"
proof (rule finished_prefix)
  show "wal_inv s" using wal_inv_reach assms(1,3,4) wal_inv_start full_writes_contract by blast
  show "order_inv s"
    using order_inv_reach [OF assms(4,1)] wal_inv_start order_inv_start assms(2,3)
    unfolding small_outs_def by blast
  show "\<forall>bs \<in> set (outs s). bs \<noteq> []" using outs by blast
qed

section \<open>Properties\<close>

text \<open>
  C10. In mode \<open>Sync\<close>, with a ring that never cuts a write short, the stable part of the segment
  file is always a prefix of the log, in spite of writes completing out of order, and it
  contains every batch that was acknowledged.
\<close>

theorem sync_stable_prefix:
  assumes "full_writes kstep" and outs: "\<forall>bs \<in> set (outs s). bs \<noteq> [] \<and> length bs < 2 ^ 32"
    and "wal_engine_new ring_ok open_ok n dir l Sync (acker_new Sync) = Inr (e, dir')"
    and "wal_reach kstep (wal_start e) s"
  shows "\<exists>m. stable (ker s) = region (base s) (take m (concat (outs s))) \<and>
           (\<forall>b \<in> set (finished (eng s)). \<exists>i < length (outs s).
              out b = outs s ! i \<and> length (concat (take (Suc i) (outs s))) \<le> m)"
  using assms by (rule stable_prefix)

theorem sync_stable_prefix_witness:
  "\<exists>e dir' s m. wal_engine_new True True 128 empty_dir 1 Sync (acker_new Sync) = Inr (e, dir') \<and>
     wal_reach whole_ring (wal_start e) s \<and>
     stable (ker s) = region (base s) (take m (record_bytes (2, req_body Put [1] [7]))) \<and> 27 \<le> m"
proof -
  obtain e dir' s where s: "wal_engine_new True True 128 empty_dir 1 Sync (acker_new Sync) = Inr (e, dir')"
    "wal_reach whole_ring (wal_start e) s" "finished (eng s) \<noteq> []" "outs s = [record_bytes (2, req_body Put [1] [7])]"
    using one_put_run by auto
  have len: "length (record_bytes (2, req_body Put [1] [7])) = 27" by simp
  have "\<forall>bs \<in> set (outs s). bs \<noteq> [] \<and> length bs < 2 ^ 32" using s(4) len by simp
  from sync_stable_prefix [OF whole_ring_contract(2) this s(1,2)] show ?thesis
    using s len by (cases "finished (eng s)") auto
qed

end
