(* ===== verification/Wal_Loop.thy ===== *)
theory Wal_Loop
  imports Wal_Durability
begin

text \<open>
  The main loop of stage 3, iteration by iteration. An iteration is a sequence of steps of the
  system of engine and ring, so what holds of the system holds of the loop. The loop itself has
  two defects in mode \<open>Sync\<close>: it can go to sleep while batches wait for an fsync, and it
  can acknowledge a batch although an earlier one is not in the file yet.
\<close>

section \<open>An iteration on a batch\<close>

text \<open>The engine after receiving a batch whose records are \<open>buf\<close>.\<close>

definition ingest :: "batch \<Rightarrow> bytes \<Rightarrow> wal_engine \<Rightarrow> wal_engine" where
  "ingest b buf e =
     e\<lparr>last_ingested_lsn := lsn_hi b, seg := (seg e)\<lparr>seg_offset := seg_offset (seg e) + of_nat (length buf)\<rparr>,
       planner := on_write_queued (of_nat (length buf)) (planner e),
       pending := pending e @ [io_write (b\<lparr>out := buf\<rparr>) (seg_offset (seg e))],
       spin_budget := DEFAULT_SPIN_BUDGET\<rparr>"

lemma handle_batch_ingest:
  assumes "lsn_low b = last_ingested_lsn e" and "encode_items (out b) (lsn_low b) (items b) = Inr (buf, lsn)"
  shows "\<exists>e'. handle_batch e b = Inr e' \<and> e'\<lparr>spin_budget := DEFAULT_SPIN_BUDGET\<rparr> = ingest b buf e"
  using assms by (simp add: handle_batch_def ingest_def Let_def advance_offset_def)

lemma wal_turn_receive:
  assumes "lsn_low b = last_ingested_lsn e" and "encode_items (out b) (lsn_low b) (items b) = Inr (buf, lsn)"
  shows "wal_turn vacant room cqes rounds fsync_ok open_ok dir e (WalWrite b # msgs) =
    obind (handle_pending vacant room (plan_fsync (ingest b buf e))) (\<lambda>(e, ss, moved).
    obind (reap_cqes e cqes) (\<lambda>e. Inr (Some (e, dir, msgs, ss, park_decision e moved))))"
  using handle_batch_ingest [OF assms]
  by (auto simp: wal_turn_def poll_channel_or_park_def handle_msg_def)

lemma wal_turn_idle:
  assumes "\<not> should_park e"
  shows "wal_turn vacant room cqes rounds fsync_ok open_ok dir e [] =
    obind (handle_pending vacant room (plan_fsync (e\<lparr>spin_budget := spin_budget e - 1\<rparr>))) (\<lambda>(e, ss, moved).
    obind (reap_cqes e cqes) (\<lambda>e. Inr (Some (e, dir, [], ss, park_decision e moved))))"
  using assms by (simp add: wal_turn_def poll_channel_or_park_def)

lemma wal_turn_blocked:
  "should_park e \<Longrightarrow> wal_turn vacant room cqes rounds fsync_ok open_ok dir e [] = Inr None"
  by (simp add: wal_turn_def poll_channel_or_park_def)

text \<open>
  An iteration that receives a batch is the steps receive, plan and submit, then whatever the
  ring does, then reap.
\<close>

lemma wal_turn_steps:
  assumes turn: "wal_turn vacant room (ring_cq k) rounds fsync_ok open_ok dir (eng s) (WalWrite b # msgs) =
      Inr (Some (e, dir', msgs', ss, pk))"
    and b: "awaits_durable b" and enc: "encode_items (out b) (lsn_low b) (items b) = Inr (buf, lsn)"
    and fits: "unat (seg_offset (seg (eng s))) + length buf < 2 ^ 64"
    and vac: "\<forall>slab. vacant slab \<notin> set (map fst slab)"
    and ring: "kstep\<^sup>*\<^sup>* ((ker s)\<lparr>ring_sq := ring_sq (ker s) @ ss\<rparr>) k"
  shows "wal_reach kstep s (s\<lparr>eng := e, ker := k\<lparr>ring_cq := []\<rparr>, outs := outs s @ [buf]\<rparr>)"
proof -
  obtain e0 k0 b0 o0 where s: "s = \<lparr>eng = e0, ker = k0, base = b0, outs = o0\<rparr>" by (cases s)
  have lsn: "lsn_low b = last_ingested_lsn (eng s)"
    using turn by (auto simp: wal_turn_def poll_channel_or_park_def handle_msg_def handle_batch_def
        obind_eq_Inr ensure_def split: if_splits)
  obtain e1 where e1: "handle_batch (eng s) b = Inr e1"
    "e1\<lparr>spin_budget := DEFAULT_SPIN_BUDGET\<rparr> = ingest b buf (eng s)"
    using handle_batch_ingest [OF lsn enc] by blast
  let ?s1 = "s\<lparr>eng := ingest b buf (eng s), outs := outs s @ [buf]\<rparr>"
  let ?s2 = "s\<lparr>eng := plan_fsync (ingest b buf (eng s)), outs := outs s @ [buf]\<rparr>"
  obtain e2 moved where e2: "handle_pending vacant room (plan_fsync (ingest b buf (eng s))) = Inr (e2, ss, moved)"
    and e: "reap_cqes e2 (ring_cq k) = Inr e"
    using turn unfolding wal_turn_receive [OF lsn enc] by (auto simp: obind_eq_Inr)
  let ?s3 = "\<lambda>k. s\<lparr>eng := e2, ker := k, outs := outs s @ [buf]\<rparr>"
  have st1: "wal_step kstep s ?s1" using wal_step.receive [OF b enc fits e1(1), of kstep] e1(2) by (simp add: s)
  have st2: "wal_step kstep ?s1 ?s2" using wal_step.plan [of kstep ?s1] by (simp add: s)
  have st3: "wal_step kstep ?s2 (?s3 ((ker s)\<lparr>ring_sq := ring_sq (ker s) @ ss\<rparr>))"
    using wal_step.submit [OF vac, of room ?s2 e2 ss moved kstep] e2 by (simp add: s)
  have r: "wal_reach kstep s (?s3 ((ker s)\<lparr>ring_sq := ring_sq (ker s) @ ss\<rparr>))"
    by (rule wal_reach.next_step [OF wal_reach.next_step [OF wal_reach.next_step [OF wal_reach.start st1] st2] st3])
  have "wal_reach kstep s (?s3 k)" using ring
  proof (induction rule: rtranclp_induct)
    case base
    then show ?case using r by simp
  next
    case (step k1 k2)
    have "wal_step kstep (?s3 k1) (?s3 k2)" using wal_step.kernel [of kstep "?s3 k1" k2] step.hyps(2) by (simp add: s)
    with step.IH show ?case by (rule wal_reach.next_step)
  qed
  moreover have "wal_step kstep (?s3 k) (s\<lparr>eng := e, ker := k\<lparr>ring_cq := []\<rparr>, outs := outs s @ [buf]\<rparr>)"
    using wal_step.reap [of "?s3 k" e kstep] e by (simp add: s)
  ultimately show ?thesis by (rule wal_reach.next_step)
qed

section \<open>Evaluating iterations\<close>

lemma submit_loop_Nil: "pending e = [] \<Longrightarrow> submit_loop vacant room e = Inr (e, [])"
  by (cases room) simp_all

lemma submit_loop_Cons:
  assumes "0 < room" and "length (inflight e) < depth e" and "pending e = w # ws"
    and "sqe_of w (seg_fd (seg e)) = Inr q"
  shows "submit_loop vacant room e =
    obind (submit_loop vacant (room - 1) (e\<lparr>pending := ws, inflight := inflight e @ [(vacant (inflight e), w)]\<rparr>))
      (\<lambda>(e', ss). Inr (e', (vacant (inflight e), q) # ss))"
  using assms by (cases room) (simp_all add: Let_def)

lemma sqe_of_write_whole:
  "length buf < 2 ^ 31 \<Longrightarrow> sqe_of (io_write (b\<lparr>out := buf\<rparr>) off) fd = Inr (SqeWrite fd buf off)"
  by (simp add: sqe_of_def io_write_def slice_from_def unat_as_u32)

lemma sqe_of_sync [simp]: "sqe_of (FsyncWork l) fd = Inr (SqeFsyncDrain fd)"
  by (simp add: sqe_of_def)

lemma complete_write_whole [simp]:
  "complete (io_write (b\<lparr>out := buf\<rparr>) off) (int (length buf)) = VerdictOk (Some (b\<lparr>out := buf\<rparr>))"
  by (simp add: complete_def io_write_def EINTR_def EAGAIN_def)

lemma complete_sync [simp]: "complete (FsyncWork l) 0 = VerdictDurable"
  by (simp add: complete_def)

text \<open>Reaping in mode \<open>Sync\<close>: a whole write makes its batch wait, a sync lets all that wait go.\<close>

lemma reap_whole_write:
  assumes "map_of (inflight e) key = Some (io_write (b\<lparr>out := buf\<rparr>) off)"
    and "ack e = acker_new Sync" and "awaits_durable b"
  shows "reap_one e (key, int (length buf)) =
    Inr (e\<lparr>inflight := AList.delete key (inflight e), awaiting_fsync := awaiting_fsync e @ [b\<lparr>out := buf\<rparr>]\<rparr>)"
proof -
  have "level (acker_new Sync) = Durable" by (simp add: acker_new_def)
  moreover have "awaits_durable (b\<lparr>out := buf\<rparr>)" using assms(3) by (simp add: awaits_durable_def)
  ultimately show ?thesis
    using assms advance_Written_awaits [of "acker_new Sync" "b\<lparr>out := buf\<rparr>"] by (simp add: reap_one_def Let_def)
qed

lemma reap_sync:
  assumes "map_of (inflight e) key = Some (FsyncWork l)" and "list_all awaits_durable (awaiting_fsync e)"
  shows "reap_one e (key, 0) =
    Inr (e\<lparr>inflight := AList.delete key (inflight e), awaiting_fsync := [],
           replies := replies e @ owed_to (awaiting_fsync e),
           recycle_tx := recycle_tx e @ map (\<lambda>_. batch_new) (awaiting_fsync e),
           finished := finished e @ awaiting_fsync e, planner := on_fsync_completed (planner e)\<rparr>)"
proof -
  have "list_all (\<lambda>b. list_all (\<lambda>r. data r \<noteq> []) (items b)) (awaiting_fsync e)"
    using assms(2) by (auto simp: awaits_durable_def list_all_iff)
  then show ?thesis using assms(1) by (simp add: reap_one_def Let_def finish_awaiting_eq)
qed

lemma awaits_durable_out [simp]: "awaits_durable (b\<lparr>out := buf\<rparr>) = awaits_durable b"
  by (simp add: awaits_durable_def)

text \<open>The first iteration of a new engine in mode \<open>Sync\<close>: the write and an fsync are submitted.\<close>

definition engine_with_one :: "nat \<Rightarrow> segment \<Rightarrow> batch \<Rightarrow> bytes \<Rightarrow> wal_engine" where
  "engine_with_one n sg b buf =
     \<lparr>depth = n, pending = [], inflight = [(1, io_write (b\<lparr>out := buf\<rparr>) (seg_offset sg)), (2, FsyncWork (lsn_hi b))],
      spin_budget = DEFAULT_SPIN_BUDGET, last_ingested_lsn = lsn_hi b,
      seg = sg\<lparr>seg_offset := seg_offset sg + of_nat (length buf)\<rparr>, ack = acker_new Sync,
      planner = \<lparr>cadence = Consistently, dirty_bytes = 0, flush_running = True\<rparr>,
      awaiting_fsync = [], replies = [], recycle_tx = [], finished = []\<rparr>"

lemma first_turn:
  assumes new: "wal_engine_new ring_ok open_ok n dir l Sync (acker_new Sync) = Inr (e, dir')" and n: "2 \<le> n"
    and b: "lsn_low b = l" "encode_items (out b) l (items b) = Inr (buf, lsn)" "buf \<noteq> []" "length buf < 2 ^ 31"
  shows "wal_turn next_key 128 [] rounds f1 f2 dir' e [WalWrite b] =
    Inr (Some (engine_with_one n (seg e) b buf, dir', [],
      [(1, SqeWrite (seg_fd (seg e)) buf (seg_offset (seg e))), (2, SqeFsyncDrain (seg_fd (seg e)))],
      park_decision (engine_with_one n (seg e) b buf) True))"
proof -
  note e = wal_engine_new_fields [OF new]
  have rt: "recycle_tx e = []" using new by (auto simp: wal_engine_new_def obind_eq_Inr)
  have lsn: "lsn_low b = last_ingested_lsn e" "encode_items (out b) (lsn_low b) (items b) = Inr (buf, lsn)"
    using e b by simp_all
  have n64: "(of_nat (length buf) :: u64) \<noteq> 0" using b by (intro of_nat_u64_nonzero) simp_all
  let ?w = "io_write (b\<lparr>out := buf\<rparr>) (seg_offset (seg e))"
  let ?e2 = "plan_fsync (ingest b buf e)"
  have e2: "?e2 = (engine_with_one n (seg e) b buf)\<lparr>pending := [?w, FsyncWork (lsn_hi b)], inflight := []\<rparr>"
    using e rt n64 by (cases e) (simp add: plan_fsync_def ingest_def on_write_queued_def planner_new_def
        should_fsync_def engine_with_one_def)
  have "submit_loop next_key 128 ?e2 = Inr (engine_with_one n (seg e) b buf,
      [(1, SqeWrite (seg_fd (seg e)) buf (seg_offset (seg e))), (2, SqeFsyncDrain (seg_fd (seg e)))])"
    unfolding e2 using n b(4)
    by (simp add: submit_loop_Cons submit_loop_Nil sqe_of_write_whole next_key_def engine_with_one_def)
  then show ?thesis
    unfolding wal_turn_receive [OF lsn] by (simp add: handle_pending_def e2) (simp add: engine_with_one_def)
qed

text \<open>
  Every ring that has completed a write, a sync and a write in the order they were submitted
  could have done so.
\<close>

lemma ring_in_order:
  "whole_ring\<^sup>*\<^sup>*
    \<lparr>ring_sq = [(k1, SqeWrite fd buf1 off1), (k2, SqeFsyncDrain fd), (k3, SqeWrite fd buf2 off2)],
     ring_cq = [], cache = c, stable = t\<rparr>
    \<lparr>ring_sq = [], ring_cq = [(k1, int (length buf1)), (k2, 0), (k3, int (length buf2))],
     cache = c ++ region (unat off1) buf1 ++ region (unat off2) buf2, stable = c ++ region (unat off1) buf1\<rparr>"
  (is "rtranclp _ ?a ?d")
proof -
  let ?b = "\<lparr>ring_sq = [(k2, SqeFsyncDrain fd), (k3, SqeWrite fd buf2 off2)], ring_cq = [(k1, int (length buf1))],
     cache = c ++ region (unat off1) buf1, stable = t\<rparr>"
  let ?c = "\<lparr>ring_sq = [(k3, SqeWrite fd buf2 off2)], ring_cq = [(k1, int (length buf1)), (k2, 0)],
     cache = c ++ region (unat off1) buf1, stable = c ++ region (unat off1) buf1\<rparr>"
  have "completes 0 (int (length buf1)) ?a ?b" "completes 0 0 ?b ?c" "completes 0 (int (length buf2)) ?c ?d"
    by (simp_all add: completes_def)
  then have "whole_ring ?a ?b" "whole_ring ?b ?c" "whole_ring ?c ?d" by (fastforce simp: whole_ring_def)+
  then show ?thesis by (meson rtranclp.rtrancl_refl rtranclp.rtrancl_into_rtrancl)
qed

text \<open>
  A second batch received while the first write and its sync are in flight; then an iteration
  without a message that finds all three completions: the second batch waits, and nothing is
  queued or in flight.
\<close>

lemma lost_turns:
  assumes n: "3 \<le> n" and b1: "awaits_durable b1"
    and b2: "awaits_durable b2" "lsn_low b2 = lsn_hi b1"
      "encode_items (out b2) (lsn_hi b1) (items b2) = Inr (buf2, x2)" "buf2 \<noteq> []" "length buf2 < 2 ^ 31"
  shows "\<exists>e2 e3 pk2 pk3. wal_turn next_key 128 [] rounds f1 f2 dir (engine_with_one n sg b1 buf1) [WalWrite b2] =
      Inr (Some (e2, dir, [], [(4, SqeWrite (seg_fd sg) buf2 (seg_offset sg + of_nat (length buf1)))], pk2)) \<and>
    wal_turn next_key 128 [(1, int (length buf1)), (2, 0), (4, int (length buf2))] rounds f1 f2 dir e2 [] =
      Inr (Some (e3, dir, [], [], pk3)) \<and>
    awaiting_fsync e3 = [b2\<lparr>out := buf2\<rparr>] \<and> dirty_bytes (planner e3) \<noteq> 0 \<and> should_park e3"
proof -
  let ?e1 = "engine_with_one n sg b1 buf1" and ?fd = "seg_fd sg" and ?o2 = "seg_offset sg + of_nat (length buf1)"
  let ?ss2 = "[(4, SqeWrite ?fd buf2 ?o2)]" and ?cqes = "[(1, int (length buf1)), (2, 0), (4, int (length buf2))]"
  have n64: "(of_nat (length buf2) :: u64) \<noteq> 0" using b2 by (intro of_nat_u64_nonzero) simp_all
  have lsn: "lsn_low b2 = last_ingested_lsn ?e1" "encode_items (out b2) (lsn_low b2) (items b2) = Inr (buf2, x2)"
    using b2(2,3) by (simp_all add: engine_with_one_def)
  let ?w2 = "io_write (b2\<lparr>out := buf2\<rparr>) ?o2"
  let ?e2 = "plan_fsync (ingest b2 buf2 ?e1)"
  have e2: "?e2 = ingest b2 buf2 ?e1" "pending ?e2 = [?w2]" "seg_fd (seg ?e2) = ?fd" "depth ?e2 = n"
    "inflight ?e2 = inflight ?e1" "dirty_bytes (planner ?e2) = of_nat (length buf2)"
    by (simp_all add: plan_fsync_def ingest_def on_write_queued_def should_fsync_def engine_with_one_def)
  let ?e3 = "?e2\<lparr>pending := [], inflight := inflight ?e1 @ [(4, ?w2)]\<rparr>"
  have "submit_loop next_key 128 ?e2 = Inr (?e3, ?ss2)"
    using n b2(5) e2(2-5)
    by (simp add: submit_loop_Cons submit_loop_Nil sqe_of_write_whole next_key_def engine_with_one_def)
  then have "handle_pending next_key 128 ?e2 = Inr (?e3, ?ss2, True)"
    using e2(2,5) by (simp add: handle_pending_def)
  then have t2: "wal_turn next_key 128 [] rounds f1 f2 dir ?e1 [WalWrite b2] = Inr (Some (?e3, dir, [], ?ss2, park_decision ?e3 True))"
    unfolding wal_turn_receive [OF lsn] by simp
  let ?e4 = "?e3\<lparr>spin_budget := spin_budget ?e3 - 1\<rparr>"
  have np: "\<not> should_park ?e3" by (simp add: should_park_def)
  have "plan_fsync ?e4 = ?e4" unfolding e2(1)
    by (simp add: plan_fsync_def ingest_def on_write_queued_def should_fsync_def engine_with_one_def)
  then have hp: "handle_pending next_key 128 (plan_fsync ?e4) = Inr (?e4, [], False)" by (simp add: handle_pending_def)
  obtain e5 where reap: "reap_cqes ?e4 ?cqes = Inr e5" and e5: "awaiting_fsync e5 = [b2\<lparr>out := buf2\<rparr>]"
    "dirty_bytes (planner e5) = of_nat (length buf2)" "pending e5 = []" "inflight e5 = []"
    using b1 b2(1) unfolding e2(1)
    by (simp add: reap_whole_write reap_sync ingest_def engine_with_one_def on_fsync_completed_def on_write_queued_def)
  have "wal_turn next_key 128 ?cqes rounds f1 f2 dir ?e3 [] = Inr (Some (e5, dir, [], [], park_decision e5 False))"
    unfolding wal_turn_idle [OF np] hp obind_Inr prod.case reap by (rule refl)
  moreover have "should_park e5" "dirty_bytes (planner e5) \<noteq> 0" using e5 n64 by (simp_all add: should_park_def)
  ultimately show ?thesis using t2 e5(1) by blast
qed

text \<open>
  The second iteration when the first write and its sync have completed by then: the first batch
  is acknowledged, the second write is in flight and no sync is running.
\<close>

definition engine_second :: "nat \<Rightarrow> segment \<Rightarrow> batch \<Rightarrow> bytes \<Rightarrow> batch \<Rightarrow> bytes \<Rightarrow> wal_engine" where
  "engine_second n sg b1 buf1 b2 buf2 =
     \<lparr>depth = n, pending = [],
      inflight = [(4, io_write (b2\<lparr>out := buf2\<rparr>) (seg_offset sg + of_nat (length buf1)))],
      spin_budget = DEFAULT_SPIN_BUDGET, last_ingested_lsn = lsn_hi b2,
      seg = sg\<lparr>seg_offset := seg_offset sg + of_nat (length buf1) + of_nat (length buf2)\<rparr>, ack = acker_new Sync,
      planner = \<lparr>cadence = Consistently, dirty_bytes = of_nat (length buf2), flush_running = False\<rparr>,
      awaiting_fsync = [], replies = owed_to [b1\<lparr>out := buf1\<rparr>], recycle_tx = [batch_new], finished = [b1\<lparr>out := buf1\<rparr>]\<rparr>"

lemma second_turn:
  assumes n: "3 \<le> n" and b1: "awaits_durable b1"
    and b2: "lsn_low b2 = lsn_hi b1" "encode_items (out b2) (lsn_hi b1) (items b2) = Inr (buf2, x2)" "length buf2 < 2 ^ 31"
  shows "wal_turn next_key 128 [(1, int (length buf1)), (2, 0)] rounds f1 f2 dir (engine_with_one n sg b1 buf1) [WalWrite b2] =
    Inr (Some (engine_second n sg b1 buf1 b2 buf2, dir, [],
      [(4, SqeWrite (seg_fd sg) buf2 (seg_offset sg + of_nat (length buf1)))],
      park_decision (engine_second n sg b1 buf1 b2 buf2) True))"
proof -
  let ?e1 = "engine_with_one n sg b1 buf1"
  let ?w2 = "io_write (b2\<lparr>out := buf2\<rparr>) (seg_offset sg + of_nat (length buf1))"
  let ?e2 = "ingest b2 buf2 ?e1" and ?ss = "[(4, SqeWrite (seg_fd sg) buf2 (seg_offset sg + of_nat (length buf1)))]"
  have lsn: "lsn_low b2 = last_ingested_lsn ?e1" "encode_items (out b2) (lsn_low b2) (items b2) = Inr (buf2, x2)"
    using b2(1,2) by (simp_all add: engine_with_one_def)
  have plan: "plan_fsync ?e2 = ?e2"
    by (simp add: plan_fsync_def ingest_def on_write_queued_def should_fsync_def engine_with_one_def)
  let ?e3 = "?e2\<lparr>pending := [], inflight := inflight ?e1 @ [(4, ?w2)]\<rparr>"
  have "submit_loop next_key 128 ?e2 = Inr (?e3, ?ss)"
    using n b2(3) by (simp add: submit_loop_Cons submit_loop_Nil sqe_of_write_whole next_key_def engine_with_one_def ingest_def)
  then have hp: "handle_pending next_key 128 (plan_fsync ?e2) = Inr (?e3, ?ss, True)"
    unfolding plan by (simp add: handle_pending_def ingest_def engine_with_one_def)
  have reap: "reap_cqes ?e3 [(1, int (length buf1)), (2, 0)] = Inr (engine_second n sg b1 buf1 b2 buf2)"
    using b1
    by (simp add: reap_whole_write reap_sync ingest_def engine_with_one_def on_fsync_completed_def on_write_queued_def
        engine_second_def)
  show ?thesis unfolding wal_turn_receive [OF lsn] hp obind_Inr prod.case reap by (rule refl)
qed

text \<open>
  The third batch: its write and a sync are submitted behind the second write. The next
  iteration finds the second write interrupted and the other two completed.
\<close>

lemma hole_turns:
  assumes n: "3 \<le> n" and b: "awaits_durable b1" "awaits_durable b2" "buf2 \<noteq> []" "length buf2 + length buf3 < 2 ^ 31"
    and b3: "awaits_durable b3" "lsn_low b3 = lsn_hi b2" "encode_items (out b3) (lsn_hi b2) (items b3) = Inr (buf3, x3)" "buf3 \<noteq> []"
  shows "\<exists>e3 e4 pk3 pk4. wal_turn next_key 128 [] rounds f1 f2 dir (engine_second n sg b1 buf1 b2 buf2) [WalWrite b3] =
      Inr (Some (e3, dir, [],
        [(5, SqeWrite (seg_fd sg) buf3 (seg_offset sg + of_nat (length buf1) + of_nat (length buf2))),
         (10, SqeFsyncDrain (seg_fd sg))], pk3)) \<and>
    wal_turn next_key 128 [(4, - EINTR), (5, int (length buf3)), (10, 0)] rounds f1 f2 dir e3 [] = Inr (Some (e4, dir, [], [], pk4)) \<and>
    finished e4 = [b1\<lparr>out := buf1\<rparr>, b3\<lparr>out := buf3\<rparr>] \<and> replies e4 = owed_to [b1\<lparr>out := buf1\<rparr>, b3\<lparr>out := buf3\<rparr>] \<and>
    pending e4 = [io_write (b2\<lparr>out := buf2\<rparr>) (seg_offset sg + of_nat (length buf1))] \<and> inflight e4 = []"
proof -
  let ?e1 = "engine_second n sg b1 buf1 b2 buf2"
  let ?o2 = "seg_offset sg + of_nat (length buf1)" and ?o3 = "seg_offset sg + of_nat (length buf1) + of_nat (length buf2)"
  let ?w2 = "io_write (b2\<lparr>out := buf2\<rparr>) ?o2" and ?w3 = "io_write (b3\<lparr>out := buf3\<rparr>) ?o3"
  let ?ss = "[(5, SqeWrite (seg_fd sg) buf3 ?o3), (10, SqeFsyncDrain (seg_fd sg))]"
  let ?e2 = "ingest b3 buf3 ?e1"
  have lsn: "lsn_low b3 = last_ingested_lsn ?e1" "encode_items (out b3) (lsn_low b3) (items b3) = Inr (buf3, x3)"
    using b3(2,3) by (simp_all add: engine_second_def)
  have d: "(of_nat (length buf2) + of_nat (length buf3) :: u64) \<noteq> 0"
    using of_nat_u64_nonzero [of "length buf2 + length buf3"] b(3,4) by simp
  let ?p = "\<lparr>cadence = Consistently, dirty_bytes = 0, flush_running = True\<rparr>"
  have plan: "plan_fsync ?e2 = ?e2\<lparr>planner := ?p, pending := [?w3, FsyncWork (lsn_hi b3)]\<rparr>"
    using d by (simp add: plan_fsync_def ingest_def on_write_queued_def should_fsync_def engine_second_def)
  let ?e3 = "?e2\<lparr>planner := ?p, pending := [], inflight := [(4, ?w2), (5, ?w3), (10, FsyncWork (lsn_hi b3))]\<rparr>"
  have "submit_loop next_key 128 (plan_fsync ?e2) = Inr (?e3, ?ss)"
    unfolding plan using n b(4)
    by (simp add: submit_loop_Cons submit_loop_Nil sqe_of_write_whole next_key_def engine_second_def ingest_def)
  then have "handle_pending next_key 128 (plan_fsync ?e2) = Inr (?e3, ?ss, True)"
    unfolding plan by (simp add: handle_pending_def ingest_def engine_second_def)
  then have t3: "wal_turn next_key 128 [] rounds f1 f2 dir ?e1 [WalWrite b3] = Inr (Some (?e3, dir, [], ?ss, park_decision ?e3 True))"
    unfolding wal_turn_receive [OF lsn] by simp
  let ?e4 = "?e3\<lparr>spin_budget := spin_budget ?e3 - 1\<rparr>"
  have np: "\<not> should_park ?e3" by (simp add: should_park_def)
  have "plan_fsync ?e4 = ?e4" by (simp add: plan_fsync_def should_fsync_def ingest_def engine_second_def)
  then have hp: "handle_pending next_key 128 (plan_fsync ?e4) = Inr (?e4, [], False)" by (simp add: handle_pending_def)
  have retry: "reap_one ?e4 (4, - EINTR) =
      Inr (?e4\<lparr>inflight := [(5, ?w3), (10, FsyncWork (lsn_hi b3))],
               planner := on_write_queued (of_nat (length buf2)) ?p, pending := [?w2]\<rparr>)"
    by (simp add: reap_one_def complete_def io_write_def Let_def)
  obtain e5 where reap: "reap_cqes ?e4 [(4, - EINTR), (5, int (length buf3)), (10, 0)] = Inr e5"
    and e5: "finished e5 = [b1\<lparr>out := buf1\<rparr>, b3\<lparr>out := buf3\<rparr>]" "replies e5 = owed_to [b1\<lparr>out := buf1\<rparr>, b3\<lparr>out := buf3\<rparr>]"
      "pending e5 = [?w2]" "inflight e5 = []"
    using b3(1) unfolding reap_cqes.simps retry obind_Inr
    by (simp add: reap_whole_write reap_sync ingest_def engine_second_def on_fsync_completed_def owed_to_def)
  have "wal_turn next_key 128 [(4, - EINTR), (5, int (length buf3)), (10, 0)] rounds f1 f2 dir ?e3 [] =
      Inr (Some (e5, dir, [], [], park_decision e5 False))"
    unfolding wal_turn_idle [OF np] hp obind_Inr prod.case reap by (rule refl)
  then show ?thesis using t3 e5 by blast
qed

text \<open>The most general ring that keeps the contract can complete these five operations so.\<close>

definition any_ring :: "ring_state \<Rightarrow> ring_state \<Rightarrow> bool" where
  "any_ring k k' \<longleftrightarrow> (\<exists>i res. completes i res k k')"

lemma any_ring_contract: "ring_contract any_ring"
  by (simp add: ring_contract_def any_ring_def)

lemma ring_first_pair:
  "any_ring\<^sup>*\<^sup>*
    \<lparr>ring_sq = [(k1, SqeWrite fd buf1 o1), (k2, SqeFsyncDrain fd)], ring_cq = [], cache = Map.empty, stable = Map.empty\<rparr>
    \<lparr>ring_sq = [], ring_cq = [(k1, int (length buf1)), (k2, 0)],
     cache = region (unat o1) buf1, stable = region (unat o1) buf1\<rparr>"
  (is "rtranclp _ ?a ?c")
proof -
  let ?b = "\<lparr>ring_sq = [(k2, SqeFsyncDrain fd)], ring_cq = [(k1, int (length buf1))], cache = region (unat o1) buf1, stable = Map.empty\<rparr>"
  have "completes 0 (int (length buf1)) ?a ?b" "completes 0 0 ?b ?c" by (simp_all add: completes_def)
  then have "any_ring ?a ?b" "any_ring ?b ?c" unfolding any_ring_def by blast+
  then show ?thesis by (meson rtranclp.rtrancl_refl rtranclp.rtrancl_into_rtrancl)
qed

lemma ring_with_hole:
  "any_ring\<^sup>*\<^sup>*
    \<lparr>ring_sq = [(k3, SqeWrite fd buf2 o2), (k4, SqeWrite fd buf3 o3), (k5, SqeFsyncDrain fd)], ring_cq = [], cache = c, stable = t\<rparr>
    \<lparr>ring_sq = [], ring_cq = [(k3, - EINTR), (k4, int (length buf3)), (k5, 0)],
     cache = c ++ region (unat o3) buf3, stable = c ++ region (unat o3) buf3\<rparr>"
  (is "rtranclp _ ?a ?d")
proof -
  let ?r3 = "region (unat o3) buf3" and ?q5 = "(k5, SqeFsyncDrain fd)" and ?q4 = "(k4, SqeWrite fd buf3 o3)"
  let ?b = "\<lparr>ring_sq = [?q4, ?q5], ring_cq = [(k3, - EINTR)], cache = c, stable = t\<rparr>"
  let ?c = "\<lparr>ring_sq = [?q5], ring_cq = [(k3, - EINTR), (k4, int (length buf3))], cache = c ++ ?r3, stable = t\<rparr>"
  have "completes 0 (- EINTR) ?a ?b" "completes 0 (int (length buf3)) ?b ?c" "completes 0 0 ?c ?d"
    by (simp_all add: completes_def EINTR_def)
  then have "any_ring ?a ?b" "any_ring ?b ?c" "any_ring ?c ?d" unfolding any_ring_def by blast+
  then show ?thesis by (meson rtranclp.rtrancl_refl rtranclp.rtrancl_into_rtrancl)
qed

section \<open>Properties\<close>

text \<open>
  C31. The lost wake-up. In mode \<open>Sync\<close> the loop can go to sleep owing an fsync. Take any two
  consecutive batches with PUTs. The first iteration receives the first one and submits its
  write and an fsync; the second iteration receives the second one and submits its write (no
  fsync, one is running); a third one without a message finds all three completions, which the
  ring can produce in this order. Now the second batch waits for an fsync and its bytes are
  counted as dirty, but nothing is queued or in flight, so the next iteration blocks on the
  channel without asking the planner: until another write arrives, the clients of the second
  batch get no answer.
\<close>

theorem sync_lost_wakeup:
  assumes new: "wal_engine_new ring_ok open_ok n dir l Sync (acker_new Sync) = Inr (e, dir')" and n: "3 \<le> n"
    and b1: "awaits_durable b1" "lsn_low b1 = l" "encode_items (out b1) l (items b1) = Inr (buf1, x1)"
      "buf1 \<noteq> []" "length buf1 < 2 ^ 31"
    and b2: "awaits_durable b2" "lsn_low b2 = lsn_hi b1"
      "encode_items (out b2) (lsn_hi b1) (items b2) = Inr (buf2, x2)" "buf2 \<noteq> []" "length buf2 < 2 ^ 31"
  shows "\<exists>e1 e2 e3 ss1 ss2 cqes pk1 pk2 pk3.
     wal_turn next_key 128 [] [] True True dir' e [WalWrite b1] = Inr (Some (e1, dir', [], ss1, pk1)) \<and>
     wal_turn next_key 128 [] [] True True dir' e1 [WalWrite b2] = Inr (Some (e2, dir', [], ss2, pk2)) \<and>
     (\<exists>k. whole_ring\<^sup>*\<^sup>* \<lparr>ring_sq = ss1 @ ss2, ring_cq = [], cache = Map.empty, stable = Map.empty\<rparr> k \<and> ring_cq k = cqes) \<and>
     wal_turn next_key 128 cqes [] True True dir' e2 [] = Inr (Some (e3, dir', [], [], pk3)) \<and>
     awaiting_fsync e3 = [b2\<lparr>out := buf2\<rparr>] \<and> dirty_bytes (planner e3) \<noteq> 0 \<and>
     (\<forall>vacant room cqes rounds f1 f2 dir. wal_turn vacant room cqes rounds f1 f2 dir e3 [] = Inr None)"
proof -
  let ?e1 = "engine_with_one n (seg e) b1 buf1"
  let ?fd = "seg_fd (seg e)" and ?o1 = "seg_offset (seg e)" and ?o2 = "seg_offset (seg e) + of_nat (length buf1)"
  let ?ss1 = "[(1, SqeWrite ?fd buf1 ?o1), (2, SqeFsyncDrain ?fd)]" and ?ss2 = "[(4, SqeWrite ?fd buf2 ?o2)]"
  let ?cqes = "[(1, int (length buf1)), (2, 0), (4, int (length buf2))]"
  have n2: "2 \<le> n" using n by simp
  note t1 = first_turn [OF new n2 b1(2-5), of "[]" True True]
  obtain e2 e3 pk2 pk3 where t2: "wal_turn next_key 128 [] [] True True dir' ?e1 [WalWrite b2] = Inr (Some (e2, dir', [], ?ss2, pk2))"
    and t3: "wal_turn next_key 128 ?cqes [] True True dir' e2 [] = Inr (Some (e3, dir', [], [], pk3))"
    and e3: "awaiting_fsync e3 = [b2\<lparr>out := buf2\<rparr>]" "dirty_bytes (planner e3) \<noteq> 0" "should_park e3"
    using lost_turns [OF n b1(1) b2] by blast
  have "wal_turn vacant room cqes rounds f1 f2 dir e3 [] = Inr None" for vacant room cqes rounds f1 f2 dir
    using e3(3) by (rule wal_turn_blocked)
  moreover have "\<exists>k. whole_ring\<^sup>*\<^sup>* \<lparr>ring_sq = ?ss1 @ ?ss2, ring_cq = [], cache = Map.empty, stable = Map.empty\<rparr> k \<and>
      ring_cq k = ?cqes"
    using ring_in_order [of 1 ?fd buf1 ?o1 2 4 buf2 ?o2 Map.empty Map.empty] by fastforce
  ultimately show ?thesis using t1 t2 t3 e3(1,2) by metis
qed

theorem sync_lost_wakeup_witness:
  "\<exists>e dir' e1 e2 e3 ss1 ss2 cqes pk1 pk2 pk3.
     wal_engine_new True True 128 empty_dir 1 Sync (acker_new Sync) = Inr (e, dir') \<and>
     wal_turn next_key 128 [] [] True True dir' e [WalWrite (put_batch 1)] = Inr (Some (e1, dir', [], ss1, pk1)) \<and>
     wal_turn next_key 128 [] [] True True dir' e1 [WalWrite (put_batch 2)] = Inr (Some (e2, dir', [], ss2, pk2)) \<and>
     wal_turn next_key 128 cqes [] True True dir' e2 [] = Inr (Some (e3, dir', [], [], pk3)) \<and>
     awaiting_fsync e3 \<noteq> [] \<and> wal_turn next_key 128 [] [] True True dir' e3 [] = Inr None"
proof -
  let ?r = "req_body Put [1] [7]"
  obtain e dir' where new: "wal_engine_new True True 128 empty_dir 1 Sync (acker_new Sync) = Inr (e, dir')"
    by (simp add: wal_engine_new_def segment_open_def Let_def)
  have len: "length (record_bytes (l, ?r)) < 2 ^ 31" for l by simp
  from sync_lost_wakeup [OF new, of "put_batch 1" "record_bytes (2, ?r)" 2 "put_batch 2" "record_bytes (3, ?r)" 3]
    put_batch_facts [of 1] put_batch_facts [of 2] len
  show ?thesis using new by fastforce
qed

end
