(* ===== verification/Pipeline.thy ===== *)
theory Pipeline
  imports Stage1 Stage2 Recover Wal_Prefix Wal_Loop
begin

text \<open>
  The stages put together. The batches stage 2 hands over are gapless and stage 3 encodes exactly
  the numbering stage 2 assigned; what reaches the disk is the sequence of PUTs in the order
  they were served; recovery after a crash gives the table after a prefix of the requests that
  contains every acknowledged one.
\<close>

section \<open>The log of a sequence of requests\<close>

fun log_of :: "u64 \<Rightarrow> request list \<Rightarrow> (u64 \<times> bytes) list" where
  "log_of l [] = []"
| "log_of l (r # rs) = (if is_put r then (l + 1, data r) # log_of (l + 1) rs else log_of l rs)"

lemma length_log_of [simp]: "length (log_of l rs) = puts rs"
  by (induction rs arbitrary: l) auto

lemma log_of_append: "log_of l (xs @ ys) = log_of l xs @ log_of (l + of_nat (puts xs)) ys"
  by (induction xs arbitrary: l) (auto simp: add.assoc)

lemma log_of_data: "map data rs = map data rs' \<Longrightarrow> log_of l rs = log_of l rs'"
proof (induction rs arbitrary: rs' l)
  case (Cons r rs)
  then obtain r' rest where "rs' = r' # rest" "data r' = data r" "map data rs = map data rest" by (cases rs') auto
  then show ?case using Cons.IH [of rest] by (auto simp: is_put_def kind_def)
qed simp

lemma log_of_no_put: "puts rs = 0 \<Longrightarrow> log_of l rs = []"
  by (metis length_0_conv length_log_of)

lemma log_of_take: "\<exists>i \<le> length rs. log_of l (take i rs) = take j (log_of l rs)"
proof (induction rs arbitrary: l j)
  case Nil
  then show ?case by simp
next
  case (Cons r rs)
  show ?case
  proof (cases "is_put r \<and> j = 0")
    case True
    then show ?thesis by (intro exI [of _ 0]) simp
  next
    case False
    obtain i where "i \<le> length rs"
      "log_of (if is_put r then l + 1 else l) (take i rs) =
        take (if is_put r then j - 1 else j) (log_of (if is_put r then l + 1 else l) rs)"
      using Cons.IH by blast
    then show ?thesis using False by (intro exI [of _ "Suc i"]) (auto simp: take_Cons')
  qed
qed

lemma log_of_lsn:
  "unat l + puts rs < 2 ^ 64 \<Longrightarrow> i < puts rs \<Longrightarrow> unat (fst (log_of l rs ! i)) = unat l + Suc i"
proof (induction rs arbitrary: l i)
  case Nil
  then show ?case by simp
next
  case (Cons r rs)
  show ?case
  proof (cases "is_put r")
    case False
    then show ?thesis using Cons by simp
  next
    case True
    have l1: "unat (l + 1) = unat l + 1"
      using Cons.prems(1) True by (simp add: unat_word_ariths)
    show ?thesis
    proof (cases i)
      case 0
      then show ?thesis using True l1 by simp
    next
      case (Suc j)
      then show ?thesis using Cons.IH [of "l + 1" j] Cons.prems True l1 by simp
    qed
  qed
qed

text \<open>Replaying the log is serving the requests.\<close>

lemma replay_serve: "foldl apply_body d (map snd (log_of l rs)) = foldl serve d rs"
  by (induction rs arbitrary: d l)
     (auto simp: serve_def apply_body_def is_put_def kind_def operation_from_eq_Put db_put_insert_raw)

definition req_fits :: "request \<Rightarrow> bool" where
  "req_fits r \<longleftrightarrow> wf_req r \<and> length (data r) \<le> MAX_FRAME"

lemma log_of_entry_ok: "list_all req_fits rs \<Longrightarrow> list_all entry_ok (log_of l rs)"
  by (induction rs arbitrary: l)
     (auto simp: req_fits_def entry_ok_def record_fits_def wf_req_def MAX_FRAME_def)

section \<open>What stage 3 encodes\<close>

lemma encode_items_eq:
  "list_all (\<lambda>r. data r \<noteq> []) rs \<Longrightarrow>
   encode_items buf l rs = Inr (buf @ concat (map record_bytes (log_of l rs)), l + of_nat (puts rs))"
proof (induction rs arbitrary: buf l)
  case Nil
  then show ?case by simp
next
  case (Cons r rs)
  then have "req_op r = Inr (kind r)" by (simp add: req_op_nonempty)
  then show ?case using Cons
    by (cases "kind r") (simp_all add: is_put_def encode_record_append add.assoc)
qed

definition batch_log :: "batch \<Rightarrow> (u64 \<times> bytes) list" where
  "batch_log b = log_of (lsn_low b) (items b)"

lemma batch_log_s2: "batch_log (s2_batch a d l c) = log_of l c"
proof -
  have "map data (map (settle a Applied) (answer_all d c)) = map data c"
    using map_data_answer_all [of d c] by (simp add: o_def)
  from log_of_data [OF this] show ?thesis by (simp add: batch_log_def s2_batch_def)
qed

lemma nonempty_s2_batch: "list_all wf_req c \<Longrightarrow> list_all (\<lambda>r. data r \<noteq> []) (items (s2_batch a d l c))"
  using nonempty_answer_all [of c d] by (simp add: s2_batch_def list_all_iff)

text \<open>The batches of a run continue each other and their logs make up the log of the requests.\<close>

lemma s2_msgs_log: "concat (map batch_log (s2_msgs a d l cs)) = log_of l (concat cs)"
  by (induction a d l cs rule: s2_msgs.induct) (auto simp: batch_log_s2 log_of_append log_of_no_put)

lemma s2_msgs_lsn_hi:
  "j < length (s2_msgs a d l cs) \<Longrightarrow>
   lsn_hi (s2_msgs a d l cs ! j) = l + of_nat (length (concat (map batch_log (take (Suc j) (s2_msgs a d l cs)))))"
proof (induction a d l cs arbitrary: j rule: s2_msgs.induct)
  case (1 a d l)
  then show ?case by simp
next
  case (2 a d l c cs)
  show ?case
  proof (cases "puts c = 0")
    case True
    then show ?thesis using 2 by simp
  next
    case False
    show ?thesis
    proof (cases j)
      case 0
      then show ?thesis using False by (simp add: batch_log_s2) (simp add: s2_batch_def)
    next
      case (Suc i)
      then show ?thesis using 2 False by (simp add: batch_log_s2 add.assoc)
    qed
  qed
qed

section \<open>Handing batches to stage 3\<close>

fun handle_all :: "wal_engine \<Rightarrow> batch list \<Rightarrow> wal_engine outcome" where
  "handle_all e [] = Inr e"
| "handle_all e (b # bs) = obind (handle_batch e b) (\<lambda>e. handle_all e bs)"

text \<open>The writes queued for a list of batches, from a given offset on.\<close>

fun writes_for :: "u64 \<Rightarrow> batch list \<Rightarrow> io_work list" where
  "writes_for off [] = []"
| "writes_for off (b # bs) =
     (let buf = concat (map record_bytes (batch_log b)) in
      io_write (b\<lparr>out := buf\<rparr>) off # writes_for (off + of_nat (length buf)) bs)"

definition s2_shaped :: "batch \<Rightarrow> bool" where
  "s2_shaped b \<longleftrightarrow> out b = [] \<and> list_all (\<lambda>r. data r \<noteq> []) (items b) \<and> lsn_hi b = lsn_low b + of_nat (puts (items b))"

lemma s2_batch_shaped: "list_all wf_req c \<Longrightarrow> s2_shaped (s2_batch a d l c)"
  using nonempty_s2_batch [of c a d l] by (simp add: s2_shaped_def) (simp add: s2_batch_def)

lemma handle_batch_shaped:
  assumes "s2_shaped b" and "lsn_low b = last_ingested_lsn e"
  shows "\<exists>e'. handle_batch e b = Inr e' \<and> last_ingested_lsn e' = lsn_hi b \<and>
     pending e' = pending e @ writes_for (seg_offset (seg e)) [b] \<and>
     seg_offset (seg e') = seg_offset (seg e) + of_nat (length (concat (map record_bytes (batch_log b))))"
  using assms
  by (simp add: s2_shaped_def handle_batch_def encode_items_eq Let_def advance_offset_def batch_log_def)

lemma handle_all_msgs:
  "list_all group_ok cs \<Longrightarrow> last_ingested_lsn e = l \<Longrightarrow>
   \<exists>e'. handle_all e (s2_msgs a d l cs) = Inr e' \<and> last_ingested_lsn e' = l + of_nat (puts (concat cs)) \<and>
     pending e' = pending e @ writes_for (seg_offset (seg e)) (s2_msgs a d l cs) \<and>
     seg_offset (seg e') = seg_offset (seg e) + of_nat (length (concat (map (\<lambda>b. concat (map record_bytes (batch_log b))) (s2_msgs a d l cs))))"
proof (induction a d l cs arbitrary: e rule: s2_msgs.induct)
  case (1 a d l)
  then show ?case by simp
next
  case (2 a d l c cs)
  have "group_ok c" "list_all group_ok cs" using "2.prems"(1) by simp_all
  then have c: "list_all wf_req c" "list_all group_ok cs" by (auto simp: group_ok_def [of c])
  show ?case
  proof (cases "puts c = 0")
    case True
    then show ?thesis using "2.IH" [OF c(2), of e] "2.prems"(2) by simp
  next
    case False
    let ?b = "s2_batch a d l c"
    have "lsn_low ?b = last_ingested_lsn e" "lsn_hi ?b = l + of_nat (puts c)"
      using "2.prems"(2) by (simp_all add: s2_batch_def)
    then obtain e1 where e1: "handle_batch e ?b = Inr e1" "last_ingested_lsn e1 = l + of_nat (puts c)"
      "pending e1 = pending e @ writes_for (seg_offset (seg e)) [?b]"
      "seg_offset (seg e1) = seg_offset (seg e) + of_nat (length (concat (map record_bytes (batch_log ?b))))"
      using handle_batch_shaped [OF s2_batch_shaped [OF c(1)]] by metis
    from "2.IH" [OF c(2) e1(2)] show ?thesis using False e1(1,3,4) by (auto simp: Let_def add.assoc)
  qed
qed

lemma s2_msgs_shaped: "list_all group_ok cs \<Longrightarrow> list_all s2_shaped (s2_msgs a d l cs)"
proof (induction a d l cs rule: s2_msgs.induct)
  case (2 a d l c cs)
  then have "list_all wf_req c" by (simp add: group_ok_def)
  then show ?case using 2 by (simp add: s2_batch_shaped)
qed simp

section \<open>Recovering a segment written after the last recovery\<close>

lemma record_prefix_torn:
  assumes "record_fits x" and "n < length (record_bytes x)"
  shows "decode_record (take n (record_bytes x)) = Inr None"
proof (cases "n < 4")
  case True
  then have "length (take n (record_bytes x)) < 4" by simp
  then show ?thesis by (simp only: decode_record_eq simp_thms if_True)
next
  case False
  obtain l b where x: "x = (l, b)" by (cases x)
  have "frame_len (take n (record_bytes x)) = 8 + length b"
    using assms False by (simp add: frame_len_def record_bytes_eq record_fits_def x min_absorb1)
  then show ?thesis using assms(2) by (simp add: decode_record_eq x)
qed

text \<open>A directory in order: snapshot, intact segments, and room for the next segment.\<close>

definition good_dir :: "dir_state \<Rightarrow> db \<Rightarrow> u64 \<Rightarrow> bool" where
  "good_dir dir d l \<longleftrightarrow>
     recover dir = Inr (d, l) \<and> db_inv d \<and> l \<noteq> 0 \<and> mkdir_ok dir \<and> readable dir (segment_path l) \<and>
     dir_file (segment_path l) dir = None \<and>
     (\<exists>d0 snap segs cs. load_snapshot dir = Inr (d0, snap) \<and>
        list_segments (dir\<lparr>dir_exists := True\<rparr>) = Inr segs \<and> list_all2 (seg_holds dir) segs (map (\<lambda>c. (c, [])) cs) \<and>
        (\<forall>sg \<in> set segs. fst sg < l))"

lemma surviving_intact: "surviving (map (\<lambda>c. (c, [])) cs @ [(es, t)]) = concat cs @ es"
  by (induction cs) simp_all

lemma surviving_intact_all: "surviving (map (\<lambda>c. (c, [])) cs) = concat cs"
  by (induction cs) simp_all

lemma foldl_max_le: "(a :: u64) \<le> foldl max a xs" "x \<in> set xs \<Longrightarrow> x \<le> foldl max a xs"
proof -
  have le: "a \<le> foldl max a ys" for a :: u64 and ys by (induction ys arbitrary: a) (auto intro: order_trans max.cobounded1)
  then show "a \<le> foldl max a xs" .
  show "x \<in> set xs \<Longrightarrow> x \<le> foldl max a xs"
  proof (induction xs arbitrary: a)
    case (Cons y ys)
    show ?case
    proof (cases "x = y")
      case True
      then show ?thesis using le [of "max a y"] by simp
    next
      case False
      then show ?thesis using Cons by simp
    qed
  qed simp
qed

lemma recover_append:
  assumes good: "good_dir dir d l" and es: "list_all entry_ok es" "\<forall>x \<in> set es. l < fst x"
    and t: "t = [] \<or> torn_tail t"
  shows "recover (dir_write (segment_path l) (concat (map record_bytes es) @ t) dir) =
    Inr (foldl apply_body d (map snd es), foldl max (l - 1) (map fst es) + 1)"
proof -
  let ?log = "concat (map record_bytes es) @ t"
  let ?dir = "dir_write (segment_path l) ?log dir"
  from good obtain d0 snap segs cs where snap: "load_snapshot dir = Inr (d0, snap)"
    and segs: "list_segments (dir\<lparr>dir_exists := True\<rparr>) = Inr segs"
    and holds: "list_all2 (seg_holds dir) segs (map (\<lambda>c. (c, [])) cs)"
    and fresh: "\<forall>sg \<in> set segs. fst sg < l" "dir_file (segment_path l) dir = None"
    and rec: "recover dir = Inr (d, l)" and mk: "mkdir_ok dir" and rd: "readable dir (segment_path l)" and l0: "l \<noteq> 0"
    unfolding good_dir_def by blast
  from recover_eq [OF mk snap segs holds] rec
  have d: "d = foldl apply_body d0 (map snd (live snap (concat cs)))"
    and l: "l = foldl max snap (map fst (live snap (concat cs))) + 1"
    by (simp_all add: surviving_intact_all)
  have hi: "foldl max snap (map fst (live snap (concat cs))) = l - 1" using l by simp
  then have "snap \<le> l - 1" using foldl_max_le(1) by metis
  moreover have "l - 1 < l" using l0 by (simp add: word_less_nat_alt unat_minus_one unat_gt_0)
  ultimately have "snap < l" by simp
  then have "\<forall>x \<in> set es. snap < fst x" using es(2) by (metis order.strict_trans)
  then have live: "live snap (concat cs @ es) = live snap (concat cs) @ es" by (simp add: live_def)
  note dw = dir_write_segment [OF segs holds fresh, of ?log]
  have "seg_holds ?dir (l, segment_path l) (es, t)"
    using dw es t rd by (simp add: seg_holds_def dir_write_def)
  then have "list_all2 (seg_holds ?dir) (segs @ [(l, segment_path l)]) (map (\<lambda>c. (c, [])) cs @ [(es, t)])"
    using dw by (intro list_all2_appendI) auto
  moreover have "mkdir_ok ?dir" using mk by (simp add: dir_write_def)
  ultimately show ?thesis
    using recover_eq [of ?dir d0 snap "segs @ [(l, segment_path l)]" "map (\<lambda>c. (c, [])) cs @ [(es, t)]"] dw snap
    by (simp add: surviving_intact live d hi)
qed

lemma list_all_takeI: "list_all P xs \<Longrightarrow> list_all P (take n xs)"
  by (auto simp: list_all_iff dest: in_set_takeD)

lemma log_of_greater:
  assumes "unat l + puts rs < 2 ^ 64" and "x \<in> set (log_of l rs)"
  shows "l < fst x"
proof -
  obtain i where "i < puts rs" "x = log_of l rs ! i" using assms(2) by (auto simp: in_set_conv_nth)
  then have "unat (fst x) = unat l + Suc i" using log_of_lsn [OF assms(1)] by simp
  then show ?thesis by (simp add: word_less_nat_alt)
qed

text \<open>
  The sequence number that recovery returns after the requests served: one more than the last one
  assigned, or the one it started with.
\<close>

definition next_lsn :: "u64 \<Rightarrow> request list \<Rightarrow> u64" where
  "next_lsn l rs = (if puts rs = 0 then l else l + of_nat (puts rs) + 1)"

lemma highest_lsn:
  "unat l + puts rs < 2 ^ 64 \<Longrightarrow> l \<noteq> 0 \<Longrightarrow>
   foldl max (l - 1) (map fst (log_of l rs)) = (if puts rs = 0 then l - 1 else l + of_nat (puts rs))"
proof (induction rs rule: rev_induct)
  case Nil
  then show ?case by simp
next
  case (snoc r rs)
  let ?h = "if puts rs = 0 then l - 1 else l + of_nat (puts rs)"
  have IH: "foldl max (l - 1) (map fst (log_of l rs)) = ?h" using snoc by simp
  show ?case
  proof (cases "is_put r")
    case False
    then show ?thesis using IH by (simp add: log_of_append)
  next
    case True
    have "unat l + Suc (puts rs) < 2 ^ 64" using snoc.prems True by simp
    then have "unat (l + of_nat (puts rs) + 1) = unat l + Suc (puts rs)" "unat (l + of_nat (puts rs)) = unat l + puts rs"
      by (simp_all add: unat_word_ariths unat_of_nat)
    moreover have "unat (l - 1) < unat l" using snoc.prems(2) by (simp add: unat_minus_one unat_gt_0)
    ultimately have "?h \<le> l + of_nat (puts rs) + 1" by (auto simp: word_le_nat_alt)
    then show ?thesis using IH True by (simp add: log_of_append max_absorb2 algebra_simps)
  qed
qed

lemma recover_requests:
  assumes good: "good_dir dir d l" and rs: "list_all req_fits rs" and nw: "unat l + puts rs < 2 ^ 64"
    and t: "t = [] \<or> torn_tail t"
  shows "recover (dir_write (segment_path l) (concat (map record_bytes (log_of l rs)) @ t) dir) =
    Inr (foldl serve d rs, next_lsn l rs)"
proof -
  have "l \<noteq> 0" using good by (simp add: good_dir_def)
  note hi = highest_lsn [OF nw this]
  have "recover (dir_write (segment_path l) (concat (map record_bytes (log_of l rs)) @ t) dir) =
      Inr (foldl apply_body d (map snd (log_of l rs)), foldl max (l - 1) (map fst (log_of l rs)) + 1)"
    using log_of_entry_ok [OF rs] log_of_greater [OF nw] t by (intro recover_append [OF good]) auto
  then show ?thesis by (simp add: replay_serve hi next_lsn_def)
qed

text \<open>
  What a power loss may leave of the segment file, given the stable bytes and the log that was
  handed to stage 3: no stable byte is changed, and the file is a run of records from the front of
  the log, followed by nothing or by bytes that the decoder rejects. Of the bytes that are not
  stable any may be missing or damaged, as long as the checksum detects it.
\<close>

definition crash_leaves :: "image \<Rightarrow> bytes \<Rightarrow> bytes \<Rightarrow> bool" where
  "crash_leaves st log f \<longleftrightarrow>
     (\<forall>p b. st p = Some b \<longrightarrow> p < length f \<and> f ! p = b) \<and>
     (\<exists>es t. f = concat (map record_bytes es) @ t \<and> prefix es (fst (frames wal_dec log)) \<and> (t = [] \<or> torn_tail t))"

text \<open>Recovering from such a file: it covers at least the records in the bytes that were kept.\<close>

lemma recover_crash:
  assumes good: "good_dir dir d l" and rs: "list_all req_fits rs" and nw: "unat l + puts rs < 2 ^ 64"
    and f: "f = concat (map record_bytes es) @ t" "prefix es (log_of l rs)" "t = [] \<or> torn_tail t"
    and kept: "take m f = take m (concat (map record_bytes (log_of l rs)))"
  shows "\<exists>i \<le> length rs.
    recover (dir_write (segment_path l) f dir) = Inr (foldl serve d (take i rs), next_lsn l (take i rs)) \<and>
    (\<forall>q \<le> puts rs. length (concat (map record_bytes (take q (log_of l rs)))) \<le> m \<longrightarrow> q \<le> puts (take i rs))"
proof -
  let ?log = "log_of l rs" and ?j = "length es"
  have es: "es = take ?j ?log" using f(2) by (auto simp: prefix_def)
  have j: "?j \<le> puts rs" using prefix_length_le [OF f(2)] by simp
  obtain i where i: "i \<le> length rs" "log_of l (take i rs) = es" using log_of_take [of rs l ?j] es by metis
  then have pi: "puts (take i rs) = ?j" using length_log_of [of l "take i rs"] by simp
  have "puts (take i rs) \<le> puts rs" using j pi by simp
  then have "recover (dir_write (segment_path l) f dir) = Inr (foldl serve d (take i rs), next_lsn l (take i rs))"
    using recover_requests [OF good list_all_takeI [OF rs], of i t] nw f(3) unfolding i(2) f(1) by simp
  moreover have "q \<le> ?j" if q: "q \<le> puts rs" "length (concat (map record_bytes (take q ?log))) \<le> m" for q
  proof (rule ccontr)
    assume "\<not> q \<le> ?j"
    then have lt: "?j < puts rs" "?j < q" using q(1) by simp_all
    let ?x = "?log ! ?j" and ?b = "concat (map record_bytes ?log)" and ?k = "length (concat (map record_bytes (take (Suc ?j) ?log)))"
    have fits: "record_fits ?x"
      using log_of_entry_ok [OF rs, of l] lt(1) by (simp add: list_all_length entry_ok_def)
    have suc: "concat (map record_bytes (take (Suc ?j) ?log)) = concat (map record_bytes es) @ record_bytes ?x"
      using lt(1) by (simp add: take_Suc_conv_app_nth flip: es)
    have "take (Suc ?j) (take q ?log) = take (Suc ?j) ?log" using lt(2) by (simp add: min_absorb1)
    then have split: "take q ?log = take (Suc ?j) ?log @ drop (Suc ?j) (take q ?log)" by (metis append_take_drop_id)
    have "?k \<le> length (concat (map record_bytes (take q ?log)))" by (subst split) (simp only: map_append concat_append length_append le_add1)
    then have "?k \<le> m" using q(2) by simp
    then have "take ?k f = take ?k ?b" using arg_cong [OF kept, of "take ?k"] by (simp add: min_absorb1)
    also have "\<dots> = concat (map record_bytes (take (Suc ?j) ?log))"
    proof -
      have "?b = concat (map record_bytes (take (Suc ?j) ?log)) @ concat (map record_bytes (drop (Suc ?j) ?log))"
        by (simp only: append_take_drop_id flip: map_append concat_append)
      then show ?thesis by simp
    qed
    finally have "take (length (record_bytes ?x)) t = record_bytes ?x" unfolding f(1) suc by simp
    then have "t = record_bytes ?x @ drop (length (record_bytes ?x)) t" by (metis append_take_drop_id)
    then have "wal_dec t = Some (?x, length (record_bytes ?x))" using wal.dec_enc_append [OF fits] by metis
    moreover have "t \<noteq> []" using wal.enc_nonempty [OF fits] \<open>take (length (record_bytes ?x)) t = record_bytes ?x\<close> by (metis take_Nil)
    ultimately show False using f(3) by (auto simp: torn_tail_def wal_dec_def)
  qed
  ultimately show ?thesis using i(1) pi by (intro exI [of _ i]) simp
qed

text \<open>A log cut at any byte is a case of this.\<close>

lemma cut_log:
  assumes fits: "list_all record_fits xs"
  shows "\<exists>es t. take n (concat (map record_bytes xs)) = concat (map record_bytes es) @ t \<and> prefix es xs \<and> (t = [] \<or> torn_tail t)"
proof -
  from wal.frames_truncated [OF fits, of n] obtain m t where m: "m \<le> length xs"
    and b: "take n (concat (map record_bytes xs)) = concat (map record_bytes (take m xs)) @ t"
    and t: "if m < length xs then length t < length (record_bytes (xs ! m)) else t = []" by auto
  have "t = [] \<or> torn_tail t"
  proof (cases "m < length xs")
    case True
    then have "t = take (length t) (record_bytes (xs ! m))" using cut_rest [OF b] t by simp
    moreover have "record_fits (xs ! m)" using fits True by (simp add: list_all_length)
    ultimately have "decode_record t = Inr None" using t True record_prefix_torn by metis
    then show ?thesis by (auto simp: torn_tail_def)
  next
    case False
    then show ?thesis using t by simp
  qed
  then show ?thesis using b take_is_prefix by metis
qed

lemma crash_leaves_cut:
  assumes fits: "list_all record_fits xs" and log: "log = concat (map record_bytes xs)" and k: "m \<le> k"
  shows "crash_leaves (region 0 (take m log)) log (take k log)"
  unfolding crash_leaves_def
proof (intro conjI allI impI)
  show "\<exists>es t. take k log = concat (map record_bytes es) @ t \<and> prefix es (fst (frames wal_dec log)) \<and> (t = [] \<or> torn_tail t)"
    using cut_log [OF fits, of k] by (simp add: log wal.frames_encoded [OF fits])
qed (use k in \<open>auto simp: region_def split: if_splits\<close>)

lemma crash_leaves_kept:
  assumes "crash_leaves (region 0 (take m log)) log f"
  shows "take (min m (length log)) f = take (min m (length log)) (log @ rest)"
proof (rule nth_equalityI)
  let ?k = "min m (length log)"
  have at: "p < length f \<and> f ! p = log ! p" if "p < ?k" for p
    using assms that by (auto simp: crash_leaves_def region_def)
  have len: "?k \<le> length f"
  proof (cases ?k)
    case (Suc k)
    then show ?thesis using at [of k] by simp
  qed simp
  then show "length (take ?k f) = length (take ?k (log @ rest))" by simp
  show "take ?k f ! p = take ?k (log @ rest) ! p" if "p < length (take ?k f)" for p
    using that at [of p] len by (simp add: nth_append)
qed

lemma recover_log_prefix:
  assumes good: "good_dir dir d l" and rs: "list_all req_fits rs" and nw: "unat l + puts rs < 2 ^ 64"
  shows "\<exists>i \<le> length rs. \<exists>l'.
    recover (dir_write (segment_path l) (take n (concat (map record_bytes (log_of l rs)))) dir) =
      Inr (foldl serve d (take i rs), l') \<and>
    (\<forall>q \<le> puts rs. length (concat (map record_bytes (take q (log_of l rs)))) \<le> n \<longrightarrow> q \<le> puts (take i rs))"
proof -
  have "list_all record_fits (log_of l rs)" using log_of_entry_ok [OF rs] by (auto simp: list_all_iff entry_ok_def)
  from cut_log [OF this, of n] obtain es t where
    "take n (concat (map record_bytes (log_of l rs))) = concat (map record_bytes es) @ t" "prefix es (log_of l rs)" "t = [] \<or> torn_tail t"
    by blast
  from recover_crash [OF good rs nw this, of n] show ?thesis by auto
qed

lemma new_engine_base:
  assumes "wal_engine_new ring_ok open_ok n dir l m a = Inr (e, dir')" and "dir_file (segment_path l) dir = None"
  shows "seg_offset (seg e) = 0"
  using assms by (auto simp: wal_engine_new_def obind_eq_Inr segment_open_def Let_def dir_file_def map_add_def split: if_splits)

lemma wal_reach_base: "wal_reach kstep s s' \<Longrightarrow> base s' = base s"
proof (induction rule: wal_reach.induct)
  case (next_step s s' s'')
  from next_step.hyps(2) have "base s'' = base s'" by cases simp_all
  then show ?case using next_step.IH by simp
qed simp

definition encoded :: "batch \<Rightarrow> bytes" where
  "encoded b = concat (map record_bytes (batch_log b))"

lemma encoded_concat: "concat (map encoded bs) = concat (map record_bytes (concat (map batch_log bs)))"
  by (induction bs) (simp_all add: encoded_def)

lemma concat_map_encoded: "concat (map encoded (s2_msgs a d l cs)) = concat (map record_bytes (log_of l (concat cs)))"
  by (simp add: encoded_concat s2_msgs_log)

text \<open>A batch whose bytes lie in the first \<open>k\<close> bytes of the log is covered by a recovery from them.\<close>

lemma covered_lsn_hi:
  assumes j: "j < length (s2_msgs a d l cs)" and nw: "unat l + puts (concat cs) < 2 ^ 64"
    and len: "length (concat (map encoded (take (Suc j) (s2_msgs a d l cs)))) \<le> k"
    and cov: "\<forall>q \<le> puts (concat cs). length (concat (map record_bytes (take q (log_of l (concat cs))))) \<le> k \<longrightarrow> q \<le> n"
  shows "unat (lsn_hi (s2_msgs a d l cs ! j)) \<le> unat l + n"
proof -
  let ?bs = "s2_msgs a d l cs" and ?q = "length (concat (map batch_log (take (Suc j) (s2_msgs a d l cs))))"
  have "log_of l (concat cs) = concat (map batch_log (take (Suc j) ?bs)) @ concat (map batch_log (drop (Suc j) ?bs))"
    unfolding s2_msgs_log [of a d, symmetric] by (simp flip: concat_append map_append)
  then have tk: "take ?q (log_of l (concat cs)) = concat (map batch_log (take (Suc j) ?bs))"
    and q: "?q \<le> puts (concat cs)"
    using length_log_of [of l "concat cs"] by (metis append_eq_conv_conj, metis le_add1 length_append)
  have "length (concat (map record_bytes (take ?q (log_of l (concat cs))))) \<le> k"
    using len by (simp only: tk encoded_concat)
  then have qn: "?q \<le> n" using cov q by blast
  have "unat (lsn_hi (?bs ! j)) = unat l + ?q"
    unfolding s2_msgs_lsn_hi [OF j] using q nw by (simp add: unat_word_ariths unat_of_nat)
  then show ?thesis using qn by simp
qed

section \<open>What a power loss leaves of a file with holes\<close>

text \<open>The first n bytes of a file of which only some are stable; the others read as zeros.\<close>

definition file_bytes :: "nat \<Rightarrow> image \<Rightarrow> bytes" where
  "file_bytes n img = map (\<lambda>p. case img p of Some b \<Rightarrow> b | None \<Rightarrow> 0) [0..<n]"

lemma file_bytes_hole:
  "file_bytes (length a + n + length b) (region 0 a ++ region (length a + n) b) = a @ replicate n 0 @ b"
proof (rule nth_equalityI)
  show "length (file_bytes (length a + n + length b) (region 0 a ++ region (length a + n) b)) = length (a @ replicate n 0 @ b)"
    by (simp add: file_bytes_def)
next
  fix p assume "p < length (file_bytes (length a + n + length b) (region 0 a ++ region (length a + n) b))"
  then show "file_bytes (length a + n + length b) (region 0 a ++ region (length a + n) b) ! p = (a @ replicate n 0 @ b) ! p"
    by (auto simp: file_bytes_def region_def map_add_def nth_append)
qed

lemma s2_batch_awaits:
  assumes c: "list_all wf_req c" "puts c \<noteq> 0"
  shows "awaits_durable (s2_batch (acker_new Sync) d l c)"
proof -
  let ?a = "acker_new Sync" and ?ys = "answer_all d c"
  have lv: "level ?a = Durable" by (simp add: acker_new_def)
  have "list_all (\<lambda>r. data r \<noteq> [] \<and> (kind r = Get \<longrightarrow> resp r = None)) (map (settle ?a Applied) ?ys)"
    using nonempty_answer_all [OF c(1), of d] by (auto simp: list_all_iff settle_def answered_at_def)
  moreover have "list_ex (\<lambda>r. resp r \<noteq> None) (map (settle ?a Applied) ?ys)"
  proof -
    have "puts ?ys \<noteq> 0" using c(2) by simp
    then obtain i where i: "i < length c" "is_put (?ys ! i)"
      by (auto simp: puts_def filter_empty_conv in_set_conv_nth)
    have "resp (settle ?a Applied (?ys ! i)) \<noteq> None"
      using i lv answer_all_nth [OF i(1), of d] by (simp add: settle_def answered_at_def is_put_def)
    then show ?thesis using i(1) by (auto simp: list_ex_length)
  qed
  ultimately show ?thesis by (simp add: awaits_durable_def s2_batch_def)
qed

lemma encode_s2_batch:
  "list_all wf_req c \<Longrightarrow> encode_items (out (s2_batch a d l c)) l (items (s2_batch a d l c)) =
     Inr (encoded (s2_batch a d l c), lsn_hi (s2_batch a d l c))"
  using s2_batch_shaped [of c a d l]
  by (simp add: s2_shaped_def encode_items_eq encoded_def batch_log_def) (simp add: s2_batch_def)

lemma encoded_s2_batch: "encoded (s2_batch a d l c) = concat (map record_bytes (log_of l c))"
  by (simp add: encoded_def batch_log_s2)

lemma length_encoded_s2: "puts c \<noteq> 0 \<Longrightarrow> 20 \<le> length (encoded (s2_batch a d l c))"
proof -
  assume "puts c \<noteq> 0"
  then obtain x xs where "log_of l c = x # xs" by (metis length_0_conv length_log_of neq_Nil_conv)
  then show ?thesis by (cases x) (simp add: encoded_s2_batch)
qed

text \<open>The smallest case: an empty directory and requests that put one key.\<close>

definition put_req :: request where
  "put_req = \<lparr>data = req_body Put [1] [7], reply = 3, resp = None\<rparr>"

lemma put_req_facts [simp]:
  "data put_req = req_body Put [1] [7]" "is_put put_req" "wf_req put_req" "req_fits put_req" "group_ok [put_req]"
  "log_of l [put_req] = [(l + 1, req_body Put [1] [7])]"
proof -
  have k: "kind put_req = Put" by (simp add: put_req_def kind_def req_body_def)
  show "data put_req = req_body Put [1] [7]" by (simp add: put_req_def)
  show p: "is_put put_req" using k by (simp add: is_put_def)
  show w: "wf_req put_req" by (simp add: wf_req_def put_req_def) (simp add: req_body_def)
  show "req_fits put_req" using w by (simp add: req_fits_def put_req_def MAX_FRAME_def)
  show "group_ok [put_req]" using w by (simp add: group_ok_def MAX_BATCH_def)
  show "log_of l [put_req] = [(l + 1, req_body Put [1] [7])]" using p by (simp add: put_req_def)
qed

lemma empty_dir_good: "good_dir empty_dir db_new 1"
proof -
  have ls: "load_snapshot empty_dir = Inr (db_new, 0)"
    by (simp add: load_snapshot_def empty_dir_def dir_file_def)
  have seg: "list_segments (empty_dir\<lparr>dir_exists := True\<rparr>) = Inr []"
    by (simp add: list_segments_def empty_dir_def)
  have mk: "mkdir_ok empty_dir" by (simp add: empty_dir_def)
  from recover_eq [OF mk ls seg, of "[]"] have "recover empty_dir = Inr (db_new, 1)" by (simp add: live_def)
  moreover have "\<exists>d0 snap segs cs. load_snapshot empty_dir = Inr (d0, snap) \<and>
        list_segments (empty_dir\<lparr>dir_exists := True\<rparr>) = Inr segs \<and> list_all2 (seg_holds empty_dir) segs (map (\<lambda>c. (c, [])) cs) \<and>
        (\<forall>sg \<in> set segs. fst sg < 1)"
    using ls seg by (intro exI [of _ db_new] exI [of _ 0] exI [of _ "[]"]) simp
  ultimately show ?thesis
    unfolding good_dir_def using mk by (simp add: empty_dir_def dir_file_def)
qed

section \<open>Properties\<close>

text \<open>
  Stages 2 and 3 agree. For every grouping of well-formed requests, stage 3 accepts the
  batches of stage 2's run: the check that the stream is gapless never fails, and for each
  batch the number of records encoded is the number of PUTs stage 2 counted (the debug
  assertion). The writes queued are contiguous from the segment's end on, and their bytes are
  the records of all PUTs, in the order they were served and numbered one by one.
\<close>

lemma stage23_gapless:
  assumes "list_all group_ok cs" and "unat l + puts (concat cs) < 2 ^ 64" and "last_ingested_lsn e = l"
  shows "\<exists>s sent bs e'. stage2_run a (stage2_new d l) cs = Inr (s, sent, map WalWrite bs) \<and>
     handle_all e bs = Inr e' \<and> last_ingested_lsn e' = s2_lsn s \<and>
     list_all (\<lambda>b. encode_items (out b) (lsn_low b) (items b) = Inr (encoded b, lsn_hi b)) bs \<and>
     pending e' = pending e @ writes_for (seg_offset (seg e)) bs \<and>
     concat (map encoded bs) = concat (map record_bytes (log_of l (concat cs)))"
proof -
  have "clean (stage2_new d l)" "s2_db (stage2_new d l) = d" "s2_lsn (stage2_new d l) = l"
    by (simp_all add: stage2_new_def clean_def)
  with stage2_run_eq [OF assms(1), of "stage2_new d l" a] assms(2) obtain s where
    s: "stage2_run a (stage2_new d l) cs = Inr (s, s2_sents a d cs, map WalWrite (s2_msgs a d l cs))"
    "s2_lsn s = l + of_nat (puts (concat cs))" by auto
  moreover have "list_all (\<lambda>b. encode_items (out b) (lsn_low b) (items b) = Inr (encoded b, lsn_hi b)) (s2_msgs a d l cs)"
    using s2_msgs_shaped [OF assms(1)]
    by (auto simp: list_all_iff s2_shaped_def encode_items_eq encoded_def batch_log_def)
  ultimately show ?thesis
    using handle_all_msgs [OF assms(1,3), of a d] concat_map_encoded [of a d l cs] by force
qed

lemma stage23_gapless_example:
  "\<exists>e dir' s sent bs e'. wal_engine_new True True 128 empty_dir 1 Sync (acker_new Sync) = Inr (e, dir') \<and>
     stage2_run (acker_new Sync) (stage2_new [] 1) [[put_req], [put_req]] = Inr (s, sent, map WalWrite bs) \<and>
     handle_all e bs = Inr e' \<and> last_ingested_lsn e' = s2_lsn s \<and>
     concat (map encoded bs) = record_bytes (2, req_body Put [1] [7]) @ record_bytes (3, req_body Put [1] [7])"
proof -
  obtain e dir' where new: "wal_engine_new True True 128 empty_dir 1 Sync (acker_new Sync) = Inr (e, dir')"
    by (simp add: wal_engine_new_def segment_open_def Let_def)
  have "last_ingested_lsn e = 1" using wal_engine_new_fields [OF new] by simp
  moreover have "log_of 1 (concat [[put_req], [put_req]]) = [(2, req_body Put [1] [7]), (3, req_body Put [1] [7])]"
    using log_of_append [of 1 "[put_req]" "[put_req]"] by simp
  ultimately show ?thesis
    using stage23_gapless [of "[[put_req], [put_req]]" 1 e "acker_new Sync" "[]"] new by auto
qed

text \<open>
  Crash recovery in mode \<open>Sync\<close>. Start from a directory in order, serve any groups of requests,
  and let stage 3 run with a ring that never cuts a write short; stop it in any state by a power
  loss that keeps at least the stable bytes of the segment, and of the rest any further
  bytes in file order. Recovery then returns, and the table is the one after serving some prefix
  of the requests; every batch acknowledged before the loss lies in that prefix.
\<close>

lemma sync_crash_recovery:
  assumes good: "good_dir dir d l" and reqs: "list_all group_ok cs" "list_all req_fits (concat cs)"
    and nw: "unat l + puts (concat cs) < 2 ^ 64"
    and new: "wal_engine_new True True n dir l Sync (acker_new Sync) = Inr (e, dir')"
    and ring: "full_writes kstep" "wal_reach kstep (wal_start e) s"
    and outs: "outs s = map encoded (s2_msgs (acker_new Sync) d l cs)"
      "\<forall>bs \<in> set (outs s). bs \<noteq> [] \<and> length bs < 2 ^ 32"
  shows "\<exists>m. stable (ker s) = region 0 (take m (concat (outs s))) \<and>
     (\<forall>k \<ge> m. \<exists>i \<le> length (concat cs). \<exists>l'.
        recover (dir_write (segment_path l) (take k (concat (outs s))) dir) = Inr (foldl serve d (take i (concat cs)), l') \<and>
        (\<forall>b \<in> set (finished (eng s)). \<exists>j < length (outs s). out b = outs s ! j \<and>
           unat (lsn_hi (s2_msgs (acker_new Sync) d l cs ! j)) \<le> unat l + puts (take i (concat cs))))"
proof -
  let ?bs = "s2_msgs (acker_new Sync) d l cs"
  have "dir_file (segment_path l) dir = None" using good by (simp add: good_dir_def)
  then have base: "base s = 0"
    using wal_reach_base [OF ring(2)] new_engine_base [OF new] by (simp add: wal_start_def)
  obtain m where m: "stable (ker s) = region 0 (take m (concat (outs s)))"
    and fin: "\<forall>b \<in> set (finished (eng s)). \<exists>j < length (outs s).
      out b = outs s ! j \<and> length (concat (take (Suc j) (outs s))) \<le> m"
    using stable_prefix [OF ring(1) outs(2) new ring(2)] base by auto
  have "\<exists>i \<le> length (concat cs). \<exists>l'.
      recover (dir_write (segment_path l) (take k (concat (outs s))) dir) = Inr (foldl serve d (take i (concat cs)), l') \<and>
      (\<forall>b \<in> set (finished (eng s)). \<exists>j < length (outs s). out b = outs s ! j \<and>
         unat (lsn_hi (?bs ! j)) \<le> unat l + puts (take i (concat cs)))" if k: "m \<le> k" for k
  proof -
    obtain i l' where i: "i \<le> length (concat cs)"
      "recover (dir_write (segment_path l) (take k (concat (outs s))) dir) = Inr (foldl serve d (take i (concat cs)), l')"
      and cov: "\<forall>q \<le> puts (concat cs). length (concat (map record_bytes (take q (log_of l (concat cs))))) \<le> k \<longrightarrow>
        q \<le> puts (take i (concat cs))"
      using recover_log_prefix [OF good reqs(2) nw, of k] by (auto simp: outs(1) concat_map_encoded)
    have "unat (lsn_hi (?bs ! j)) \<le> unat l + puts (take i (concat cs))"
      if "j < length (outs s)" "length (concat (take (Suc j) (outs s))) \<le> m" for j
      using that k by (intro covered_lsn_hi [OF _ nw _ cov]) (simp_all add: outs(1) take_map)
    then show ?thesis using i fin by blast
  qed
  then show ?thesis using m by blast
qed

lemma sync_crash_recovery_example:
  "\<exists>e dir' s m. wal_engine_new True True 128 empty_dir 1 Sync (acker_new Sync) = Inr (e, dir') \<and>
     wal_reach whole_ring (wal_start e) s \<and> finished (eng s) \<noteq> [] \<and>
     (\<forall>k \<ge> m. \<exists>l'. recover (dir_write (segment_path 1) (take k (concat (outs s))) empty_dir) =
        Inr (foldl serve db_new [put_req], l'))"
proof -
  obtain e dir' s where s: "wal_engine_new True True 128 empty_dir 1 Sync (acker_new Sync) = Inr (e, dir')"
    "wal_reach whole_ring (wal_start e) s" "finished (eng s) \<noteq> []" "outs s = [record_bytes (2, req_body Put [1] [7])]"
    using one_put_run by auto
  let ?bs = "s2_msgs (acker_new Sync) db_new 1 [[put_req]]"
  have bs: "?bs = [s2_batch (acker_new Sync) db_new 1 [put_req]]" by simp
  have o1: "outs s = map encoded ?bs" by (simp add: bs s(4) encoded_s2_batch)
  have o2: "\<forall>bs \<in> set (outs s). bs \<noteq> [] \<and> length bs < 2 ^ 32" by (simp add: s(4))
  obtain b where b: "b \<in> set (finished (eng s))" using s(3) by (cases "finished (eng s)") auto
  have hi: "lsn_hi (s2_batch (acker_new Sync) db_new 1 [put_req]) = 2" by (simp add: s2_batch_def)
  have gk: "list_all group_ok [[put_req]]" "list_all req_fits (concat [[put_req]])" "unat (1 :: u64) + puts (concat [[put_req]]) < 2 ^ 64"
    by simp_all
  from sync_crash_recovery [OF empty_dir_good gk s(1) whole_ring_contract(2) s(2) o1 o2]
  obtain m where m: "\<forall>k \<ge> m. \<exists>i \<le> length (concat [[put_req]]). \<exists>l'.
      recover (dir_write (segment_path 1) (take k (concat (outs s))) empty_dir) =
        Inr (foldl serve db_new (take i (concat [[put_req]])), l') \<and>
      (\<forall>b \<in> set (finished (eng s)). \<exists>j < length (outs s). out b = outs s ! j \<and>
         unat (lsn_hi (?bs ! j)) \<le> unat (1 :: u64) + puts (take i (concat [[put_req]])))" by blast
  have "\<exists>l'. recover (dir_write (segment_path 1) (take k (concat (outs s))) empty_dir) = Inr (foldl serve db_new [put_req], l')"
    if "m \<le> k" for k
  proof -
    obtain i l' j where r: "recover (dir_write (segment_path 1) (take k (concat (outs s))) empty_dir) =
        Inr (foldl serve db_new (take i (concat [[put_req]])), l')"
      and j: "j < length (outs s)" "unat (lsn_hi (?bs ! j)) \<le> unat (1 :: u64) + puts (take i (concat [[put_req]]))"
      using m \<open>m \<le> k\<close> b by blast
    have "j = 0" using j(1) by (simp add: s(4))
    then have "2 \<le> 1 + puts (take i [put_req])" using j(2) by (simp add: hi)
    then have "take i [put_req] = [put_req]" by (cases i) simp_all
    then show ?thesis using r by simp
  qed
  then show ?thesis using s(1-3) by blast
qed

text \<open>Recovery of a file whose first batch is whole, followed by a hole and another batch.\<close>

lemma recover_behind_hole:
  fixes a :: acker
  assumes good: "good_dir dir d l" and ok: "list_all req_fits c" "unat l + puts c < 2 ^ 64"
    and hole: "20 \<le> h" "20 \<le> length buf"
  defines "b1 \<equiv> encoded (s2_batch a d l c)"
  shows "\<exists>l'. recover (dir_write (segment_path l)
      (file_bytes (length b1 + h + length buf) (region 0 b1 ++ region (length b1 + h) buf)) dir) = Inr (foldl serve d c, l')"
proof -
  let ?es = "log_of l c" and ?t = "replicate h 0 @ buf"
  have contents: "file_bytes (length b1 + h + length buf) (region 0 b1 ++ region (length b1 + h) buf) =
      concat (map record_bytes ?es) @ ?t"
    using file_bytes_hole [of b1 h buf] by (simp add: b1_def encoded_s2_batch add.assoc)
  have "torn_tail ?t" using zero_hole_torn [of buf h] hole by (auto simp: torn_tail_def)
  moreover have "list_all entry_ok ?es" using ok(1) by (rule log_of_entry_ok)
  moreover have "\<forall>x \<in> set ?es. l < fst x" using ok(2) log_of_greater [of l c] by simp
  ultimately have "recover (dir_write (segment_path l) (concat (map record_bytes ?es) @ ?t) dir) =
      Inr (foldl apply_body d (map snd ?es), foldl max (l - 1) (map fst ?es) + 1)"
    by (intro recover_append [OF good]) auto
  then show ?thesis unfolding contents by (simp only: replay_serve) blast
qed

text \<open>
  C26. An interrupted write can cost acknowledged data. In mode \<open>Sync\<close>, take three consecutive turns
  of stage 2 with PUTs. The first batch is acknowledged normally. Then the second write, the
  third write and a data sync are in the ring together; the second write is interrupted, which
  stage 3 will retry, and the other two succeed. Stage 3 acknowledges the third batch, although
  the second one is not in the file. After a power loss the file has a hole, recovery stops at
  it, and the table is the one after the first turn only: the acknowledged PUTs of the third
  turn are lost.
\<close>

theorem sync_ack_behind_hole:
  assumes good: "good_dir dir d l" and new: "wal_engine_new True True n dir l Sync (acker_new Sync) = Inr (e, dir')"
    and n: "3 \<le> n" and ok: "list_all req_fits (c1 @ c2 @ c3)" and p: "puts c1 \<noteq> 0" "puts c2 \<noteq> 0" "puts c3 \<noteq> 0"
    and nw: "unat l + puts (c1 @ c2 @ c3) < 2 ^ 64"
    and b: "[b1, b2, b3] = s2_msgs (acker_new Sync) d l [c1, c2, c3]"
    and size: "length (concat (map encoded [b1, b2, b3])) < 2 ^ 31"
  shows "\<exists>e1 e2 e3 e4 ss1 ss2 ss3 pk1 pk2 pk3 pk4 k1 k l'.
     wal_turn next_key 128 [] [] True True dir' e [WalWrite b1] = Inr (Some (e1, dir', [], ss1, pk1)) \<and>
     any_ring\<^sup>*\<^sup>* \<lparr>ring_sq = ss1, ring_cq = [], cache = Map.empty, stable = Map.empty\<rparr> k1 \<and>
     wal_turn next_key 128 (ring_cq k1) [] True True dir' e1 [WalWrite b2] = Inr (Some (e2, dir', [], ss2, pk2)) \<and>
     wal_turn next_key 128 [] [] True True dir' e2 [WalWrite b3] = Inr (Some (e3, dir', [], ss3, pk3)) \<and>
     any_ring\<^sup>*\<^sup>* (k1\<lparr>ring_sq := ring_sq k1 @ ss2 @ ss3, ring_cq := []\<rparr>) k \<and>
     wal_turn next_key 128 (ring_cq k) [] True True dir' e3 [] = Inr (Some (e4, dir', [], [], pk4)) \<and>
     replies e4 = concat (map response_of (items b1)) @ concat (map response_of (items b3)) \<and>
     recover (dir_write (segment_path l) (file_bytes (length (concat (map encoded [b1, b2, b3]))) (stable k)) dir) =
       Inr (foldl serve d c1, l')"
proof -
  let ?l2 = "l + of_nat (puts c1)" and ?l3 = "l + of_nat (puts c1) + of_nat (puts c2)" and ?a = "acker_new Sync"
  let ?buf = "encoded b1" and ?buf2 = "encoded b2" and ?buf3 = "encoded b3"
  have bs: "b1 = s2_batch ?a d l c1" "b2 = s2_batch ?a (foldl serve d c1) ?l2 c2"
    "b3 = s2_batch ?a (foldl serve (foldl serve d c1) c2) ?l3 c3" using b p by simp_all
  have wf: "list_all wf_req c1" "list_all wf_req c2" "list_all wf_req c3"
    using ok by (auto simp: list_all_iff req_fits_def)
  have aw: "awaits_durable b1" "awaits_durable b2" "awaits_durable b3"
    using s2_batch_awaits wf p by (simp_all add: bs)
  have lsn: "lsn_low b1 = l" "lsn_hi b1 = ?l2" "lsn_low b2 = lsn_hi b1" "lsn_hi b2 = ?l3" "lsn_low b3 = lsn_hi b2"
    by (simp_all add: bs s2_batch_def)
  have enc: "encode_items (out b1) l (items b1) = Inr (?buf, lsn_hi b1)"
    "encode_items (out b2) (lsn_hi b1) (items b2) = Inr (?buf2, lsn_hi b2)"
    "encode_items (out b3) (lsn_hi b2) (items b3) = Inr (?buf3, lsn_hi b3)"
    using encode_s2_batch [OF wf(1), of ?a d l] encode_s2_batch [OF wf(2), of ?a "foldl serve d c1" ?l2]
      encode_s2_batch [OF wf(3), of ?a "foldl serve (foldl serve d c1) c2" ?l3]
    unfolding bs [symmetric] lsn(2,4) by simp_all
  have ne: "20 \<le> length ?buf" "20 \<le> length ?buf2" "20 \<le> length ?buf3"
    using length_encoded_s2 p by (simp_all add: bs)
  then have nn: "?buf \<noteq> []" "?buf2 \<noteq> []" "?buf3 \<noteq> []" by auto
  have sz: "length ?buf < 2 ^ 31" "length ?buf2 < 2 ^ 31" "length ?buf2 + length ?buf3 < 2 ^ 31" using size by simp_all
  have off: "seg_offset (seg e) = 0" using new_engine_base [OF new] good by (simp add: good_dir_def)
  have "2 \<le> n" using n by simp
  note t1 = first_turn [OF new this lsn(1) enc(1) nn(1) sz(1), of "[]" True True]
  note t2 = second_turn [OF n aw(1) lsn(3) enc(2) sz(2), of ?buf "[]" True True dir' "seg e"]
  let ?ss1 = "[(1, SqeWrite (seg_fd (seg e)) ?buf (seg_offset (seg e))), (2, SqeFsyncDrain (seg_fd (seg e)))]"
  let ?ss2 = "[(4, SqeWrite (seg_fd (seg e)) ?buf2 (seg_offset (seg e) + of_nat (length ?buf)))]"
  let ?ss3 = "[(5, SqeWrite (seg_fd (seg e)) ?buf3 (seg_offset (seg e) + of_nat (length ?buf) + of_nat (length ?buf2))),
         (10, SqeFsyncDrain (seg_fd (seg e)))]"
  obtain e3 e4 pk3 pk4 where t3: "wal_turn next_key 128 [] [] True True dir' (engine_second n (seg e) b1 ?buf b2 ?buf2) [WalWrite b3] =
      Inr (Some (e3, dir', [], ?ss3, pk3))"
    and t4: "wal_turn next_key 128 [(4, - EINTR), (5, int (length ?buf3)), (10, 0)] [] True True dir' e3 [] = Inr (Some (e4, dir', [], [], pk4))"
    and r4: "replies e4 = owed_to [b1\<lparr>out := ?buf\<rparr>, b3\<lparr>out := ?buf3\<rparr>]"
    using hole_turns [OF n aw(1,2) nn(2) sz(3) aw(3) lsn(5) enc(3) nn(3), of "[]" True True dir' "seg e" ?buf] by blast
  let ?o2 = "of_nat (length ?buf) :: u64" and ?o3 = "of_nat (length ?buf) + of_nat (length ?buf2) :: u64"
  have uo: "unat ?o3 = length ?buf + length ?buf2"
    using size by (simp add: unat_of_nat flip: of_nat_add)
  let ?st = "region 0 ?buf ++ region (length ?buf + length ?buf2) ?buf3"
  let ?k1 = "\<lparr>ring_sq = [], ring_cq = [(1, int (length ?buf)), (2, 0)], cache = region 0 ?buf, stable = region 0 ?buf\<rparr>"
  let ?k = "\<lparr>ring_sq = [], ring_cq = [(4, - EINTR), (5, int (length ?buf3)), (10, 0)], cache = ?st, stable = ?st\<rparr>"
  have k1: "any_ring\<^sup>*\<^sup>* \<lparr>ring_sq = ?ss1, ring_cq = [], cache = Map.empty, stable = Map.empty\<rparr> ?k1"
    using ring_first_pair [of 1 "seg_fd (seg e)" ?buf "seg_offset (seg e)" 2] by (simp add: off)
  have k: "any_ring\<^sup>*\<^sup>* (?k1\<lparr>ring_sq := ring_sq ?k1 @ ?ss2 @ ?ss3, ring_cq := []\<rparr>) ?k"
    using ring_with_hole [of 4 "seg_fd (seg e)" ?buf2 ?o2 5 ?buf3 ?o3 10 "region 0 ?buf" "region 0 ?buf"] by (simp add: off uo)
  have fit: "list_all req_fits c1" "unat l + puts c1 < 2 ^ 64" using ok nw by simp_all
  have total: "length (concat (map encoded [b1, b2, b3])) = length ?buf + length ?buf2 + length ?buf3" by simp
  obtain l' where rec: "recover (dir_write (segment_path l) (file_bytes (length (concat (map encoded [b1, b2, b3]))) ?st) dir) =
      Inr (foldl serve d c1, l')"
    using recover_behind_hole [OF good fit ne(2,3), of ?a] unfolding bs(1) [symmetric] total by blast
  have rep: "replies e4 = concat (map response_of (items b1)) @ concat (map response_of (items b3))"
    by (simp add: r4 owed_to_def)
  have "wal_turn next_key 128 (ring_cq ?k1) [] True True dir' (engine_with_one n (seg e) b1 ?buf) [WalWrite b2] =
      Inr (Some (engine_second n (seg e) b1 ?buf b2 ?buf2, dir', [], ?ss2, park_decision (engine_second n (seg e) b1 ?buf b2 ?buf2) True))"
    using t2 by simp
  moreover have "wal_turn next_key 128 (ring_cq ?k) [] True True dir' e3 [] = Inr (Some (e4, dir', [], [], pk4))" using t4 by simp
  moreover have "recover (dir_write (segment_path l) (file_bytes (length (concat (map encoded [b1, b2, b3]))) (stable ?k)) dir) =
      Inr (foldl serve d c1, l')" using rec by simp
  ultimately show ?thesis using t1 k1 t3 k rep by blast
qed

theorem sync_ack_behind_hole_witness:
  "\<exists>e dir' e1 e2 e3 e4 ss1 ss2 ss3 pk1 pk2 pk3 pk4 k1 k l' b1 b2 b3.
     wal_engine_new True True 128 empty_dir 1 Sync (acker_new Sync) = Inr (e, dir') \<and>
     [b1, b2, b3] = s2_msgs (acker_new Sync) db_new 1 [[put_req], [put_req], [put_req]] \<and>
     wal_turn next_key 128 [] [] True True dir' e [WalWrite b1] = Inr (Some (e1, dir', [], ss1, pk1)) \<and>
     any_ring\<^sup>*\<^sup>* \<lparr>ring_sq = ss1, ring_cq = [], cache = Map.empty, stable = Map.empty\<rparr> k1 \<and>
     wal_turn next_key 128 (ring_cq k1) [] True True dir' e1 [WalWrite b2] = Inr (Some (e2, dir', [], ss2, pk2)) \<and>
     wal_turn next_key 128 [] [] True True dir' e2 [WalWrite b3] = Inr (Some (e3, dir', [], ss3, pk3)) \<and>
     any_ring\<^sup>*\<^sup>* (k1\<lparr>ring_sq := ring_sq k1 @ ss2 @ ss3, ring_cq := []\<rparr>) k \<and>
     wal_turn next_key 128 (ring_cq k) [] True True dir' e3 [] = Inr (Some (e4, dir', [], [], pk4)) \<and>
     replies e4 = [(3, Ok), (3, Ok)] \<and>
     recover (dir_write (segment_path 1) (file_bytes (length (concat (map encoded [b1, b2, b3]))) (stable k)) empty_dir) =
       Inr (foldl serve db_new [put_req], l')"
proof -
  obtain e dir' where new: "wal_engine_new True True 128 empty_dir 1 Sync (acker_new Sync) = Inr (e, dir')"
    by (simp add: wal_engine_new_def segment_open_def Let_def)
  obtain b1 b2 b3 where b: "[b1, b2, b3] = s2_msgs (acker_new Sync) db_new 1 [[put_req], [put_req], [put_req]]" by simp
  have "concat (map encoded [b1, b2, b3]) =
      concat (map record_bytes (log_of 1 (concat [[put_req], [put_req], [put_req]])))"
    unfolding b by (rule concat_map_encoded)
  moreover have "log_of 1 (concat [[put_req], [put_req], [put_req]]) =
      [(2, req_body Put [1] [7]), (3, req_body Put [1] [7]), (4, req_body Put [1] [7])]"
    using log_of_append [of 1 "[put_req]" "[put_req, put_req]"] log_of_append [of 2 "[put_req]" "[put_req]"] by simp
  ultimately have "length (concat (map encoded [b1, b2, b3])) < 2 ^ 31" by simp
  then have size: "length (concat (map encoded [b1, b2, b3])) < 2 ^ 31" .
  have pre: "3 \<le> (128 :: nat)" "list_all req_fits ([put_req] @ [put_req] @ [put_req])" "puts [put_req] \<noteq> 0"
    "unat (1 :: u64) + puts ([put_req] @ [put_req] @ [put_req]) < 2 ^ 64" by simp_all
  have "concat (map response_of (items (s2_batch (acker_new Sync) d l [put_req]))) = [(3, Ok)]" for d l
    by (simp add: s2_batch_def settle_def answered_at_def acker_new_def response_of_def answer_def put_req_def kind_def req_body_def)
  then have rep: "concat (map response_of (items b1)) @ concat (map response_of (items b3)) = [(3, Ok), (3, Ok)]"
    using b by simp
  from sync_ack_behind_hole [OF empty_dir_good new pre(1,2,3,3,3,4) b size] show ?thesis
    unfolding rep by (elim exE conjE) (intro exI conjI, rule new, rule b, assumption+)
qed

end
