(* ===== verification/Client_Server.thy ===== *)
theory Client_Server
  imports Sync_Client Pipeline
begin

text \<open>
  Clients and server together: the bytes a client writes are what stage 1 reads, its requests
  are served by stage 2 among those of other connections, and the bytes the connection's writer
  produces are what the client's reader reads. The network delivers a prefix of each stream.
\<close>

section \<open>Requests of one connection\<close>

definition call_fits :: "call \<Rightarrow> bool" where
  "call_fits k \<longleftrightarrow> call_ok k \<and> length (call_body k) \<le> MAX_FRAME"

lemma read_calls:
  assumes "list_all call_fits ks"
  shows "read_conn (\<lambda>_. True) conn 0 (encode_calls ks) = map (\<lambda>k. request_of conn (call_body k)) ks"
proof -
  have ok: "list_all call_ok ks" using assms by (auto simp: list_all_iff call_fits_def)
  have "list_all body_ok (map call_body ks)"
    using assms by (auto simp: list_all_iff call_fits_def body_ok_def call_body_def req_body_def)
  from reqf.frames_encoded [OF this] show ?thesis
    unfolding encode_calls_frames [OF ok] read_conn_frames by (simp add: o_def)
qed

section \<open>Answers fit into frames\<close>

lemma length_kv_of: "wf_body body \<Longrightarrow> length (snd (kv_of body)) \<le> length body"
proof -
  assume "wf_body body"
  then obtain k v where kv: "split_kv body = Inr (k, v)" "body = take 5 body @ k @ v" using split_kv_wf by blast
  then have "length body = length (take 5 body @ k @ v)" by simp
  then show ?thesis using kv(1) by (simp add: kv_of_def)
qed

definition values_fit :: "db \<Rightarrow> bool" where
  "values_fit d \<longleftrightarrow> list_all (\<lambda>p. length (snd p) \<le> MAX_FRAME) d"

lemma history_resp_ok:
  assumes d: "values_fit d" and fit: "list_all req_fits rs" and i: "i < length rs"
  shows "resp_ok (history_answer d rs i)"
proof -
  have small: "resp_ok (Value v)" if "length v \<le> MAX_FRAME" for v
    using that by (simp add: resp_ok_def resp_payload_def MAX_FRAME_def)
  have put: "length v \<le> MAX_FRAME" if "map_of (rev (put_kvs (take i rs))) k = Some v" for k v
  proof -
    from that have "(k, v) \<in> set (put_kvs (take i rs))" using map_of_SomeD by fastforce
    then obtain r where r: "r \<in> set (take i rs)" "is_put r" "v = snd (kv_of (data r))"
      by (auto simp: put_kvs_def prod_eq_iff)
    then have "req_fits r" using fit by (meson in_set_takeD list_all_iff)
    then show ?thesis
      using r(2,3) length_kv_of [of "data r"] wf_req_body [of r] by (auto simp: req_fits_def is_put_def)
  qed
  have old: "length v \<le> MAX_FRAME" if "db_get d k = Some v" for k v
    using that d map_of_SomeD [of d k v] by (fastforce simp: db_get_def values_fit_def list_all_iff)
  show ?thesis
    using small put old
    by (auto simp: history_answer_def resp_ok_def resp_payload_def split: operation.splits option.splits)
qed

section \<open>What reaches the server\<close>

lemma read_calls_prefix:
  assumes fits: "list_all call_fits ks" and "prefix bs (encode_calls ks)"
  shows "\<exists>j \<le> length ks. read_conn send_ok conn 0 bs = map (\<lambda>k. request_of conn (call_body k)) (take j ks) \<and>
    (bs = encode_calls ks \<and> send_ok = (\<lambda>_. True) \<longrightarrow> j = length ks)"
proof (cases "bs = encode_calls ks \<and> send_ok = (\<lambda>_. True)")
  case True
  then show ?thesis using read_calls [OF fits] by auto
next
  case False
  have ok: "list_all call_ok ks" using fits by (auto simp: list_all_iff call_fits_def)
  have bodies: "list_all body_ok (map call_body ks)"
    using fits by (auto simp: list_all_iff call_fits_def body_ok_def call_body_def req_body_def)
  obtain n where n: "bs = take n (concat (map frame_bytes (map call_body ks)))"
    using assms(2) unfolding encode_calls_frames [OF ok] by (metis append_eq_conv_conj prefix_def)
  obtain j where "j \<le> length ks" "fst (frames req_dec bs) = take j (map call_body ks)"
    using reqf.frames_truncated [OF bodies, of n] n by auto
  then have "read_conn (\<lambda>_. True) conn 0 bs = map (\<lambda>k. request_of conn (call_body k)) (take j ks)"
    by (simp add: read_conn_frames take_map o_def)
  with read_conn_prefix [of send_ok conn 0 bs 0] obtain i where
    "read_conn send_ok conn 0 bs = take i (map (\<lambda>k. request_of conn (call_body k)) (take j ks))"
    by (metis append_eq_conv_conj prefix_def)
  then have "read_conn send_ok conn 0 bs = map (\<lambda>k. request_of conn (call_body k)) (take (min i j) ks)"
    by (simp add: take_map)
  then show ?thesis using False \<open>j \<le> length ks\<close> by (intro exI [of _ "min i j"]) auto
qed

text \<open>What reaches the client: the first responses of its connection.\<close>

lemma read_replies:
  assumes ok: "list_all resp_ok q" and w: "writer sched q = Inr w" and pre: "prefix bs w"
  shows "\<exists>m \<le> length q. fst (frames resp_dec bs) = take m q \<and>
    (list_all (\<lambda>t. snd t = None) sched \<and> length q \<le> length sched \<and> bs = w \<longrightarrow> m = length q)"
proof -
  have "UnknownResp \<notin> set q" using ok by (auto simp: list_all_iff resp_ok_def)
  from writer_prefix [OF this, of sched] w have p: "prefix w (concat (map resp_bytes q))"
    and all: "list_all (\<lambda>t. snd t = None) sched \<and> length q \<le> length sched \<longrightarrow> w = concat (map resp_bytes q)"
    by (auto simp: list_all_iff)
  show ?thesis
  proof (cases "bs = concat (map resp_bytes q)")
    case True
    then show ?thesis using respf.frames_encoded [OF ok] by auto
  next
    case False
    have "prefix bs (concat (map resp_bytes q))" using pre p by (rule prefix_order.trans)
    then obtain n where "bs = take n (concat (map resp_bytes q))" by (metis append_eq_conv_conj prefix_def)
    then obtain m where "m \<le> length q" "fst (frames resp_dec bs) = take m q"
      using respf.frames_truncated [OF ok, of n] by auto
    then show ?thesis using False all by (intro exI [of _ m]) auto
  qed
qed

section \<open>A session seen from its two byte streams\<close>

text \<open>
  The calls written by some client, the part of them that reached the server, and the part of the
  responses that came back.
\<close>

lemma server_session:
  assumes fits: "list_all call_fits ks"
    and up: "prefix bs (encode_calls ks)" "filter (\<lambda>r. reply r = conn) (concat cs) = read_conn send_ok conn 0 bs"
    and server: "list_all group_ok cs" "list_all req_fits (concat cs)" "db_inv d" "values_fit d"
      "unat l + puts (concat cs) < 2 ^ 64"
      "stage2_run (acker_new NoFsync) (stage2_new d l) cs = Inr (s, sent, msgs)"
    and down: "writer sched (replies_on conn sent) = Inr w" "prefix rd w"
  shows "\<exists>m. m \<le> length (positions conn (concat cs)) \<and> length (positions conn (concat cs)) \<le> length ks \<and>
    (\<forall>i < length (positions conn (concat cs)).
       concat cs ! (positions conn (concat cs) ! i) = request_of conn (call_body (ks ! i))) \<and>
    fst (frames resp_dec rd) = map (\<lambda>i. history_answer d (concat cs) (positions conn (concat cs) ! i)) [0..<m] \<and>
    (bs = encode_calls ks \<and> send_ok = (\<lambda>_. True) \<and> list_all (\<lambda>t. snd t = None) sched \<and>
     length ks \<le> length sched \<and> rd = w \<longrightarrow> m = length ks)"
proof -
  let ?rs = "concat cs" and ?ps = "positions conn (concat cs)"
  let ?h = "history_answer d (concat cs)"
  obtain j where j: "j \<le> length ks" "read_conn send_ok conn 0 bs = map (\<lambda>k. request_of conn (call_body k)) (take j ks)"
    "bs = encode_calls ks \<and> send_ok = (\<lambda>_. True) \<longrightarrow> j = length ks"
    using read_calls_prefix [OF fits up(1)] by blast
  have at: "map (\<lambda>i. ?rs ! i) ?ps = map (\<lambda>k. request_of conn (call_body k)) (take j ks)"
    using up(2) unfolding j(2) filter_positions .
  then have len: "length ?ps = j" using j(1) by (metis length_map length_take min.absorb2)
  have nth: "?rs ! (?ps ! i) = request_of conn (call_body (ks ! i))" if "i < length ?ps" for i
    using arg_cong [OF at, of "\<lambda>xs. xs ! i"] that len j(1) by simp
  have q: "replies_on conn sent = map ?h ?ps"
    using nofsync_run [OF server(1,3,5)] server(6) replies_on_positions [of conn ?rs ?h] by auto
  have "list_all resp_ok (map ?h ?ps)"
    using history_resp_ok [OF server(4,2)] by (auto simp: list_all_iff positions_def)
  from read_replies [OF this down(1) [unfolded q] down(2)] obtain m where m: "m \<le> length ?ps"
    "fst (frames resp_dec rd) = take m (map ?h ?ps)"
    "list_all (\<lambda>t. snd t = None) sched \<and> length ?ps \<le> length sched \<and> rd = w \<longrightarrow> m = length ?ps" by auto
  have "fst (frames resp_dec rd) = map (\<lambda>i. ?h (?ps ! i)) [0..<m]"
    unfolding m(2) using m(1) by (intro nth_equalityI) simp_all
  then show ?thesis using m(1,3) len j(1,3) nth by (intro exI [of _ m]) auto
qed

section \<open>Properties\<close>

text \<open>
  C3. A client of a server in mode \<open>NoFsync\<close> sees its calls served one by one. Take a client
  whose connection stays up, a server that serves the requests of that connection among those of
  others, and any part of the two byte streams that has arrived. Then the requests of the
  connection are the client's calls in the order they were written, and the results are those
  calls, in that order, each with the answer due at its place in the server's history: a GET gets
  the value of the last PUT served before it, whoever sent it. When both streams have arrived
  completely, every call written has its answer.
\<close>

theorem nofsync_session:
  assumes client: "client_run client_connect evs c" "list_all keeps_up evs" "list_all call_fits (calls_of evs)"
    and up: "prefix bs (sock_out c)" "filter (\<lambda>r. reply r = conn) (concat cs) = read_conn send_ok conn 0 bs"
    and server: "list_all group_ok cs" "list_all req_fits (concat cs)" "db_inv d" "values_fit d"
      "unat l + puts (concat cs) < 2 ^ 64"
      "stage2_run (acker_new NoFsync) (stage2_new d l) cs = Inr (s, sent, msgs)"
    and down: "writer sched (replies_on conn sent) = Inr w" "prefix (read_of evs) w"
  shows "\<exists>ks m. calls_of evs = ks @ chan c \<and>
    m \<le> length (positions conn (concat cs)) \<and> length (positions conn (concat cs)) \<le> length ks \<and>
    (\<forall>i < length (positions conn (concat cs)).
       concat cs ! (positions conn (concat cs) ! i) = request_of conn (call_body (ks ! i))) \<and>
    results c = map (\<lambda>i. (call_tx (ks ! i), Answer (history_answer d (concat cs) (positions conn (concat cs) ! i)))) [0..<m] \<and>
    (bs = sock_out c \<and> send_ok = (\<lambda>_. True) \<and> list_all (\<lambda>t. snd t = None) sched \<and>
     length ks \<le> length sched \<and> read_of evs = w \<longrightarrow> m = length ks)"
proof -
  let ?ps = "positions conn (concat cs)" and ?h = "history_answer d (concat cs)"
  obtain ks where ks: "calls_of evs = ks @ chan c" "sock_out c = encode_calls ks"
    and res: "results c = zip (map call_tx ks) (map Answer (fst (frames resp_dec (read_of evs))))"
    using client_results [OF client(1,2)] by blast
  have fits: "list_all call_fits ks" using client(3) ks(1) by simp
  from server_session [OF fits up(1) [unfolded ks(2)] up(2) server down] obtain m where m: "m \<le> length ?ps" "length ?ps \<le> length ks"
    "\<forall>i < length ?ps. concat cs ! (?ps ! i) = request_of conn (call_body (ks ! i))"
    "fst (frames resp_dec (read_of evs)) = map (\<lambda>i. ?h (?ps ! i)) [0..<m]"
    "bs = encode_calls ks \<and> send_ok = (\<lambda>_. True) \<and> list_all (\<lambda>t. snd t = None) sched \<and>
     length ks \<le> length sched \<and> read_of evs = w \<longrightarrow> m = length ks" by blast
  have "results c = map (\<lambda>i. (call_tx (ks ! i), Answer (?h (?ps ! i)))) [0..<m]"
    unfolding res m(4) using m(1,2) by (intro nth_equalityI) simp_all
  then show ?thesis using ks m(1-3,5) by (intro exI [of _ ks] exI [of _ m]) auto
qed

theorem nofsync_session_witness:
  "\<exists>c. client_run client_connect [EvCall (client_get [1] 5), EvDriver False None, EvRead (resp_bytes Miss)] c \<and>
     results c = [(5, Answer Miss)]"
proof -
  let ?k = "client_get [1] 5" and ?b = "resp_bytes Miss"
  let ?r = "request_of 3 (call_body ?k)"
  let ?evs = "map EvCall [?k] @ [EvDriver False None, EvRead ?b]"
  obtain c where c: "client_run client_connect ?evs c" "chan c = []" using run_group by blast
  have fits: "list_all call_fits [?k]"
    by (auto simp: call_fits_def call_ok_def call_body_def client_get_def MAX_FRAME_def opt_bytes_def)
  have so: "sock_out c = encode_calls [?k]" using client_results [OF c(1)] c(2) by simp
  have b: "call_body ?k = req_body Get [1] []" by (simp add: call_body_def client_get_def opt_bytes_def)
  then have k: "kind ?r = Get" and wf: "wf_req ?r"
    by (simp_all add: request_of_def kind_def wf_req_def) (simp_all add: req_body_def)
  then have g: "list_all group_ok [[?r]]" "list_all req_fits (concat [[?r]])" "puts (concat [[?r]]) = 0"
    by (simp_all add: group_ok_def MAX_BATCH_def req_fits_def MAX_FRAME_def is_put_def request_of_def b)
  have up: "filter (\<lambda>r. reply r = 3) (concat [[?r]]) = read_conn (\<lambda>_. True) 3 0 (sock_out c)"
    unfolding so read_calls [OF fits] by (simp add: request_of_def)
  have d: "db_inv []" "values_fit []" "unat (1 :: u64) + puts (concat [[?r]]) < 2 ^ 64"
    using g(3) by (simp_all add: db_inv_def values_fit_def)
  have h: "history_answer [] [?r] 0 = Miss" using k by (simp add: history_answer_def put_kvs_def db_get_def)
  obtain s msgs where run: "stage2_run (acker_new NoFsync) (stage2_new [] 1) [[?r]] = Inr (s, [(3, Miss)], msgs)"
    using nofsync_run [OF g(1) d(1,3)] h by (auto simp: request_of_def)
  have w: "writer [(0, None)] (replies_on 3 [(3, Miss)]) = Inr ?b"
    using writer_prefix [of "[Miss]" "[(0, None)]"] by (simp add: replies_on_def)
  have tx: "call_tx ?k = 5" by (simp add: client_get_def)
  have ps: "positions 3 [?r] = [0]" by (simp add: positions_def request_of_def)
  have ev: "list_all keeps_up ?evs" "list_all call_fits (calls_of ?evs)" "prefix (read_of ?evs) ?b" "read_of ?evs = ?b"
    using fits by simp_all
  from nofsync_session [OF c(1) ev(1,2) prefix_order.refl up g(1,2) d run w ev(3)] c(2) ev(4)
  have "results c = [(5, Answer Miss)]" using h tx by (auto simp: ps)
  then show ?thesis using c(1) by auto
qed

text \<open>
  C33. In the other modes a client that pipelines gives answers to the wrong callers. When a PUT
  and a GET of the same key by two callers of one client are written together and served in one
  turn, the response of the GET is the only one sent at that turn, and the client hands it to the
  caller of the PUT: the PUT returns the value and the GET keeps waiting.
\<close>

theorem pipelined_answers_swapped:
  assumes "m \<noteq> NoFsync" and "call_fits (client_put k v t1)" and "call_fits (client_get k t2)" and "unat l + 1 < 2 ^ 64"
  shows "\<exists>c s pool b sent.
    client_run client_connect
      [EvCall (client_put k v t1), EvCall (client_get k t2), EvDriver False None, EvRead (resp_bytes (Value v))] c \<and>
    stage2_turn (acker_new m) (stage2_new d l) [batch_new] (read_conn (\<lambda>_. True) conn 0 (sock_out c)) =
      Inr (S2Next s pool [] sent [WalWrite b]) \<and>
    writer [(0, None)] (replies_on conn sent) = Inr (resp_bytes (Value v)) \<and>
    results c = [(t1, Answer (Value v))] \<and> fifo c = [t2]"
proof -
  let ?p = "client_put k v t1" and ?g = "client_get k t2"
  let ?rp = "request_of conn (call_body ?p)" and ?rg = "request_of conn (call_body ?g)"
  let ?evs = "map EvCall [?p, ?g] @ [EvDriver False None, EvRead (resp_bytes (Value v))]"
  obtain c where c: "client_run client_connect ?evs c" "chan c = []" using run_group by blast
  have fits: "list_all call_fits [?p, ?g]" using assms by simp
  have len: "length k < 2 ^ 32" "length v \<le> MAX_FRAME"
    using assms(2) by (auto simp: call_fits_def call_body_def client_put_def opt_bytes_def MAX_FRAME_def)
  have b: "call_body ?p = req_body Put k v" "call_body ?g = req_body Get k []"
    by (simp_all add: call_body_def client_get_def client_put_def opt_bytes_def)
  have kinds: "kind ?rp = Put" "kind ?rg = Get" by (simp_all add: request_of_def kind_def b) (simp_all add: req_body_def)
  have wf: "list_all wf_req [?rp, ?rg]" using len(1) by (simp add: request_of_def wf_req_def b) (simp add: req_body_def)
  have ok: "resp_ok (Value v)" using len(2) by (simp add: resp_ok_def resp_payload_def MAX_FRAME_def)
  then have fr: "fst (frames resp_dec (resp_bytes (Value v))) = [Value v]"
    using respf.frames_encoded [of "[Value v]"] by simp
  have cl: "sock_out c = encode_calls [?p, ?g]" "results c = [(t1, Answer (Value v))]"
    using client_results [OF c(1)] c(2) fr by (simp_all add: client_get_def client_put_def)
  obtain served where f: "length served \<le> Suc (Suc 0)" "fifo c = drop (length served) [t1, t2]" "results c = zip [t1, t2] (map Answer served)"
    using conn_inv_run [OF c(1)] c(2) by (auto simp: conn_inv_def fifo_inv_def client_get_def client_put_def)
  then have "length served = 1" using arg_cong [OF cl(2), of length] by simp
  then have q: "fifo c = [t2]" using f(2) by simp
  have rd: "read_conn (\<lambda>_. True) conn 0 (sock_out c) = [?rp, ?rg]" unfolding cl(1) read_calls [OF fits] by simp
  have lv: "level (acker_new m) \<noteq> Applied" using assms(1) by (cases m) (simp_all add: acker_new_def)
  have "puts [?rp, ?rg] = 1" using kinds by (simp add: is_put_def)
  then obtain s pool b where "stage2_turn (acker_new m) (stage2_new d l) [batch_new] [?rp, ?rg] =
      Inr (S2Next s pool [] (s2_sent (acker_new m) d [?rp, ?rg]) [WalWrite b])"
    using stage2_turn_eq [of "[?rp, ?rg]" "stage2_new d l" "acker_new m"] wf assms(4)
    by (auto simp: group_ok_def MAX_BATCH_def clean_def stage2_new_def)
  moreover have "s2_sent (acker_new m) d [?rp, ?rg] = [(conn, Value v)]"
    using kinds lv len(1)
    by (simp add: s2_sent_def answered_at_def response_of_def answer_def serve_def is_put_def kind_def request_of_def b db_get_put)
  ultimately show ?thesis
    using c(1) cl(2) q rd writer_prefix [of "[Value v]" "[(0, None)]"] by (fastforce simp: replies_on_def)
qed

theorem pipelined_answers_swapped_witness:
  "\<exists>c. client_run client_connect
      [EvCall (client_put [1] [7] 5), EvCall (client_get [1] 6), EvDriver False None, EvRead (resp_bytes (Value [7]))] c \<and>
    results c = [(5, Answer (Value [7]))]"
proof -
  have "call_fits (client_put [1] [7] 5)" "call_fits (client_get [1] 6)"
    by (auto simp: call_fits_def call_ok_def call_body_def client_get_def client_put_def MAX_FRAME_def opt_bytes_def)
  from pipelined_answers_swapped [OF _ this, of Sync 1] show ?thesis by auto
qed

end
