(* ===== verification/Wal_Buffers.thy ===== *)
theory Wal_Buffers
  imports Wal_Engine
begin

text \<open>
  Where the batch buffers are inside stage 3 (\<open>crates/server/src/stage3/mod.rs\<close>). A buffer
  given to the engine is in a write that is pending or in flight, waits for an fsync, or has
  been sent back to the pool; every operation of the engine keeps their number, and only
  cleared buffers go back.
\<close>

section \<open>Counting buffers\<close>

fun is_write :: "io_work \<Rightarrow> bool" where
  "is_write (WriteWork w) = True"
| "is_write _ = False"

definition writes :: "io_work list \<Rightarrow> nat" where
  "writes ws = length (filter is_write ws)"

lemma writes_simps [simp]:
  "writes [] = 0" "writes (w # ws) = (if is_write w then 1 else 0) + writes ws"
  "writes (vs @ ws) = writes vs + writes ws"
  by (simp_all add: writes_def)

definition buffers_in :: "wal_engine \<Rightarrow> nat" where
  "buffers_in e =
     writes (pending e) + writes (map snd (inflight e)) + length (awaiting_fsync e) + length (recycle_tx e)"

text \<open>The slab has one entry per key, and the pool gets cleared buffers only.\<close>

definition tidy :: "wal_engine \<Rightarrow> bool" where
  "tidy e \<longleftrightarrow> distinct (map fst (inflight e)) \<and> list_all (\<lambda>b. b = batch_new) (recycle_tx e)"

definition accounts :: "wal_engine \<Rightarrow> wal_engine \<Rightarrow> bool" where
  "accounts e e' \<longleftrightarrow>
     buffers_in e' = buffers_in e \<and> last_ingested_lsn e' = last_ingested_lsn e \<and> tidy e'"

text \<open>What the slab promises about the key of a vacant entry.\<close>

definition slab_contract :: "((nat \<times> io_work) list \<Rightarrow> nat) \<Rightarrow> bool" where
  "slab_contract vacant \<longleftrightarrow> (\<forall>slab. vacant slab \<notin> set (map fst slab))"

lemma accounts_refl: "tidy e \<Longrightarrow> accounts e e"
  by (simp add: accounts_def)

lemma accounts_trans: "accounts e e' \<Longrightarrow> accounts e' e'' \<Longrightarrow> accounts e e''"
  by (simp add: accounts_def)

section \<open>The operations\<close>

lemma handle_batch_buffers:
  assumes "handle_batch e b = Inr e'" and "tidy e"
  shows "buffers_in e' = Suc (buffers_in e) \<and> last_ingested_lsn e' = lsn_hi b \<and> tidy e'"
  using assms
  by (auto simp: handle_batch_def obind_eq_Inr Let_def advance_offset_def buffers_in_def tidy_def io_write_def)

lemma plan_fsync_accounts: "tidy e \<Longrightarrow> accounts e (plan_fsync e)"
  by (auto simp: plan_fsync_def accounts_def buffers_in_def tidy_def Let_def case_prod_beta)

lemma submit_loop_accounts:
  "submit_loop vacant room e = Inr (e', ss) \<Longrightarrow> slab_contract vacant \<Longrightarrow> tidy e \<Longrightarrow> accounts e e'"
proof (induction vacant room e arbitrary: e' ss rule: submit_loop.induct)
  case (1 vacant e)
  then show ?case by (simp add: accounts_refl)
next
  case (2 vacant room e)
  show ?case
  proof (cases "length (inflight e) < depth e \<and> pending e \<noteq> []")
    case False
    then have "e' = e" using "2.prems"(1) by (auto split: if_splits list.splits)
    then show ?thesis using "2.prems"(3) by (simp add: accounts_refl)
  next
    case True
    then obtain w ws where p: "pending e = w # ws" by (cases "pending e") auto
    let ?e = "e\<lparr>pending := ws, inflight := inflight e @ [(vacant (inflight e), w)]\<rparr>"
    obtain s ss' where s: "sqe_of w (seg_fd (seg e)) = Inr s" "submit_loop vacant room ?e = Inr (e', ss')"
      using "2.prems"(1) True p by (auto simp: obind_eq_Inr Let_def)
    have step: "accounts e ?e"
      using "2.prems"(2,3) p by (auto simp: accounts_def buffers_in_def tidy_def slab_contract_def)
    then have "tidy ?e" by (simp add: accounts_def)
    from "2.IH" [OF conjunct1 [OF True] p refl s(1) s(2) "2.prems"(2) this]
    show ?thesis by (rule accounts_trans [OF step])
  qed
qed

lemma handle_pending_accounts:
  "handle_pending vacant room e = Inr (e', ss, moved) \<Longrightarrow> slab_contract vacant \<Longrightarrow> tidy e \<Longrightarrow> accounts e e'"
  by (auto simp: handle_pending_def obind_eq_Inr accounts_refl intro: submit_loop_accounts split: if_splits)

lemma finish_awaiting_buffers:
  "finish_awaiting e bs = Inr e' \<Longrightarrow>
   pending e' = pending e \<and> inflight e' = inflight e \<and> awaiting_fsync e' = awaiting_fsync e \<and>
   last_ingested_lsn e' = last_ingested_lsn e \<and> recycle_tx e' = recycle_tx e @ replicate (length bs) batch_new"
proof (induction e bs rule: finish_awaiting.induct)
  case (1 e)
  then show ?case by simp
next
  case (2 e b bs)
  then obtain b' sent where a: "advance (ack e) b Durable = Inr (b', sent)" by (auto simp: obind_eq_Inr)
  show ?case using "2.IH" [OF a refl] "2.prems" a
    by (simp add: recycle_eq)
qed

lemma finish_awaiting_accounts:
  assumes "finish_awaiting (e\<lparr>awaiting_fsync := []\<rparr>) (awaiting_fsync e) = Inr e'" and "tidy e"
  shows "accounts e e'"
  using finish_awaiting_buffers [OF assms(1)] assms(2)
  by (auto simp: accounts_def buffers_in_def tidy_def list_all_iff)

text \<open>An entry taken out of the slab.\<close>

lemma slab_remove:
  assumes "distinct (map fst xs)" and "map_of xs k = Some w"
  shows "writes (map snd xs) = (if is_write w then 1 else 0) + writes (map snd (AList.delete k xs))"
  using assms
proof (induction xs)
  case Nil
  then show ?case by simp
next
  case (Cons x xs)
  show ?case
  proof (cases "fst x = k")
    case True
    then have "k \<notin> set (map fst xs)" using Cons.prems(1) by auto
    then have "AList.delete k xs = xs" by (simp add: delete_id)
    then show ?thesis using True Cons.prems(2) by (cases x) simp
  next
    case False
    then show ?thesis using Cons by (cases x) auto
  qed
qed

lemma complete_cases:
  assumes "complete w res = v"
  shows "(case v of
            VerdictOk None \<Rightarrow> \<not> is_write w
          | VerdictOk (Some b) \<Rightarrow> is_write w
          | Retry w' \<Rightarrow> is_write w \<and> is_write w'
          | VerdictDurable \<Rightarrow> \<not> is_write w
          | Fatal err \<Rightarrow> True)"
  using assms by (auto simp: complete_def Let_def split: io_work.splits if_splits verdict.splits option.splits)

lemma reap_one_accounts:
  assumes reap: "reap_one e cqe = Inr e'" and tidy: "tidy e"
  shows "accounts e e'"
proof -
  obtain w where w: "map_of (inflight e) (fst cqe) = Some w"
    using reap by (auto simp: reap_one_def split: option.splits)
  let ?e = "e\<lparr>inflight := AList.delete (fst cqe) (inflight e)\<rparr>"
  have n: "writes (map snd (inflight e)) = (if is_write w then 1 else 0) + writes (map snd (inflight ?e))"
    using slab_remove [OF _ w] tidy by (simp add: tidy_def)
  have t: "tidy ?e" using tidy by (simp add: tidy_def distinct_delete)
  note facts = accounts_def buffers_in_def tidy_def
  show ?thesis
  proof (cases "complete w (snd cqe)")
    case (VerdictOk ob)
    then show ?thesis
      using reap w n t complete_cases [OF VerdictOk]
      by (cases ob) (auto simp: reap_one_def Let_def obind_eq_Inr facts split: if_splits)
  next
    case (Retry w')
    then show ?thesis
      using reap w n t complete_cases [OF Retry]
      by (cases w') (auto simp: reap_one_def Let_def facts)
  next
    case VerdictDurable
    then obtain e1 where e1: "finish_awaiting (?e\<lparr>awaiting_fsync := []\<rparr>) (awaiting_fsync ?e) = Inr e1"
      "e' = e1\<lparr>planner := on_fsync_completed (planner e1)\<rparr>"
      using reap w by (auto simp: reap_one_def Let_def obind_eq_Inr)
    from finish_awaiting_accounts [OF e1(1) t] show ?thesis
      using n complete_cases [OF VerdictDurable] by (simp add: e1(2) facts)
  next
    case (Fatal err)
    then show ?thesis using reap w by (simp add: reap_one_def Let_def)
  qed
qed

lemma reap_cqes_accounts: "reap_cqes e cs = Inr e' \<Longrightarrow> tidy e \<Longrightarrow> accounts e e'"
proof (induction e cs rule: reap_cqes.induct)
  case (1 e)
  then show ?case by (simp add: accounts_refl)
next
  case (2 e c cs)
  then obtain e1 where e1: "reap_one e c = Inr e1" "reap_cqes e1 cs = Inr e'" by (auto simp: obind_eq_Inr)
  have step: "accounts e e1" using reap_one_accounts [OF e1(1)] "2.prems"(2) .
  then have "tidy e1" by (simp add: accounts_def)
  from "2.IH" [OF e1(1,2) this] show ?case by (rule accounts_trans [OF step])
qed

lemma quiesce_accounts:
  "quiesce vacant e rounds = Inr (Some e') \<Longrightarrow> slab_contract vacant \<Longrightarrow> tidy e \<Longrightarrow>
   accounts e e' \<and> pending e' = [] \<and> inflight e' = []"
proof (induction vacant e rounds rule: quiesce.induct)
  case (1 vacant e)
  then show ?case by (auto simp: should_park_def accounts_refl split: if_splits)
next
  case (2 vacant e room err cqes rounds)
  show ?case
  proof (cases "should_park e")
    case True
    then show ?thesis using 2 by (auto simp: should_park_def accounts_refl)
  next
    case False
    then obtain e1 ss moved e2 where e: "handle_pending vacant room e = Inr (e1, ss, moved)"
      "submit_ring_and_park err = Inr ()" "reap_cqes e1 cqes = Inr e2" "quiesce vacant e2 rounds = Inr (Some e')"
      using "2.prems"(1) by (auto simp: obind_eq_Inr)
    have a1: "accounts e e1" using handle_pending_accounts [OF e(1)] "2.prems"(2,3) .
    then have "accounts e1 e2" using reap_cqes_accounts [OF e(3)] by (simp add: accounts_def)
    then have a2: "accounts e e2" by (rule accounts_trans [OF a1])
    then have "tidy e2" by (simp add: accounts_def)
    from "2.IH" [OF False e(1) refl refl e(2,3,4) "2.prems"(2) this] show ?thesis
      using accounts_trans [OF a2] by blast
  qed
qed

text \<open>
  A rotation returns with nothing outstanding: no operation pending or in flight, no batch
  waiting for an fsync, and the new segment named by the boundary.
\<close>

lemma rotate_accounts:
  assumes "rotate vacant rounds fsync_ok open_ok dir e l = Inr (Some (e', dir'))"
    and "slab_contract vacant" and "tidy e"
  shows "accounts e e' \<and> pending e' = [] \<and> inflight e' = [] \<and> awaiting_fsync e' = [] \<and>
    seg_start_lsn (seg e') = l \<and> fsync_ok"
proof -
  from assms(1) obtain e1 where q: "quiesce vacant e rounds = Inr (Some e1)"
    by (auto simp: rotate_def obind_eq_Inr split: option.splits)
  let ?e = "e1\<lparr>planner := on_fsync_completed (planner e1)\<rparr>"
  from assms(1) q have "fsync_ok" by (cases fsync_ok) (simp_all add: rotate_def)
  then have ok: "ensure AssertFailed fsync_ok = Inr ()" by simp
  have "obind (finish_awaiting (?e\<lparr>awaiting_fsync := []\<rparr>) (awaiting_fsync ?e)) (\<lambda>e.
      case segment_open open_ok dir l of Inl err \<Rightarrow> Inl ExpectFailed
      | Inr (s, dir') \<Rightarrow> Inr (Some (e\<lparr>seg := s\<rparr>, dir'))) = Inr (Some (e', dir'))"
    using assms(1) unfolding rotate_def q obind_Inr option.case ok Let_def .
  then obtain e2 where e2: "finish_awaiting (?e\<lparr>awaiting_fsync := []\<rparr>) (awaiting_fsync ?e) = Inr e2"
    and op: "(case segment_open open_ok dir l of Inl err \<Rightarrow> Inl ExpectFailed
      | Inr (s, dir') \<Rightarrow> Inr (Some (e2\<lparr>seg := s\<rparr>, dir'))) = Inr (Some (e', dir'))"
    unfolding obind_eq_Inr by (elim exE conjE)
  from op obtain s where f: "segment_open open_ok dir l = Inr (s, dir')" "e' = e2\<lparr>seg := s\<rparr>"
    by (cases "segment_open open_ok dir l") auto
  from quiesce_accounts [OF q assms(2,3)] have a: "accounts e e1" "pending e1 = []" "inflight e1 = []" by simp_all
  have t: "tidy ?e" using a(1) by (simp add: accounts_def tidy_def)
  have "accounts e e2"
    using a(1) finish_awaiting_accounts [OF e2 t] by (simp add: accounts_def buffers_in_def)
  then have "accounts e e'" by (simp add: f(2) accounts_def buffers_in_def tidy_def)
  moreover have "seg_start_lsn s = l" using f(1) by (auto simp: segment_open_def Let_def split: if_splits)
  ultimately show ?thesis using finish_awaiting_buffers [OF e2] \<open>fsync_ok\<close> a(2,3) by (simp add: f(2))
qed

lemma retire_accounts: "retire dir e l = Inr e' \<Longrightarrow> tidy e \<Longrightarrow> accounts e e'"
  by (auto simp: retire_def obind_eq_Inr accounts_def buffers_in_def tidy_def writes_def filter_empty_conv
      split: sum.splits)

section \<open>An iteration of the loop\<close>

fun buffers_of :: "wal_msg \<Rightarrow> nat" where
  "buffers_of (WalWrite b) = 1"
| "buffers_of _ = 0"

fun last_lsn_of :: "u64 \<Rightarrow> wal_msg \<Rightarrow> u64" where
  "last_lsn_of l (WalWrite b) = lsn_hi b"
| "last_lsn_of l _ = l"

lemma handle_msg_buffers:
  assumes "handle_msg vacant rounds fsync_ok open_ok dir e m = Inr (Some (e', dir'))"
    and "slab_contract vacant" and "tidy e"
  shows "buffers_in e' = buffers_in e + buffers_of m \<and>
    last_ingested_lsn e' = last_lsn_of (last_ingested_lsn e) m \<and> tidy e'"
proof (cases m)
  case (WalWrite b)
  then obtain e1 where "handle_batch e b = Inr e1" "e' = e1\<lparr>spin_budget := DEFAULT_SPIN_BUDGET\<rparr>"
    using assms(1) by (auto simp: handle_msg_def obind_eq_Inr)
  then show ?thesis
    using handle_batch_buffers [of e b e1] assms(3) WalWrite by (simp add: buffers_in_def tidy_def)
next
  case (WalRotate l)
  then obtain e1 where "rotate vacant rounds fsync_ok open_ok dir e l = Inr (Some (e1, dir'))"
    "e' = e1\<lparr>spin_budget := DEFAULT_SPIN_BUDGET\<rparr>"
    using assms(1) by (auto simp: handle_msg_def obind_eq_Inr)
  then show ?thesis
    using rotate_accounts [of vacant rounds fsync_ok open_ok dir e l e1 dir'] assms(2,3) WalRotate
    by (auto simp: accounts_def buffers_in_def tidy_def)
next
  case (WalRetire l)
  then obtain e1 where "retire dir e l = Inr e1" "e' = e1\<lparr>spin_budget := DEFAULT_SPIN_BUDGET\<rparr>"
    using assms(1) by (auto simp: handle_msg_def obind_eq_Inr)
  then show ?thesis
    using retire_accounts [of dir e l e1] assms(3) WalRetire by (simp add: accounts_def buffers_in_def tidy_def)
qed

lemma wal_turn_buffers:
  assumes turn: "wal_turn vacant room cqes rounds fsync_ok open_ok dir e msgs = Inr (Some (e', dir', msgs', ss, p))"
    and slab: "slab_contract vacant" and tidy: "tidy e"
  shows "tidy e' \<and>
    (msgs' = msgs \<and> msgs = [] \<and> buffers_in e' = buffers_in e \<and> last_ingested_lsn e' = last_ingested_lsn e \<or>
     (\<exists>m. msgs = m # msgs' \<and> buffers_in e' = buffers_in e + buffers_of m \<and>
        last_ingested_lsn e' = last_lsn_of (last_ingested_lsn e) m))"
proof -
  have after: "accounts e1 e'"
    if "handle_pending vacant room (plan_fsync e1) = Inr (e2, ss2, moved)" "reap_cqes e2 cqes = Inr e'" "tidy e1"
    for e1 e2 ss2 moved
    using that plan_fsync_accounts handle_pending_accounts [OF _ slab] reap_cqes_accounts
    by (metis accounts_def)
  show ?thesis
  proof (cases msgs)
    case Nil
    let ?e = "e\<lparr>spin_budget := spin_budget e - 1\<rparr>"
    have "tidy ?e" using tidy by (simp add: tidy_def)
    then have "accounts ?e e'" "msgs' = []"
      using turn Nil after [of ?e]
      by (auto simp: wal_turn_def poll_channel_or_park_def obind_eq_Inr split: if_splits)
    then show ?thesis using Nil by (simp add: accounts_def buffers_in_def)
  next
    case (Cons m rest)
    then obtain e1 dir1 e2 ss2 moved where e1: "handle_msg vacant rounds fsync_ok open_ok dir e m = Inr (Some (e1, dir1))"
      and e2: "handle_pending vacant room (plan_fsync e1) = Inr (e2, ss2, moved)" "reap_cqes e2 cqes = Inr e'"
      and rest: "msgs' = rest"
      using turn by (auto simp: wal_turn_def poll_channel_or_park_def obind_eq_Inr split: option.splits)
    from handle_msg_buffers [OF e1 slab tidy] after [OF e2] rest Cons show ?thesis by (auto simp: accounts_def)
  qed
qed

end
