(* ===== verification/Server.thy ===== *)
theory Server
  imports Wal_Buffers Pipeline
begin

text \<open>
  The server process (\<open>crates/server/src/main.rs\<close>): recovery, the channels between the stages,
  the pool of batch buffers, and the three stages running side by side. A step is a request
  arriving from a connection, a turn of stage 2 or an iteration of stage 3, in any order.
  Stage 3 gives buffers back during its iteration; here they join the pool at its end, which
  stage 2 cannot tell from a slower stage 3. A turn of stage 2 hands its batch over at its very
  end, so an iteration of stage 3 may find the channel without the last message.
\<close>

section \<open>State and start\<close>

definition REQ_BOUND :: nat where
  "REQ_BOUND = 65536"

record server =
  srv_mode :: mode
  srv_items :: "request list"
  srv_s2 :: stage2
  srv_pool :: "batch list"
  srv_s23 :: "wal_msg list"
  srv_eng :: wal_engine
  srv_dir :: dir_state
  srv_replies :: "(nat \<times> resp) list"

text \<open>The start of the process, with the outcome of creating the ring and opening the segment.\<close>

definition server_start :: "bool \<Rightarrow> bool \<Rightarrow> mode \<Rightarrow> dir_state \<Rightarrow> server outcome" where
  "server_start ring_ok open_ok m dir =
     obind (recover dir) (\<lambda>(d, start_lsn).
     obind (wal_engine_new ring_ok open_ok RING_DEPTH (dir\<lparr>dir_exists := True\<rparr>) start_lsn m (acker_new m)) (\<lambda>(e, dir').
       Inr \<lparr>srv_mode = m, srv_items = [], srv_s2 = stage2_new d start_lsn,
            srv_pool = replicate N_BUFFERS batch_new, srv_s23 = [], srv_eng = e, srv_dir = dir',
            srv_replies = []\<rparr>))"

section \<open>Steps\<close>

text \<open>
  The request channel is bounded: a reader waits while it is full. Sequence numbers are kept
  from wrapping around, which would take \<open>2 ^ 64\<close> PUTs.
\<close>

inductive server_step :: "server \<Rightarrow> server \<Rightarrow> bool" where
  request: "body_ok body \<Longrightarrow> length (srv_items s) < REQ_BOUND \<Longrightarrow>
    server_step s (s\<lparr>srv_items := srv_items s @ [request_of conn body]\<rparr>)"
| table: "unat (s2_lsn (srv_s2 s)) + MAX_BATCH < 2 ^ 64 \<Longrightarrow>
    stage2_turn (acker_new (srv_mode s)) (srv_s2 s) (srv_pool s) (srv_items s) =
      Inr (S2Next s2 pool rest sent msgs) \<Longrightarrow>
    server_step s (s\<lparr>srv_s2 := s2, srv_pool := pool, srv_items := rest,
                     srv_replies := srv_replies s @ sent, srv_s23 := srv_s23 s @ msgs\<rparr>)"
| log: "slab_contract vacant \<Longrightarrow> srv_s23 s = seen @ unseen \<Longrightarrow> length unseen \<le> 1 \<Longrightarrow>
    wal_turn vacant room cqes rounds fsync_ok open_ok (srv_dir s) (srv_eng s) seen =
      Inr (Some (e, dir, msgs, ss, p)) \<Longrightarrow>
    finish_turn p err = Inr () \<Longrightarrow>
    server_step s (s\<lparr>srv_eng := e\<lparr>recycle_tx := []\<rparr>, srv_pool := srv_pool s @ recycle_tx e,
                     srv_s23 := msgs @ unseen, srv_dir := dir\<rparr>)"

inductive server_reach :: "server \<Rightarrow> server \<Rightarrow> bool" where
  start: "server_reach s s"
| next_step: "server_reach s s' \<Longrightarrow> server_step s' s'' \<Longrightarrow> server_reach s s''"

section \<open>The invariant\<close>

text \<open>Buffers outside stage 3: free, kept by stage 2, or on their way.\<close>

definition buffers_out :: "server \<Rightarrow> nat" where
  "buffers_out s =
     length (srv_pool s) + (case recycled_batch (srv_s2 s) of None \<Rightarrow> 0 | Some b \<Rightarrow> 1) + length (srv_s23 s)"

text \<open>The messages from one sequence number to another: batches without a gap, each of the size of a turn.\<close>

fun continues :: "u64 \<Rightarrow> wal_msg list \<Rightarrow> u64 \<Rightarrow> bool" where
  "continues l [] l' \<longleftrightarrow> l = l'"
| "continues l (WalWrite b # ms) l' \<longleftrightarrow>
     lsn_low b = l \<and> s2_shaped b \<and> length (items b) \<le> MAX_BATCH \<and> continues (lsn_hi b) ms l'"
| "continues l (m # ms) l' \<longleftrightarrow> False"

lemma continues_snoc:
  "continues l ms l' \<Longrightarrow> lsn_low b = l' \<Longrightarrow> s2_shaped b \<Longrightarrow> length (items b) \<le> MAX_BATCH \<Longrightarrow>
   continues l (ms @ [WalWrite b]) (lsn_hi b)"
  by (induction l ms l' rule: continues.induct) auto

lemma continues_step:
  "continues l (m # ms) l' \<Longrightarrow> \<exists>b. m = WalWrite b \<and> continues (last_lsn_of l m) ms l' \<and> buffers_of m = 1"
  by (cases m) auto

definition server_inv :: "server \<Rightarrow> bool" where
  "server_inv s \<longleftrightarrow>
     buffers_out s + buffers_in (srv_eng s) = N_BUFFERS \<and>
     tidy (srv_eng s) \<and> recycle_tx (srv_eng s) = [] \<and>
     list_all (\<lambda>b. b = batch_new) (srv_pool s) \<and> clean (srv_s2 s) \<and>
     length (srv_items s) \<le> REQ_BOUND \<and>
     continues (last_ingested_lsn (srv_eng s)) (srv_s23 s) (s2_lsn (srv_s2 s))"

lemma server_inv_start:
  assumes "server_start ring_ok open_ok m dir = Inr s"
  shows "server_inv s"
proof -
  from assms obtain d l e dir' where
    e: "wal_engine_new ring_ok open_ok RING_DEPTH (dir\<lparr>dir_exists := True\<rparr>) l m (acker_new m) = Inr (e, dir')"
    and s: "s = \<lparr>srv_mode = m, srv_items = [], srv_s2 = stage2_new d l, srv_pool = replicate N_BUFFERS batch_new,
                 srv_s23 = [], srv_eng = e, srv_dir = dir', srv_replies = []\<rparr>"
    by (auto simp: server_start_def obind_eq_Inr)
  have "recycle_tx e = []" using e by (auto simp: wal_engine_new_def obind_eq_Inr)
  with wal_engine_new_fields [OF e] show ?thesis
    by (simp add: server_inv_def s buffers_out_def buffers_in_def tidy_def clean_def stage2_new_def list_all_iff)
qed

lemma table_inv:
  assumes inv: "server_inv s"
    and turn: "stage2_turn a (srv_s2 s) (srv_pool s) (srv_items s) = Inr (S2Next s2 pool rest sent msgs)"
    and no_wrap: "unat (s2_lsn (srv_s2 s)) + MAX_BATCH < 2 ^ 64"
  shows "server_inv (s\<lparr>srv_s2 := s2, srv_pool := pool, srv_items := rest,
                       srv_replies := srv_replies s @ sent, srv_s23 := srv_s23 s @ msgs\<rparr>)"
proof -
  let ?c = "take MAX_BATCH (srv_items s)" and ?s2 = "srv_s2 s"
  let ?b = "s2_batch a (s2_db ?s2) (s2_lsn ?s2) ?c"
  have inv': "clean ?s2" "list_all (\<lambda>b. b = batch_new) (srv_pool s)" "length (srv_items s) \<le> REQ_BOUND"
    "continues (last_ingested_lsn (srv_eng s)) (srv_s23 s) (s2_lsn ?s2)"
    using inv by (simp_all add: server_inv_def)
  from stage2_turn_wf [OF turn inv'(1,2)] have got: "obtain_batch ?s2 (srv_pool s) = Some (batch_new, pool)"
    and c: "?c \<noteq> []" "list_all wf_req ?c" by simp_all
  have "puts ?c \<le> length ?c" unfolding puts_def by (rule length_filter_le)
  then have nw: "unat (s2_lsn ?s2) + puts ?c < 2 ^ 64" using no_wrap by simp
  from stage2_turn_closed [OF got refl c nw, of a] turn have
    s2: "s2 = ?s2\<lparr>s2_db := foldl serve (s2_db ?s2) ?c, s2_lsn := s2_lsn ?s2 + of_nat (puts ?c),
                  recycled_batch := (if puts ?c = 0 then Some batch_new else None)\<rparr>"
    and out: "rest = drop MAX_BATCH (srv_items s)" "msgs = (if puts ?c = 0 then [] else [WalWrite ?b])"
    by simp_all
  have b: "lsn_low ?b = s2_lsn ?s2" "s2_shaped ?b" "length (items ?b) \<le> MAX_BATCH" "lsn_hi ?b = s2_lsn ?s2 + of_nat (puts ?c)"
    using s2_batch_shaped [OF c(2)] by (simp_all add: s2_batch_def)
  have "continues (last_ingested_lsn (srv_eng s)) (srv_s23 s @ msgs) (s2_lsn s2)"
    using continues_snoc [OF inv'(4) b(1-3)] inv'(4) by (simp add: out(2) s2 b(4))
  moreover have "length pool + (case recycled_batch s2 of None \<Rightarrow> 0 | Some b \<Rightarrow> 1) + length msgs =
      length (srv_pool s) + (case recycled_batch ?s2 of None \<Rightarrow> 0 | Some b \<Rightarrow> 1)"
    using got by (auto simp: obtain_batch_def s2 out(2) split: option.splits list.splits)
  moreover have "list_all (\<lambda>b. b = batch_new) pool"
    using got inv'(2) by (auto simp: obtain_batch_def split: option.splits list.splits)
  ultimately show ?thesis
    using inv inv'(3) by (auto simp: server_inv_def buffers_out_def s2 clean_def out(1))
qed

lemma log_inv:
  assumes inv: "server_inv s" and slab: "slab_contract vacant"
    and chan: "srv_s23 s = seen @ unseen"
    and turn: "wal_turn vacant room cqes rounds fsync_ok open_ok (srv_dir s) (srv_eng s) seen =
      Inr (Some (e, dir, msgs, ss, p))"
  shows "server_inv (s\<lparr>srv_eng := e\<lparr>recycle_tx := []\<rparr>, srv_pool := srv_pool s @ recycle_tx e,
                       srv_s23 := msgs @ unseen, srv_dir := dir\<rparr>)"
proof -
  have inv': "tidy (srv_eng s)" "continues (last_ingested_lsn (srv_eng s)) (seen @ unseen) (s2_lsn (srv_s2 s))"
    using inv by (simp_all add: server_inv_def chan)
  note t = wal_turn_buffers [OF turn slab inv'(1)]
  have "continues (last_ingested_lsn e) (msgs @ unseen) (s2_lsn (srv_s2 s)) \<and>
      length msgs + buffers_in e = length seen + buffers_in (srv_eng s)"
    using t inv'(2) continues_step by fastforce
  moreover have "buffers_in e = buffers_in (e\<lparr>recycle_tx := []\<rparr>) + length (recycle_tx e)"
    by (simp add: buffers_in_def)
  ultimately show ?thesis
    using inv t by (auto simp: server_inv_def buffers_out_def tidy_def chan)
qed

lemma server_inv_step: "server_step s s' \<Longrightarrow> server_inv s \<Longrightarrow> server_inv s'"
proof (induction rule: server_step.induct)
  case (request body s conn)
  then show ?case by (simp add: server_inv_def buffers_out_def)
next
  case (table s s2 pool rest sent msgs)
  then show ?case by (intro table_inv)
next
  case (log vacant s seen unseen room cqes rounds fsync_ok open_ok e dir msgs ss p err)
  from log.prems log.hyps(1,2,4) show ?case by (rule log_inv)
qed

lemma server_inv_reach: "server_reach s s' \<Longrightarrow> server_inv s \<Longrightarrow> server_inv s'"
  by (induction rule: server_reach.induct) (auto intro: server_inv_step)

lemma shaped_accepted:
  assumes "s2_shaped b" and "lsn_low b = last_ingested_lsn e"
  shows "\<exists>e' buf. handle_batch e b = Inr e' \<and> encode_items (out b) (lsn_low b) (items b) = Inr (buf, lsn_hi b)"
  using handle_batch_shaped [OF assms] assms(1) by (auto simp: s2_shaped_def encode_items_eq)

lemma finish_turn_ok: "finish_turn pk None = Inr ()"
  by (cases pk) (simp_all add: finish_turn_def submit_ring_and_park_def)

lemma put_batch_s2: "s2_batch (acker_new Sync) d l [put_req] = put_batch l"
proof -
  have "kind put_req = Put" by (simp add: put_req_def kind_def req_body_def)
  then show ?thesis
    by (simp add: s2_batch_def put_batch_def answer_def settle_def answered_at_def kind_def acker_new_def)
      (simp add: put_req_def)
qed

text \<open>The turn of stage 2 on one PUT in mode Sync: nothing is sent, and the batch waits for durability.\<close>

lemma put_turn:
  assumes got: "obtain_batch s pool = Some (batch_new, pool')" and l: "unat (s2_lsn s) + 1 < 2 ^ 64"
  shows "stage2_turn (acker_new Sync) s pool [put_req] =
    Inr (S2Next (s\<lparr>s2_db := serve (s2_db s) put_req, s2_lsn := s2_lsn s + 1, recycled_batch := None\<rparr>) pool' [] []
      [WalWrite (put_batch (s2_lsn s))])"
proof -
  let ?a = "acker_new Sync"
  have k: "kind put_req = Put" by (simp add: put_req_def kind_def req_body_def)
  have sent: "s2_sent ?a (s2_db s) [put_req] = []"
    using k by (simp add: s2_sent_def answered_at_def kind_def acker_new_def)
  have c: "[put_req] = take MAX_BATCH [put_req]" "list_all wf_req [put_req]" "drop MAX_BATCH [put_req] = []"
    by (simp_all add: MAX_BATCH_def)
  have "unat (s2_lsn s) + puts [put_req] < 2 ^ 64" using l by simp
  from stage2_turn_closed [OF got c(1) _ c(2) this, of ?a] show ?thesis using put_batch_s2 sent c(3) by simp
qed

section \<open>Properties\<close>

text \<open>
  C7. The pipeline neither loses nor leaks a buffer and never breaks the log. In every state
  the server reaches from its start, in every mode and under every interleaving of connections,
  stage 2 and stage 3: the 32 buffers are each in exactly one place (free, kept by stage 2, on
  the way to stage 3, in a write that is pending or in flight, or waiting for an fsync); free
  buffers carry nothing of the requests they served before; and stage 3 accepts the next message
  of stage 2, with its gap assertion and its count of PUTs satisfied.
\<close>

theorem server_buffers:
  assumes "server_start ring_ok open_ok m dir = Inr s0" and "server_reach s0 s"
  shows "length (srv_pool s) + (case recycled_batch (srv_s2 s) of None \<Rightarrow> 0 | Some b \<Rightarrow> 1) + length (srv_s23 s) +
           writes (pending (srv_eng s)) + writes (map snd (inflight (srv_eng s))) +
           length (awaiting_fsync (srv_eng s)) = N_BUFFERS \<and>
         list_all (\<lambda>b. b = batch_new) (srv_pool s) \<and>
         (\<forall>x rest. srv_s23 s = x # rest \<longrightarrow>
            (\<exists>b e buf. x = WalWrite b \<and> length (items b) \<le> MAX_BATCH \<and> handle_batch (srv_eng s) b = Inr e \<and>
               encode_items (out b) (lsn_low b) (items b) = Inr (buf, lsn_hi b)))"
proof -
  have inv: "server_inv s" using server_inv_reach [OF assms(2) server_inv_start [OF assms(1)]] .
  have "\<exists>b e buf. x = WalWrite b \<and> length (items b) \<le> MAX_BATCH \<and> handle_batch (srv_eng s) b = Inr e \<and>
      encode_items (out b) (lsn_low b) (items b) = Inr (buf, lsn_hi b)" if "srv_s23 s = x # rest" for x rest
  proof -
    have "continues (last_ingested_lsn (srv_eng s)) (x # rest) (s2_lsn (srv_s2 s))"
      using inv that by (simp add: server_inv_def)
    then show ?thesis using shaped_accepted by (cases x) fastforce+
  qed
  then show ?thesis using inv by (auto simp: server_inv_def buffers_out_def buffers_in_def)
qed

lemma one_put_served:
  "\<exists>s0 s b. server_start True True Sync empty_dir = Inr s0 \<and> server_reach s0 s \<and> srv_s23 s = [WalWrite b]"
proof -
  have rec: "recover empty_dir = Inr (db_new, 1)" using empty_dir_good by (simp add: good_dir_def)
  obtain e dir' where e: "wal_engine_new True True RING_DEPTH (empty_dir\<lparr>dir_exists := True\<rparr>) 1 Sync (acker_new Sync) = Inr (e, dir')"
    by (simp add: wal_engine_new_def segment_open_def Let_def)
  obtain s0 where s0: "server_start True True Sync empty_dir = Inr s0" "srv_mode s0 = Sync" "srv_items s0 = []"
    "srv_s2 s0 = stage2_new db_new 1" "srv_pool s0 = replicate N_BUFFERS batch_new" "srv_s23 s0 = []"
    using rec e by (simp add: server_start_def)
  let ?s1 = "s0\<lparr>srv_items := [put_req]\<rparr>"
  have "body_ok (req_body Put [1] [7])" by (simp add: body_ok_def MAX_FRAME_def req_body_def)
  then have s1: "server_step s0 ?s1"
    using server_step.request [of _ s0 3] by (simp add: s0 put_req_def request_of_def REQ_BOUND_def)
  have wf: "list_all wf_req [put_req]" "puts [put_req] = 1" by simp_all
  have got: "obtain_batch (srv_s2 ?s1) (srv_pool ?s1) = Some (batch_new, replicate 31 batch_new)"
    by (simp add: obtain_batch_def s0 stage2_new_def N_BUFFERS_def numeral_eq_Suc)
  have c: "[put_req] = take MAX_BATCH (srv_items ?s1)" by (simp add: MAX_BATCH_def)
  have nw: "unat (s2_lsn (srv_s2 ?s1)) + puts [put_req] < 2 ^ 64" by (simp add: s0 stage2_new_def wf)
  obtain s2 pool rest sent b where
    t: "stage2_turn (acker_new (srv_mode ?s1)) (srv_s2 ?s1) (srv_pool ?s1) (srv_items ?s1) =
      Inr (S2Next s2 pool rest sent [WalWrite b])"
    using stage2_turn_closed [OF got c _ wf(1) nw] wf(2) by simp
  have "unat (s2_lsn (srv_s2 ?s1)) + MAX_BATCH < 2 ^ 64" by (simp add: s0 stage2_new_def MAX_BATCH_def)
  from server_step.table [OF this t] have "server_reach s0 (?s1\<lparr>srv_s2 := s2, srv_pool := pool, srv_items := rest,
      srv_replies := srv_replies ?s1 @ sent, srv_s23 := srv_s23 ?s1 @ [WalWrite b]\<rparr>)"
    using s1 by (meson server_reach.intros)
  then show ?thesis using s0 by (auto intro!: exI)
qed

theorem server_buffers_witness:
  "\<exists>s0 s b e. server_start True True Sync empty_dir = Inr s0 \<and> server_reach s0 s \<and>
     srv_s23 s = [WalWrite b] \<and> handle_batch (srv_eng s) b = Inr e"
proof -
  obtain s0 s b where s: "server_start True True Sync empty_dir = Inr s0" "server_reach s0 s" "srv_s23 s = [WalWrite b]"
    using one_put_served by blast
  from server_buffers [OF s(1,2)] s show ?thesis by auto
qed

end
