(* ===== verification/Compaction.thy ===== *)
theory Compaction
  imports Wal_Engine Recover
begin

text \<open>
  Retiring segments (\<open>retire\<close> of \<open>crates/server/src/stage3/mod.rs\<close>) and recovery together: which
  files are removed, and that removing any of them, in any order and with a crash at any point,
  does not change what recovery returns.
\<close>

section \<open>Removing files\<close>

text \<open>The directory after the unlinks of a set of names have happened.\<close>

definition without :: "string set \<Rightarrow> dir_state \<Rightarrow> dir_state" where
  "without names dir = dir\<lparr>entries := filter (\<lambda>e. fst e \<notin> names) (entries dir)\<rparr>"

lemma dir_file_without: "dir_file name (without names dir) = (if name \<in> names then None else dir_file name dir)"
proof -
  have "map_of (filter (\<lambda>e. fst e \<notin> names) xs) name = (if name \<in> names then None else map_of xs name)"
    for xs :: "(string \<times> bytes) list" by (induction xs) auto
  then show ?thesis by (simp add: dir_file_def without_def)
qed

lemma list_segments_names:
  "list_segments dir = Inr segs \<Longrightarrow> (l, path) \<in> set segs \<Longrightarrow> seg_start path = Some l"
  by (auto simp: list_segments_def Let_def split: if_splits option.splits)

lemma list_segments_without:
  assumes "list_segments dir = Inr segs"
  shows "list_segments (without names dir) = Inr (filter (\<lambda>sg. snd sg \<notin> names) segs)"
proof -
  let ?f = "\<lambda>(name, b :: bytes). case seg_start name of None \<Rightarrow> [] | Some start \<Rightarrow> [(start, name)]"
  have "concat (map ?f (filter (\<lambda>e. fst e \<notin> names) xs)) = filter (\<lambda>sg. snd sg \<notin> names) (concat (map ?f xs))" for xs
    by (induction xs) (auto split: option.splits)
  then show ?thesis using assms
    by (auto simp: list_segments_def without_def Let_def filter_sort split: if_splits)
qed

lemma load_snapshot_without: "''snapshot'' \<notin> names \<Longrightarrow> load_snapshot (without names dir) = load_snapshot dir"
  by (simp add: load_snapshot_def dir_file_without) (simp add: without_def cong: option.case_cong)

section \<open>Recovery without the removed segments\<close>

definition kept :: "string set \<Rightarrow> (u64 \<times> string) list \<Rightarrow> 'a list \<Rightarrow> 'a list" where
  "kept names segs cs = map snd (filter (\<lambda>(sg, c). snd sg \<notin> names) (zip segs cs))"

text \<open>A segment that recovery does not need: intact, and covered by the snapshot.\<close>

definition superseded :: "u64 \<Rightarrow> (u64 \<times> bytes) list \<times> bytes \<Rightarrow> bool" where
  "superseded snap c \<longleftrightarrow> snd c = [] \<and> list_all (\<lambda>r. fst r \<le> snap) (fst c)"

lemma kept_holds:
  assumes "list_all2 (seg_holds dir) segs cs"
  shows "list_all2 (seg_holds (without names dir)) (filter (\<lambda>sg. snd sg \<notin> names) segs) (kept names segs cs)"
  using assms
proof (induction segs cs rule: list_all2_induct)
  case Nil
  then show ?case by (simp add: kept_def)
next
  case (Cons sg segs c cs)
  have "readable (without names dir) = readable dir" by (simp add: without_def)
  then show ?case using Cons by (simp add: kept_def seg_holds_def dir_file_without)
qed

lemma live_superseded: "superseded snap c \<Longrightarrow> live snap (fst c) = []"
  by (auto simp: superseded_def live_def list_all_iff filter_empty_conv not_less)

lemma live_append: "live snap (xs @ ys) = live snap xs @ live snap ys"
  by (simp add: live_def)

lemma live_kept:
  assumes "list_all2 R segs cs"
    and "list_all2 (\<lambda>sg c. snd sg \<in> names \<longrightarrow> superseded snap c) segs cs"
  shows "live snap (surviving (kept names segs cs)) = live snap (surviving cs)"
  using assms
proof (induction segs cs rule: list_all2_induct)
  case Nil
  then show ?case by (simp add: kept_def)
next
  case (Cons sg segs c cs)
  obtain es t where c: "c = (es, t)" by (cases c)
  show ?case
  proof (cases "snd sg \<in> names")
    case True
    then have "t = []" "live snap es = []" using Cons.prems live_superseded [of snap c] by (auto simp: c superseded_def)
    then show ?thesis using Cons True by (simp add: kept_def c live_append)
  next
    case False
    then show ?thesis using Cons by (auto simp: kept_def c live_append)
  qed
qed

text \<open>Recovery of a directory from which segments were removed replays exactly the others.\<close>

lemma recover_without:
  assumes mk: "mkdir_ok dir" and snap: "load_snapshot dir = Inr (d0, snap)"
    and segs: "list_segments (dir\<lparr>dir_exists := True\<rparr>) = Inr segs"
    and holds: "list_all2 (seg_holds dir) segs cs" and keep: "''snapshot'' \<notin> names"
  shows "recover (without names dir) = Inr (foldl apply_body d0 (map snd (live snap (surviving (kept names segs cs)))),
      foldl max snap (map fst (live snap (surviving (kept names segs cs)))) + 1)"
    and "list_all2 (\<lambda>sg c. snd sg \<in> names \<longrightarrow> superseded snap c) segs cs \<Longrightarrow> recover (without names dir) = recover dir"
proof -
  let ?dir = "without names dir"
  have "mkdir_ok ?dir" using mk by (simp add: without_def)
  moreover have "load_snapshot ?dir = Inr (d0, snap)" using snap keep by (simp add: load_snapshot_without)
  moreover have "?dir\<lparr>dir_exists := True\<rparr> = without names (dir\<lparr>dir_exists := True\<rparr>)" by (simp add: without_def)
  then have "list_segments (?dir\<lparr>dir_exists := True\<rparr>) = Inr (filter (\<lambda>sg. snd sg \<notin> names) segs)"
    using list_segments_without [OF segs] by simp
  ultimately show exact: "recover ?dir = Inr (foldl apply_body d0 (map snd (live snap (surviving (kept names segs cs)))),
      foldl max snap (map fst (live snap (surviving (kept names segs cs)))) + 1)"
    using kept_holds [OF holds] by (rule recover_eq)
  show "recover ?dir = recover dir" if old: "list_all2 (\<lambda>sg c. snd sg \<in> names \<longrightarrow> superseded snap c) segs cs"
    using exact unfolding live_kept [OF holds old] recover_eq [OF mk snap segs holds] .
qed

section \<open>Properties\<close>

text \<open>
  C14. What retiring segments does to recovery. A boundary above the start of the active segment
  is refused. Otherwise the engine queues the removal of exactly the segments that start below
  the boundary, and the file it writes to is not among them. Whichever of these removals have
  happened, in any order and number, recovery returns exactly the snapshot and the PUTs of the
  segments that are left; so it returns what it returned before provided that each removed
  segment is intact and all its records are covered by the snapshot. The engine does not check
  that: it relies on the boundary it is given.
\<close>

theorem retire_keeps_recovery:
  assumes mk: "mkdir_ok dir" "dir_exists dir" and snap: "load_snapshot dir = Inr (d0, snap)"
    and segs: "list_segments dir = Inr segs" and holds: "list_all2 (seg_holds dir) segs cs"
    and active: "seg_fd (seg e) = segment_path (seg_start_lsn (seg e))"
  shows "if seg_start_lsn (seg e) < boundary then retire dir e boundary = Inl ExplicitPanic
    else \<exists>paths. retire dir e boundary = Inr (e\<lparr>pending := pending e @ map RemoveWork paths\<rparr>) \<and>
      set paths = {p. \<exists>l < boundary. (l, p) \<in> set segs} \<and> seg_fd (seg e) \<notin> set paths \<and>
      (\<forall>names \<subseteq> set paths.
         recover (without names dir) = Inr (foldl apply_body d0 (map snd (live snap (surviving (kept names segs cs)))),
           foldl max snap (map fst (live snap (surviving (kept names segs cs)))) + 1) \<and>
         (list_all2 (\<lambda>sg c. snd sg \<in> names \<longrightarrow> superseded snap c) segs cs \<longrightarrow> recover (without names dir) = recover dir))"
proof (cases "seg_start_lsn (seg e) < boundary")
  case True
  then show ?thesis by (simp add: retire_def)
next
  case False
  define paths where "paths = map snd (filter (\<lambda>sg. fst sg < boundary) segs)"
  have set: "set paths = {p. \<exists>l < boundary. (l, p) \<in> set segs}" by (force simp: paths_def)
  note starts = list_segments_names [OF segs]
  have "retire dir e boundary = Inr (e\<lparr>pending := pending e @ map RemoveWork paths\<rparr>)"
    using False segs by (simp add: retire_def paths_def case_prod_beta' o_def)
  moreover have "seg_fd (seg e) \<notin> set paths"
    using False starts [of _ "segment_path (seg_start_lsn (seg e))"] unfolding active set by (auto simp: seg_start_segment_path)
  moreover have "list_segments (dir\<lparr>dir_exists := True\<rparr>) = Inr segs"
    using segs mk(2) by (auto simp: list_segments_def Let_def split: if_splits)
  moreover have "''snapshot'' \<notin> set paths"
  proof -
    have "seg_start ''snapshot'' = None" by (simp add: seg_start_def strip_prefix_def SEG_PREFIX_def)
    then show ?thesis using starts unfolding set by auto
  qed
  ultimately show ?thesis using set recover_without [OF mk(1) snap _ holds] unfolding if_not_P [OF False] by blast
qed

text \<open>A snapshot, a segment it covers and the active segment.\<close>

definition compact_dir :: dir_state where
  "compact_dir =
     \<lparr>dir_exists = True, mkdir_ok = True, readdir_ok = True, readable = (\<lambda>_. True),
      entries = [(''snapshot'', snapshot_bytes 5 []), (segment_path 1, record_bytes (2, req_body Put [1] [7])),
                 (segment_path 5, [])]\<rparr>"

lemma compact_dir_facts:
  "\<exists>d. load_snapshot compact_dir = Inr (d, 5)"
  "list_segments compact_dir = Inr [(1, segment_path 1), (5, segment_path 5)]"
  "list_all2 (seg_holds compact_dir) [(1, segment_path 1), (5, segment_path 5)]
     [([(2, req_body Put [1] [7])], []), ([], [])]"
proof -
  have no: "seg_start ''snapshot'' = None" by (simp add: seg_start_def strip_prefix_def SEG_PREFIX_def)
  have "\<exists>d. load (snapshot_bytes 5 []) db_new = Inr (Some 5, d)"
    using snapshot_load_ok [of "[]" 5] by (auto simp: db_inv_def)
  then show "\<exists>d. load_snapshot compact_dir = Inr (d, 5)"
    by (auto simp: load_snapshot_def compact_dir_def dir_file_def)
  show "list_segments compact_dir = Inr [(1, segment_path 1), (5, segment_path 5)]"
    by (simp add: list_segments_def compact_dir_def no Let_def)
  have "hd (req_body Put [1] [7]) = OP_PUT" "req_body Put [1] [7] \<noteq> []" by (simp_all add: req_body_def)
  then have "entry_ok (2, req_body Put [1] [7])" by (simp add: entry_ok_def record_fits_def)
  then show "list_all2 (seg_holds compact_dir) [(1, segment_path 1), (5, segment_path 5)]
     [([(2, req_body Put [1] [7])], []), ([], [])]"
    using segment_path_not_snapshot [of 1] segment_path_not_snapshot [of 5]
    by (simp add: seg_holds_def compact_dir_def dir_file_def segment_path_inject)
qed

theorem retire_keeps_recovery_witness:
  "\<exists>e paths. wal_engine_new True True 128 compact_dir 5 Sync (acker_new Sync) = Inr (e, compact_dir) \<and>
     retire compact_dir e 5 = Inr (e\<lparr>pending := pending e @ map RemoveWork paths\<rparr>) \<and>
     segment_path 1 \<in> set paths \<and> recover (without {segment_path 1} compact_dir) = recover compact_dir"
proof -
  obtain d where d: "load_snapshot compact_dir = Inr (d, 5)" using compact_dir_facts(1) by blast
  have f: "map_of (entries compact_dir) (segment_path 5) = Some []"
    using segment_path_not_snapshot [of 5] by (simp add: compact_dir_def segment_path_inject)
  obtain e where e: "wal_engine_new True True 128 compact_dir 5 Sync (acker_new Sync) = Inr (e, compact_dir)"
    "seg_fd (seg e) = segment_path 5" "seg_start_lsn (seg e) = 5"
    using f by (simp add: wal_engine_new_def segment_open_def Let_def)
  have mk: "mkdir_ok compact_dir" "dir_exists compact_dir" by (simp_all add: compact_dir_def)
  let ?segs = "[(1 :: u64, segment_path 1), (5, segment_path 5)]" and ?cs = "[([(2 :: u64, req_body Put [1] [7])], []), ([], [])]"
  have act: "seg_fd (seg e) = segment_path (seg_start_lsn (seg e))" by (simp add: e)
  have low: "\<not> seg_start_lsn (seg e) < 5" by (simp add: e(3))
  have covered: "list_all2 (\<lambda>sg c. snd sg \<in> {segment_path 1} \<longrightarrow> superseded 5 c) ?segs ?cs"
    by (simp add: superseded_def segment_path_inject)
  have first: "segment_path 1 \<in> {p. \<exists>l < 5. (l, p) \<in> set ?segs}" by (auto intro!: exI [of _ "1 :: u64"])
  from retire_keeps_recovery [OF mk d compact_dir_facts(2,3) act, of 5, unfolded if_not_P [OF low]]
  have "\<exists>paths. retire compact_dir e 5 = Inr (e\<lparr>pending := pending e @ map RemoveWork paths\<rparr>) \<and>
      segment_path 1 \<in> set paths \<and> recover (without {segment_path 1} compact_dir) = recover compact_dir"
    by (rule ex_forward) (elim conjE, intro conjI, assumption, (simp only: first),
      (elim allE [of _ "{segment_path 1}"] impE), (simp only: first insert_subset empty_subsetI simp_thms), elim conjE mp, rule covered)
  then show ?thesis using e(1) by blast
qed

end
