(* ===== verification/Wal_Liveness.thy ===== *)
theory Wal_Liveness
  imports Wal_Buffers Wal_Prefix Wal_Loop Stage2
begin

text \<open>
  Stage 3 does not strand the pipeline: when its loop blocks on the channel, it never holds all
  buffers, so stage 2 can still take one and wake it up. This rests on the order in which the
  ring completes: what is queued is a queue of writes and syncs whose order the drain flag keeps,
  and when a sync completes, at least one batch that waits is let go.
\<close>

section \<open>A queue of writes and syncs\<close>

text \<open>
  \<open>q\<close> is the queue (\<open>True\<close> is a sync), \<open>aw\<close> the number of batches that wait for a sync, \<open>h\<close> the
  buffers held, \<open>busy\<close> and \<open>fresh\<close> what the planner remembers.
\<close>

definition sound :: "bool list \<Rightarrow> nat \<Rightarrow> nat \<Rightarrow> bool \<Rightarrow> bool \<Rightarrow> bool" where
  "sound q aw h busy fresh \<longleftrightarrow>
     aw \<le> h \<and> h \<le> N_BUFFERS \<and>
     (if busy
      then \<exists>u v. q = u @ True # v \<and> True \<notin> set u \<and> True \<notin> set v \<and> (u \<noteq> [] \<or> aw \<noteq> 0) \<and> (fresh \<longleftrightarrow> v \<noteq> [])
      else True \<notin> set q \<and> (fresh \<longleftrightarrow> q \<noteq> [] \<or> aw \<noteq> 0) \<and> (fresh \<longrightarrow> h < N_BUFFERS))"

lemma sound_receive:
  assumes "sound q aw h busy fresh" and "h < N_BUFFERS"
  shows "if busy then sound (q @ [False]) aw (Suc h) True True else sound (q @ [False, True]) aw (Suc h) True False"
proof (cases busy)
  case True
  then obtain u v where uv: "q = u @ True # v" "True \<notin> set u" "True \<notin> set v" "u \<noteq> [] \<or> aw \<noteq> 0"
    using assms(1) by (auto simp: sound_def)
  have "\<exists>u' v'. q @ [False] = u' @ True # v' \<and> True \<notin> set u' \<and> True \<notin> set v' \<and> (u' \<noteq> [] \<or> aw \<noteq> 0) \<and> v' \<noteq> []"
    using uv by (intro exI [of _ u] exI [of _ "v @ [False]"]) simp
  then show ?thesis using True assms by (simp add: sound_def)
next
  case False
  then have "True \<notin> set q" "aw \<le> h" using assms(1) by (simp_all add: sound_def)
  then have "\<exists>u v. q @ [False, True] = u @ True # v \<and> True \<notin> set u \<and> True \<notin> set v \<and> (u \<noteq> [] \<or> aw \<noteq> 0) \<and> v = []"
    by (intro exI [of _ "q @ [False]"] exI [of _ "[]"]) simp
  then show ?thesis using False \<open>aw \<le> h\<close> assms(2) by (simp add: sound_def)
qed

lemma sound_plan:
  assumes "sound q aw h False True"
  shows "sound (q @ [True]) aw h True False"
proof -
  have "\<exists>u v. q @ [True] = u @ True # v \<and> True \<notin> set u \<and> True \<notin> set v \<and> (u \<noteq> [] \<or> aw \<noteq> 0) \<and> v = []"
    using assms by (intro exI [of _ q] exI [of _ "[]"]) (simp add: sound_def)
  then show ?thesis using assms by (simp add: sound_def)
qed

lemma sound_write_done:
  assumes "sound (False # q) aw h busy fresh" and "Suc aw \<le> h"
  shows "sound q (Suc aw) h busy fresh"
proof (cases busy)
  case True
  then obtain u v where uv: "False # q = u @ True # v" "True \<notin> set u" "True \<notin> set v" "fresh \<longleftrightarrow> v \<noteq> []"
    using assms(1) by (auto simp: sound_def)
  then obtain u' where "u = False # u'" by (cases u) auto
  then have "\<exists>u v. q = u @ True # v \<and> True \<notin> set u \<and> True \<notin> set v \<and> (fresh \<longleftrightarrow> v \<noteq> [])"
    using uv by (intro exI [of _ u'] exI [of _ v]) simp
  then show ?thesis using True assms by (simp add: sound_def)
next
  case False
  then show ?thesis using assms by (auto simp: sound_def)
qed

lemma sound_sync_done:
  assumes "sound (True # q) aw h busy fresh"
  shows "sound q 0 (h - aw) False fresh"
proof -
  have busy using assms by (auto simp: sound_def split: if_splits)
  then obtain u v where uv: "True # q = u @ True # v" "True \<notin> set u" "True \<notin> set v" "u \<noteq> [] \<or> aw \<noteq> 0" "fresh \<longleftrightarrow> v \<noteq> []"
    using assms by (auto simp: sound_def)
  then have "u = []" by (cases u) auto
  then show ?thesis using uv assms by (auto simp: sound_def)
qed

lemma sound_blocked: "sound [] aw h busy fresh \<Longrightarrow> aw = h \<Longrightarrow> h < N_BUFFERS"
  by (auto simp: sound_def N_BUFFERS_def split: if_splits)

section \<open>The queue of the system\<close>

text \<open>
  Completions not reaped yet come first, then the outstanding operations in the order in which
  they reach the file.
\<close>

definition sync_key :: "wal_engine \<Rightarrow> nat \<Rightarrow> bool" where
  "sync_key e key \<longleftrightarrow> (\<exists>l. map_of (inflight e) key = Some (FsyncWork l))"

definition queue_of :: "wal_system \<Rightarrow> bool list" where
  "queue_of s =
     map (\<lambda>c. sync_key (eng s) (fst c)) (ring_cq (ker s)) @ map (\<lambda>x. x = None) (trail s)"

definition holds_buffers :: "wal_engine \<Rightarrow> nat" where
  "holds_buffers e = writes (pending e) + writes (map snd (inflight e)) + length (awaiting_fsync e)"

definition live_inv :: "wal_system \<Rightarrow> bool" where
  "live_inv s \<longleftrightarrow>
     cadence (planner (eng s)) = Consistently \<and>
     sound (queue_of s) (length (awaiting_fsync (eng s))) (holds_buffers (eng s))
       (flush_running (planner (eng s))) (dirty_bytes (planner (eng s)) \<noteq> 0)"

definition steady :: "wal_system \<Rightarrow> bool" where
  "steady s \<longleftrightarrow> wal_inv s \<and> order_inv s \<and> whole_inv s \<and> small_outs s \<and> live_inv s"

lemma live_inv_same:
  assumes "live_inv s" and "queue_of s' = queue_of s" and "awaiting_fsync (eng s') = awaiting_fsync (eng s)"
    and "holds_buffers (eng s') = holds_buffers (eng s)" and "planner (eng s') = planner (eng s)"
  shows "live_inv s'"
  using assms by (simp add: live_inv_def)

lemma steady_step:
  assumes "steady s" and "full_writes kstep" and "wal_step kstep s s'" and "outs s' = outs s" and "live_inv s'"
  shows "steady s'"
proof -
  have inv: "wal_inv s" "order_inv s" "whole_inv s" "small_outs s" using assms(1) by (simp_all add: steady_def)
  have "wal_inv s'" using wal_inv_reach wal_reach.next_step [OF wal_reach.start assms(3)] inv(1) full_writes_contract [OF assms(2)] by blast
  moreover have "small_outs s'" using inv(4) assms(4) by (simp add: small_outs_def)
  ultimately show ?thesis using wal_step_order [OF assms(3,2) inv] assms(5) by (simp add: steady_def)
qed

section \<open>The ring\<close>

lemma same_elements: "\<forall>y \<in> set xs. y = x \<Longrightarrow> x # xs = xs @ [x]"
  by (induction xs) auto

lemma kernel_queue:
  assumes inv: "wal_inv s" "whole_inv s" "small_outs s" and step: "completes i res (ker s) k"
  shows "queue_of (s\<lparr>ker := k\<rparr>) = queue_of s"
proof -
  let ?sq = "ring_sq (ker s)" and ?none = "\<lambda>x :: (nat \<times> nat) option. x = None"
  obtain key q where q: "?sq ! i = (key, q)" by fastforce
  have i: "i < length ?sq" and sq: "ring_sq k = take i ?sq @ drop (Suc i) ?sq"
    and cq: "ring_cq k = ring_cq (ker s) @ [(key, res)]" and nd: "\<forall>j < i. \<not> is_drain (snd (?sq ! j))"
    and d: "is_drain q \<longrightarrow> i = 0" using step q by (simp_all add: completes_def)
  let ?before = "map (sqe_span \<circ> snd) (take i ?sq)"
  let ?behind = "map (sqe_span \<circ> snd) (drop (Suc i) ?sq) @ map work_span (pending (eng s))"
  have t: "trail s = ?before @ sqe_span q # ?behind" "trail (s\<lparr>ker := k\<rparr>) = ?before @ ?behind"
    using trail_completes [OF i q sq] by simp_all
  have "(key, q) \<in> set ?sq" using i q nth_mem by metis
  then obtain work where w: "map_of (inflight (eng s)) key = Some work" "sqe_span q = work_span work"
    "is_drain q = (sqe_span q = None)" "no_remove work"
    using ring_entry [OF inv] by metis
  have key: "sync_key (eng s) key = ?none (sqe_span q)"
    using w(1,4) unfolding sync_key_def w(2) by (cases work) simp_all
  have "?none (sqe_span q) # map ?none ?before = map ?none ?before @ [?none (sqe_span q)]"
  proof (cases "sqe_span q = None")
    case True
    then show ?thesis using d w(3) by simp
  next
    case False
    have "None \<notin> set ?before" using writes_before [OF inv nd] .
    then have "\<forall>y \<in> set ?before. y \<noteq> None" by metis
    then have "\<forall>y \<in> set (map ?none ?before). y = ?none (sqe_span q)"
      using False unfolding set_map [of ?none] by blast
    then show ?thesis by (rule same_elements)
  qed
  then show ?thesis by (simp add: queue_of_def t cq key)
qed

lemma kernel_steady:
  assumes "steady s" and full: "full_writes kstep" and "kstep\<^sup>*\<^sup>* (ker s) k"
  shows "steady (s\<lparr>ker := k\<rparr>)"
  using assms(3)
proof (induction rule: rtranclp_induct)
  case base
  then show ?case using assms(1) by simp
next
  case (step k1 k2)
  let ?s = "s\<lparr>ker := k1\<rparr>"
  have "ker ?s = k1" by simp
  then obtain i res where "completes i res (ker ?s) k2" using step.hyps(2) full unfolding full_writes_def by metis
  then have "queue_of (?s\<lparr>ker := k2\<rparr>) = queue_of ?s" using kernel_queue step.IH unfolding steady_def by blast
  then have "live_inv (?s\<lparr>ker := k2\<rparr>)"
    using live_inv_same [of ?s] step.IH unfolding steady_def by simp
  moreover have "wal_step kstep ?s (?s\<lparr>ker := k2\<rparr>)" using step.hyps(2) by (intro wal_step.kernel) simp
  ultimately show ?case using steady_step [OF step.IH full] by simp
qed

section \<open>The engine\<close>

lemma plan_Consistently:
  "cadence (planner e) = Consistently \<Longrightarrow>
   plan_fsync e =
     (if dirty_bytes (planner e) \<noteq> 0 \<and> \<not> flush_running (planner e)
      then e\<lparr>planner := (planner e)\<lparr>dirty_bytes := 0, flush_running := True\<rparr>,
             pending := pending e @ [FsyncWork (last_ingested_lsn e)]\<rparr>
      else e)"
  by (simp add: plan_fsync_def should_fsync_Consistently)

lemma sync_key_frame: "inflight e' = inflight e \<Longrightarrow> sync_key e' = sync_key e"
  by (simp add: sync_key_def fun_eq_iff)

lemma idle_live:
  assumes "live_inv s"
  shows "live_inv (s\<lparr>eng := plan_fsync ((eng s)\<lparr>spin_budget := n\<rparr>)\<rparr>)"
proof (cases "dirty_bytes (planner (eng s)) \<noteq> 0 \<and> \<not> flush_running (planner (eng s))")
  case False
  then show ?thesis
    using assms by (auto simp: live_inv_def plan_Consistently queue_of_def trail_def holds_buffers_def sync_key_def)
next
  case True
  then have "sound (queue_of s) (length (awaiting_fsync (eng s))) (holds_buffers (eng s)) False True"
    using assms by (simp add: live_inv_def)
  from sound_plan [OF this] show ?thesis
    using assms True by (simp add: live_inv_def plan_Consistently queue_of_def trail_def holds_buffers_def sync_key_def)
qed

lemma ingest_live:
  assumes live: "live_inv s" and room: "holds_buffers (eng s) < N_BUFFERS"
    and buf: "buf \<noteq> []" "unat (dirty_bytes (planner (eng s))) + length buf < 2 ^ 64"
  shows "live_inv (s\<lparr>eng := plan_fsync (ingest b buf (eng s)), outs := outs s @ [buf]\<rparr>)"
proof -
  let ?p = "planner (eng s)"
  have "unat (dirty_bytes ?p + of_nat (length buf)) = unat (dirty_bytes ?p) + length buf"
    using buf(2) by (simp add: unat_word_ariths unat_of_nat)
  then have d: "dirty_bytes ?p + of_nat (length buf) \<noteq> 0" using buf(1) by auto
  note facts = live_inv_def plan_Consistently ingest_def on_write_queued_def queue_of_def trail_def holds_buffers_def
    sync_key_def io_write_def
  have "sound (queue_of s) (length (awaiting_fsync (eng s))) (holds_buffers (eng s)) (flush_running ?p) (dirty_bytes ?p \<noteq> 0)"
    using live by (simp add: live_inv_def)
  from sound_receive [OF this room] show ?thesis
    using live d by (cases "flush_running ?p") (simp_all add: facts)
qed

lemma submit_loop_planner:
  "submit_loop vacant room e = Inr (e', ss) \<Longrightarrow>
   planner e' = planner e \<and> awaiting_fsync e' = awaiting_fsync e \<and> holds_buffers e' = holds_buffers e \<and>
   (\<exists>xs. inflight e' = inflight e @ xs)"
proof (induction vacant room e arbitrary: e' ss rule: submit_loop.induct)
  case (1 vacant e)
  then show ?case by simp
next
  case (2 vacant room e)
  show ?case
  proof (cases "length (inflight e) < depth e \<and> pending e \<noteq> []")
    case False
    then have "e' = e" using "2.prems"(1) by (auto split: if_splits list.splits)
    then show ?thesis by simp
  next
    case True
    then obtain w ws where p: "pending e = w # ws" by (cases "pending e") auto
    let ?e = "e\<lparr>pending := ws, inflight := inflight e @ [(vacant (inflight e), w)]\<rparr>"
    obtain s ss' where s: "sqe_of w (seg_fd (seg e)) = Inr s" "submit_loop vacant room ?e = Inr (e', ss')"
      using "2.prems"(1) True p by (auto simp: obind_eq_Inr Let_def)
    from "2.IH" [OF conjunct1 [OF True] p refl s] show ?thesis
      using p by (auto simp: holds_buffers_def)
  qed
qed

lemma submit_steady:
  assumes steady: "steady s" and full: "full_writes kstep" and slab: "slab_contract vacant"
    and step: "handle_pending vacant room (eng s) = Inr (e, ss, moved)"
  shows "steady (s\<lparr>eng := e, ker := (ker s)\<lparr>ring_sq := ring_sq (ker s) @ ss\<rparr>\<rparr>)"
proof (cases "pending (eng s) = []")
  case True
  then have "e = eng s" "ss = []" using step by (simp_all add: handle_pending_def)
  then show ?thesis using steady by simp
next
  case False
  let ?s = "s\<lparr>eng := e, ker := (ker s)\<lparr>ring_sq := ring_sq (ker s) @ ss\<rparr>\<rparr>"
  have inv: "wal_inv s" "whole_inv s" "small_outs s" "live_inv s" using steady by (simp_all add: steady_def)
  have vac: "\<forall>slab. vacant slab \<notin> set (map fst slab)" using slab by (simp add: slab_contract_def)
  have loop: "submit_loop vacant room (eng s) = Inr (e, ss)"
    using step False by (auto simp: handle_pending_def obind_eq_Inr)
  obtain xs where same: "planner e = planner (eng s)" "awaiting_fsync e = awaiting_fsync (eng s)"
    "holds_buffers e = holds_buffers (eng s)" "inflight e = inflight (eng s) @ xs"
    using submit_loop_planner [OF loop] by blast
  have "sync_key e (fst c) = sync_key (eng s) (fst c)" if "c \<in> set (ring_cq (ker s))" for c
  proof -
    have "cqe_in (cache (ker s)) (eng s) c" using inv(1) that by (simp add: wal_inv_def ring_inv_def list_all_iff)
    then show ?thesis by (auto simp: cqe_in_def sync_key_def same map_add_def split: option.splits)
  qed
  then have "queue_of ?s = queue_of s"
    using submit_loop_order [OF loop vac inv(1-3)] by (simp add: queue_of_def)
  then have "live_inv ?s" using live_inv_same [OF inv(4)] same by simp
  moreover have "wal_step kstep s ?s" using wal_step.submit [OF vac step] .
  ultimately show ?thesis using steady_step [OF steady full] by simp
qed

text \<open>A completion reaped is the head of the queue.\<close>

lemma reap_one_live:
  assumes steady: "steady s" and cq: "ring_cq (ker s) = c # cs" and step: "reap_one (eng s) c = Inr e"
  shows "live_inv (s\<lparr>eng := e, ker := (ker s)\<lparr>ring_cq := cs\<rparr>\<rparr>)"
proof -
  let ?e = "eng s" and ?s = "s\<lparr>eng := e, ker := (ker s)\<lparr>ring_cq := cs\<rparr>\<rparr>"
  have inv: "wal_inv s" "whole_inv s" "live_inv s" using steady by (simp_all add: steady_def)
  have kept: "pending e = pending ?e" "inflight e = AList.delete (fst c) (inflight ?e)"
    using reap_one_order [OF inv(1,2) cq step] by simp_all
  have "sync_key e (fst x) = sync_key ?e (fst x)" if "x \<in> set cs" for x
    using reap_look [OF inv(1) cq] that by (simp add: sync_key_def kept)
  then have q: "queue_of s = sync_key ?e (fst c) # queue_of ?s"
    by (simp add: queue_of_def cq trail_def kept)
  have d: "distinct (map fst (inflight ?e))" using inv(1) by (simp add: wal_inv_def ring_inv_def)
  from inv(1,2) cq step show ?thesis
  proof (cases rule: reap_one_sync)
    case (Write w)
    have h: "holds_buffers e = holds_buffers ?e" "Suc (length (awaiting_fsync ?e)) \<le> holds_buffers ?e"
      using slab_remove [OF d Write(1)] by (simp_all add: holds_buffers_def Write(2))
    show ?thesis using inv(3) sound_write_done [OF _ h(2)] h(1)
      by (simp add: live_inv_def q Write sync_key_def)
  next
    case (Fsync l)
    have h: "holds_buffers e = holds_buffers ?e - length (awaiting_fsync ?e)"
      using slab_remove [OF d Fsync(1)] by (simp add: holds_buffers_def Fsync(2))
    have "sound (True # queue_of ?s) (length (awaiting_fsync ?e)) (holds_buffers ?e)
        (flush_running (planner ?e)) (dirty_bytes (planner ?e) \<noteq> 0)"
      using inv(3) by (simp add: live_inv_def q Fsync(1) sync_key_def)
    from sound_sync_done [OF this] h show ?thesis
      using inv(3) by (simp add: live_inv_def Fsync(2) on_fsync_completed_def)
  qed
qed

lemma reap_steady:
  "reap_cqes (eng s) cs = Inr e \<Longrightarrow> ring_cq (ker s) = cs \<Longrightarrow> steady s \<Longrightarrow>
   steady (s\<lparr>eng := e, ker := (ker s)\<lparr>ring_cq := []\<rparr>\<rparr>)"
proof (induction cs arbitrary: s)
  case Nil
  then have "e = eng s" "(ker s)\<lparr>ring_cq := []\<rparr> = ker s" by simp_all
  then show ?case using Nil.prems(3) by simp
next
  case (Cons c cs)
  obtain e1 where e1: "reap_one (eng s) c = Inr e1" "reap_cqes e1 cs = Inr e"
    using Cons.prems(1) by (auto simp: obind_eq_Inr)
  let ?s = "s\<lparr>eng := e1, ker := (ker s)\<lparr>ring_cq := cs\<rparr>\<rparr>"
  have inv: "wal_inv s" "order_inv s" "whole_inv s" "small_outs s" using Cons.prems(3) by (simp_all add: steady_def)
  have w: "pending e1 = pending (eng s)" "whole_inv ?s" using reap_one_order [OF inv(1,3) Cons.prems(2) e1(1)] by simp_all
  have "order_inv ?s" using order_inv_same [OF inv(2), of ?s] w(1) by (simp add: trail_def)
  moreover have "small_outs ?s" using inv(4) by (simp add: small_outs_def)
  ultimately have "steady ?s"
    using reap_one_preserves [OF inv(1) Cons.prems(2) e1(1)] reap_one_live [OF Cons.prems(3,2) e1(1)] w(2)
    by (simp add: steady_def)
  from Cons.IH [of ?s, OF _ _ this] e1(2) show ?case by simp
qed

section \<open>Iterations of the loop\<close>

text \<open>
  One iteration in mode \<open>Sync\<close>, with or without a batch. The ring runs on what earlier iterations
  submitted; what this one pushes is handed to the ring at its end, so it completes in a later
  iteration at the earliest. There are \<open>N_BUFFERS\<close> buffers, so a batch arrives only when stage 3 does not hold
  all of them; its records are not empty, and the 64-bit counters do not overflow.
\<close>

inductive sync_turn :: "(ring_state \<Rightarrow> ring_state \<Rightarrow> bool) \<Rightarrow> wal_system \<Rightarrow> wal_system \<Rightarrow> bool"
  for kstep :: "ring_state \<Rightarrow> ring_state \<Rightarrow> bool" where
  receive: "awaits_durable b \<Longrightarrow> encode_items (out b) (lsn_low b) (items b) = Inr (buf, lsn) \<Longrightarrow>
    buf \<noteq> [] \<Longrightarrow> length buf < 2 ^ 32 \<Longrightarrow> unat (seg_offset (seg (eng s))) + length buf < 2 ^ 64 \<Longrightarrow>
    unat (dirty_bytes (planner (eng s))) + length buf < 2 ^ 64 \<Longrightarrow>
    holds_buffers (eng s) < N_BUFFERS \<Longrightarrow> slab_contract vacant \<Longrightarrow>
    wal_turn vacant room (ring_cq k) rounds f1 f2 dir (eng s) [WalWrite b] = Inr (Some (e, dir', [], ss, pk)) \<Longrightarrow>
    kstep\<^sup>*\<^sup>* (ker s) k \<Longrightarrow>
    sync_turn kstep s (s\<lparr>eng := e, ker := k\<lparr>ring_sq := ring_sq k @ ss, ring_cq := []\<rparr>, outs := outs s @ [buf]\<rparr>)"
| idle: "slab_contract vacant \<Longrightarrow>
    wal_turn vacant room (ring_cq k) rounds f1 f2 dir (eng s) [] = Inr (Some (e, dir', [], ss, pk)) \<Longrightarrow>
    kstep\<^sup>*\<^sup>* (ker s) k \<Longrightarrow>
    sync_turn kstep s (s\<lparr>eng := e, ker := k\<lparr>ring_sq := ring_sq k @ ss, ring_cq := []\<rparr>\<rparr>)"

inductive sync_loop :: "(ring_state \<Rightarrow> ring_state \<Rightarrow> bool) \<Rightarrow> wal_system \<Rightarrow> wal_system \<Rightarrow> bool"
  for kstep :: "ring_state \<Rightarrow> ring_state \<Rightarrow> bool" where
  start: "sync_loop kstep s s"
| next_turn: "sync_loop kstep s s' \<Longrightarrow> sync_turn kstep s' s'' \<Longrightarrow> sync_loop kstep s s''"

text \<open>The end of an iteration: push the entries, reap.\<close>

lemma finish_steady:
  assumes steady: "steady s" and full: "full_writes kstep" and slab: "slab_contract vacant"
    and submit: "handle_pending vacant room (eng s) = Inr (e1, ss, moved)"
    and reap: "reap_cqes e1 (ring_cq (ker s)) = Inr e"
  shows "steady (s\<lparr>eng := e, ker := (ker s)\<lparr>ring_sq := ring_sq (ker s) @ ss, ring_cq := []\<rparr>\<rparr>)"
proof -
  have "steady (s\<lparr>eng := e1, ker := (ker s)\<lparr>ring_sq := ring_sq (ker s) @ ss\<rparr>\<rparr>)"
    using submit_steady [OF steady full slab submit] .
  from reap_steady [OF _ _ this, of "ring_cq (ker s)" e] reap show ?thesis by simp
qed

lemma ingest_steady:
  assumes steady: "steady s" and b: "awaits_durable b"
    and enc: "encode_items (out b) (lsn_low b) (items b) = Inr (buf, lsn)" and lsn: "lsn_low b = last_ingested_lsn (eng s)"
    and buf: "buf \<noteq> []" "length buf < 2 ^ 32" "unat (seg_offset (seg (eng s))) + length buf < 2 ^ 64"
      "unat (dirty_bytes (planner (eng s))) + length buf < 2 ^ 64"
    and room: "holds_buffers (eng s) < N_BUFFERS"
  shows "steady (s\<lparr>eng := plan_fsync (ingest b buf (eng s)), outs := outs s @ [buf]\<rparr>)"
proof -
  obtain e0 k0 b0 o0 where s: "s = \<lparr>eng = e0, ker = k0, base = b0, outs = o0\<rparr>" by (cases s)
  have inv: "wal_inv s" "order_inv s" "whole_inv s" "small_outs s" using steady by (simp_all add: steady_def)
  obtain e1 where e1: "handle_batch (eng s) b = Inr e1"
    "e1\<lparr>spin_budget := DEFAULT_SPIN_BUDGET\<rparr> = ingest b buf (eng s)"
    using handle_batch_ingest [OF lsn enc] by blast
  let ?s1 = "s\<lparr>eng := ingest b buf (eng s), outs := outs s @ [buf]\<rparr>"
  have "wal_inv (s\<lparr>eng := e1, outs := outs s @ [buf]\<rparr>)" using receive_preserves [OF inv(1) b enc buf(3) e1(1)] .
  from spin_preserves [OF this, of DEFAULT_SPIN_BUDGET] have w1: "wal_inv ?s1" using e1(2) by (simp add: s)
  have "order_inv ?s1 \<and> whole_inv ?s1" using receive_order [OF inv(1-3) enc e1(1) refl, of DEFAULT_SPIN_BUDGET] e1(2) by simp
  then have "order_inv (?s1\<lparr>eng := plan_fsync (eng ?s1)\<rparr>) \<and> whole_inv (?s1\<lparr>eng := plan_fsync (eng ?s1)\<rparr>)"
    using plan_order by blast
  moreover have "wal_inv (?s1\<lparr>eng := plan_fsync (eng ?s1)\<rparr>)" using plan_preserves [OF w1] .
  moreover have again: "?s1\<lparr>eng := plan_fsync (eng ?s1)\<rparr> = s\<lparr>eng := plan_fsync (ingest b buf (eng s)), outs := outs s @ [buf]\<rparr>"
    by (simp add: s)
  moreover have "live_inv (s\<lparr>eng := plan_fsync (ingest b buf (eng s)), outs := outs s @ [buf]\<rparr>)"
    using ingest_live [OF _ room buf(1,4)] steady by (simp add: steady_def)
  moreover have "small_outs (s\<lparr>eng := plan_fsync (ingest b buf (eng s)), outs := outs s @ [buf]\<rparr>)"
    using inv(4) buf(2) by (simp add: small_outs_def)
  ultimately show ?thesis unfolding steady_def again by blast
qed

lemma idle_steady:
  assumes steady: "steady s"
  shows "steady (s\<lparr>eng := plan_fsync ((eng s)\<lparr>spin_budget := n\<rparr>)\<rparr>)"
proof -
  let ?s1 = "s\<lparr>eng := (eng s)\<lparr>spin_budget := n\<rparr>\<rparr>"
  have inv: "wal_inv s" "order_inv s" "whole_inv s" "small_outs s" "live_inv s" using steady by (simp_all add: steady_def)
  have w: "wal_inv ?s1" using spin_preserves [OF inv(1)] .
  have o: "order_inv ?s1" "whole_inv ?s1"
    using order_inv_same [OF inv(2), of ?s1] inv(3) by (simp_all add: trail_def whole_inv_def full_cqe_def [abs_def])
  show ?thesis using plan_preserves [OF w] plan_order [OF o] idle_live [OF inv(5)] inv(4)
    by (simp add: steady_def small_outs_def)
qed

lemma sync_turn_steady: "sync_turn kstep s s' \<Longrightarrow> full_writes kstep \<Longrightarrow> steady s \<Longrightarrow> steady s'"
proof (induction rule: sync_turn.induct)
  case (receive b buf lsn s vacant room k rounds f1 f2 dir e dir' ss pk)
  have lsn: "lsn_low b = last_ingested_lsn (eng s)"
    using receive.hyps(9) by (auto simp: wal_turn_def poll_channel_or_park_def handle_msg_def handle_batch_def
        obind_eq_Inr ensure_def split: if_splits)
  let ?u = "s\<lparr>ker := k\<rparr>"
  let ?s = "?u\<lparr>eng := plan_fsync (ingest b buf (eng ?u)), outs := outs ?u @ [buf]\<rparr>"
  obtain e1 moved where e1: "handle_pending vacant room (eng ?s) = Inr (e1, ss, moved)" "reap_cqes e1 (ring_cq k) = Inr e"
    using receive.hyps(9) unfolding wal_turn_receive [OF lsn receive.hyps(2)] by (auto simp: obind_eq_Inr)
  have "steady ?u" using kernel_steady [OF receive.prems(2,1) receive.hyps(10)] .
  from ingest_steady [OF this receive.hyps(1,2)] lsn receive.hyps(3-7) have "steady ?s" by simp
  from finish_steady [OF this receive.prems(1) receive.hyps(8) e1(1)] e1(2)
  show ?case by - (cases s, simp)
next
  case (idle vacant room k rounds f1 f2 dir s e dir' ss pk)
  have np: "\<not> should_park (eng s)" using idle.hyps(2) by (auto simp: wal_turn_blocked)
  let ?u = "s\<lparr>ker := k\<rparr>"
  let ?s = "?u\<lparr>eng := plan_fsync ((eng ?u)\<lparr>spin_budget := spin_budget (eng ?u) - 1\<rparr>)\<rparr>"
  obtain e1 moved where e1: "handle_pending vacant room (eng ?s) = Inr (e1, ss, moved)" "reap_cqes e1 (ring_cq k) = Inr e"
    using idle.hyps(2) unfolding wal_turn_idle [OF np] by (auto simp: obind_eq_Inr)
  have "steady ?u" using kernel_steady [OF idle.prems(2,1) idle.hyps(3)] .
  from finish_steady [OF idle_steady [OF this] idle.prems(1) idle.hyps(1) e1(1)] e1(2)
  show ?case by - (cases s, simp)
qed

lemma sync_loop_steady: "sync_loop kstep s s' \<Longrightarrow> full_writes kstep \<Longrightarrow> steady s \<Longrightarrow> steady s'"
  by (induction rule: sync_loop.induct) (blast intro: sync_turn_steady)+

lemma steady_start:
  assumes "wal_engine_new ring_ok open_ok n dir l Sync (acker_new Sync) = Inr (e, dir')"
  shows "steady (wal_start e)"
proof -
  have "live_inv (wal_start e)"
    using assms by (auto simp: wal_engine_new_def obind_eq_Inr wal_start_def live_inv_def queue_of_def trail_def
        holds_buffers_def sound_def planner_new_def N_BUFFERS_def)
  then show ?thesis
    using order_inv_start [OF assms] wal_inv_start [OF assms] by (simp add: steady_def small_outs_def wal_start_def)
qed

text \<open>With nothing in the slab the ring is empty.\<close>

lemma parked_queue:
  assumes "wal_inv s" and "should_park (eng s)"
  shows "queue_of s = []" "holds_buffers (eng s) = length (awaiting_fsync (eng s))"
proof -
  have p: "pending (eng s) = []" "inflight (eng s) = []" using assms(2) by (simp_all add: should_park_def)
  then have "\<not> cqe_in (cache (ker s)) (eng s) c" "\<not> sqe_for (eng s) x" for c x
    by (simp_all add: cqe_in_def sqe_for_def)
  then have "ring_cq (ker s) = []" "ring_sq (ker s) = []"
    using assms(1) by (cases "ring_cq (ker s)"; cases "ring_sq (ker s)"; simp add: wal_inv_def ring_inv_def)+
  then show "queue_of s = []" "holds_buffers (eng s) = length (awaiting_fsync (eng s))"
    using p by (simp_all add: queue_of_def trail_def holds_buffers_def)
qed

lemma blocks_parked: "wal_turn vacant room cqes rounds f1 f2 dir e [] = Inr None \<Longrightarrow> should_park e"
  by (rule ccontr) (auto simp: wal_turn_idle obind_eq_Inr)

section \<open>Properties\<close>

text \<open>
  C27. The pipeline does not deadlock on its buffers in mode \<open>Sync\<close>. Take a ring that completes
  writes whole, in any order that the drain flag allows, and any number of iterations of stage 3
  with and without batches. Whenever the next iteration blocks on the channel, the only buffers
  stage 3 holds are those of batches that wait for an fsync; these are fewer than \<open>N_BUFFERS\<close>, so
  stage 2 can get a buffer and wake stage 3 up; and no fsync counts as running, so the batch that
  wakes it up gets an fsync planned at once, which covers those that waited.
\<close>

theorem sync_never_starves:
  assumes ring: "full_writes kstep"
    and new: "wal_engine_new ring_ok open_ok n dir0 l Sync (acker_new Sync) = Inr (e, dir')"
    and run: "sync_loop kstep (wal_start e) s"
    and blocks: "wal_turn vacant room cqes rounds f1 f2 dir (eng s) [] = Inr None"
  shows "holds_buffers (eng s) = length (awaiting_fsync (eng s)) \<and> length (awaiting_fsync (eng s)) < N_BUFFERS \<and>
    \<not> flush_running (planner (eng s))"
proof -
  have st: "steady s" using sync_loop_steady [OF run ring steady_start [OF new]] .
  then have q: "queue_of s = []" "holds_buffers (eng s) = length (awaiting_fsync (eng s))"
    using parked_queue blocks_parked [OF blocks] by (simp_all add: steady_def)
  have "sound [] (length (awaiting_fsync (eng s))) (holds_buffers (eng s))
      (flush_running (planner (eng s))) (dirty_bytes (planner (eng s)) \<noteq> 0)"
    using st q(1) by (simp add: steady_def live_inv_def)
  moreover from this have "\<not> flush_running (planner (eng s))" by (auto simp: sound_def)
  ultimately show ?thesis using sound_blocked q(2) by metis
qed

lemma record_27: "length (record_bytes (l, req_body Put [1] [7])) = 27"
  by simp

lemma next_key_slab: "slab_contract next_key"
  using next_key_vacant by (simp add: slab_contract_def)

text \<open>Two batches, of which the second one waits when the loop blocks.\<close>

lemma lost_run:
  "\<exists>e dir' s. wal_engine_new True True 128 empty_dir 1 Sync (acker_new Sync) = Inr (e, dir') \<and>
     sync_loop whole_ring (wal_start e) s \<and> length (awaiting_fsync (eng s)) = 1 \<and> should_park (eng s)"
proof -
  let ?r = "req_body Put [1] [7]" and ?b1 = "put_batch 1" and ?b2 = "put_batch 2"
  let ?buf1 = "record_bytes (2, ?r)" and ?buf2 = "record_bytes (3, ?r)"
  obtain e dir' where new: "wal_engine_new True True 128 empty_dir 1 Sync (acker_new Sync) = Inr (e, dir')"
    by (simp add: wal_engine_new_def segment_open_def Let_def)
  then have sg: "seg_offset (seg e) = 0" "planner e = planner_new Consistently" "holds_buffers e = 0"
    by (auto simp: wal_engine_new_def obind_eq_Inr segment_open_def Let_def holds_buffers_def empty_dir_def)
  have len: "length ?buf1 = 27" "length ?buf2 = 27" by simp_all
  let ?fd = "seg_fd (seg e)" and ?o1 = "seg_offset (seg e)" and ?o2 = "seg_offset (seg e) + of_nat (length ?buf1)"
  let ?ss1 = "[(1, SqeWrite ?fd ?buf1 ?o1), (2, SqeFsyncDrain ?fd)]" and ?ss2 = "[(4, SqeWrite ?fd ?buf2 ?o2)]"
  let ?e1 = "engine_with_one 128 (seg e) ?b1 ?buf1"
  note slab = next_key_slab
  have b: "lsn_low ?b1 = 1" "lsn_hi ?b1 = 2" "out ?b1 = []" "lsn_low ?b2 = 2" "out ?b2 = []" by (simp_all add: put_batch_def)
  have enc: "encode_items (out ?b1) 1 (items ?b1) = Inr (?buf1, 2)" "encode_items (out ?b2) (lsn_hi ?b1) (items ?b2) = Inr (?buf2, 3)"
    using put_batch_facts(2) [of 1] put_batch_facts(2) [of 2] b by simp_all
  have ne: "?buf1 \<noteq> []" "?buf2 \<noteq> []" "length ?buf1 < 2 ^ 31" "length ?buf2 < 2 ^ 31" using len by auto
  have t1: "wal_turn next_key 128 [] [] True True dir' e [WalWrite ?b1] =
      Inr (Some (?e1, dir', [], ?ss1, park_decision ?e1 True))"
    using first_turn [OF new _ b(1) enc(1) ne(1,3), of "[]" True True] by simp
  let ?cqes = "[(1, int (length ?buf1)), (2, 0), (4, int (length ?buf2))]"
  obtain e2 e3 pk2 pk3 where t2: "wal_turn next_key 128 [] [] True True dir' ?e1 [WalWrite ?b2] = Inr (Some (e2, dir', [], ?ss2, pk2))"
    and t3: "wal_turn next_key 128 ?cqes [] True True dir' e2 [] = Inr (Some (e3, dir', [], [], pk3))"
    and e3: "awaiting_fsync e3 = [?b2\<lparr>out := ?buf2\<rparr>]" "should_park e3"
    using lost_turns [OF _ put_batch_facts(1) put_batch_facts(1) _ enc(2) ne(2,4), of 128 "[]" True True dir' "seg e" ?buf1] b by auto
  let ?k1 = "\<lparr>ring_sq = ?ss1, ring_cq = [], cache = Map.empty, stable = Map.empty\<rparr>"
  let ?k2 = "\<lparr>ring_sq = ?ss1 @ ?ss2, ring_cq = [], cache = Map.empty, stable = Map.empty\<rparr>"
  let ?s1 = "\<lparr>eng = ?e1, ker = ?k1, base = unat ?o1, outs = [?buf1]\<rparr>"
  let ?s2 = "\<lparr>eng = e2, ker = ?k2, base = unat ?o1, outs = [?buf1, ?buf2]\<rparr>"
  have s1: "sync_turn whole_ring (wal_start e) ?s1"
    using sync_turn.receive [of ?b1 ?buf1 2 "wal_start e" next_key 128 "ker (wal_start e)" "[]" True True dir' ?e1 dir' ?ss1 _ whole_ring]
      put_batch_facts(1) enc(1) b ne t1 sg len slab
    by (simp add: wal_start_def planner_new_def N_BUFFERS_def)
  have h1: "holds_buffers ?e1 = 1" "seg_offset (seg ?e1) = 27" "dirty_bytes (planner ?e1) = 0"
    using sg len by (simp_all add: holds_buffers_def engine_with_one_def io_write_def)
  have s2: "sync_turn whole_ring ?s1 ?s2"
    using sync_turn.receive [of ?b2 ?buf2 3 ?s1 next_key 128 ?k1 "[]" True True dir' e2 dir' ?ss2 pk2 whole_ring]
      put_batch_facts(1) enc(2) b ne t2 h1 len slab
    by (simp add: N_BUFFERS_def)
  obtain k where k: "whole_ring\<^sup>*\<^sup>* (ker ?s2) k" "ring_cq k = ?cqes"
    using ring_in_order [of 1 ?fd ?buf1 ?o1 2 4 ?buf2 ?o2 Map.empty Map.empty] by fastforce
  have "wal_turn next_key 128 (ring_cq k) [] True True dir' (eng ?s2) [] = Inr (Some (e3, dir', [], [], pk3))"
    using t3 k(2) by simp
  from sync_turn.idle [OF slab this k(1)]
  have "sync_loop whole_ring (wal_start e) (?s2\<lparr>eng := e3, ker := k\<lparr>ring_sq := ring_sq k @ [], ring_cq := []\<rparr>\<rparr>)"
    using s1 s2 by (blast intro: sync_loop.intros)
  moreover have "eng (?s2\<lparr>eng := e3, ker := k\<lparr>ring_sq := ring_sq k @ [], ring_cq := []\<rparr>\<rparr>) = e3" by simp
  ultimately show ?thesis using new e3 by (metis One_nat_def length_Cons list.size(3))
qed

theorem sync_never_starves_witness:
  "\<exists>e dir' s. wal_engine_new True True 128 empty_dir 1 Sync (acker_new Sync) = Inr (e, dir') \<and>
     sync_loop whole_ring (wal_start e) s \<and> wal_turn next_key 128 [] [] True True dir' (eng s) [] = Inr None \<and>
     holds_buffers (eng s) = 1 \<and> \<not> flush_running (planner (eng s))"
proof -
  obtain e dir' s where s: "wal_engine_new True True 128 empty_dir 1 Sync (acker_new Sync) = Inr (e, dir')"
    "sync_loop whole_ring (wal_start e) s" "length (awaiting_fsync (eng s)) = 1" "should_park (eng s)"
    using lost_run by blast
  have "wal_turn next_key 128 [] [] True True dir' (eng s) [] = Inr None" using s(4) by (rule wal_turn_blocked)
  from sync_never_starves [OF whole_ring_contract(2) s(1,2) this] this s show ?thesis by auto
qed

end
