(* ===== verification/Wal_Deadlock.thy ===== *)
theory Wal_Deadlock
  imports Wal_Liveness Server
begin

text \<open>
  What one interrupted write can do in mode Sync. The batch whose write is interrupted is written
  again behind the fsync that was planned for it; that fsync completes without letting any batch
  go, and when all other buffers have been filled in the meantime, stage 3 goes to sleep holding
  every buffer of the pool.
\<close>

section \<open>Outstanding writes\<close>

text \<open>A write in flight: its key, the batch, its encoded records and their offset.\<close>

type_synonym flight = "nat \<times> batch \<times> bytes \<times> u64"

definition slab_entry :: "flight \<Rightarrow> nat \<times> io_work" where
  "slab_entry x = (case x of (k, b, buf, off) \<Rightarrow> (k, io_write (b\<lparr>out := buf\<rparr>) off))"

definition ring_entry_of :: "string \<Rightarrow> flight \<Rightarrow> nat \<times> sqe" where
  "ring_entry_of fd x = (case x of (k, b, buf, off) \<Rightarrow> (k, SqeWrite fd buf off))"

definition whole_cqe :: "flight \<Rightarrow> nat \<times> int" where
  "whole_cqe x = (case x of (k, b, buf, off) \<Rightarrow> (k, int (length buf)))"

definition flight_batch :: "flight \<Rightarrow> batch" where
  "flight_batch x = (case x of (k, b, buf, off) \<Rightarrow> b\<lparr>out := buf\<rparr>)"

definition flight_ok :: "flight \<Rightarrow> bool" where
  "flight_ok x = (case x of (k, b, buf, off) \<Rightarrow> awaits_durable b \<and> length buf = 27)"

lemma slab_entry_tuple: "slab_entry (k, b, buf, off) = (k, io_write (b\<lparr>out := buf\<rparr>) off)"
  by (simp add: slab_entry_def)

lemma fst_entries [simp]: "fst (slab_entry x) = fst x" "fst (ring_entry_of fd x) = fst x" "fst (whole_cqe x) = fst x"
  by (cases x; simp add: slab_entry_def ring_entry_of_def whole_cqe_def)+

lemma reap_all:
  assumes "inflight e = map slab_entry xs" and "distinct (map fst xs)" and "list_all flight_ok xs" and "ack e = acker_new Sync"
  shows "reap_cqes e (map whole_cqe xs) =
    Inr (e\<lparr>inflight := [], awaiting_fsync := awaiting_fsync e @ map flight_batch xs\<rparr>)"
  using assms
proof (induction xs arbitrary: e)
  case Nil
  then have "e\<lparr>inflight := []\<rparr> = e" by simp
  then show ?case by (cases e) simp
next
  case (Cons x xs)
  obtain k b buf off where x: "x = (k, b, buf, off)" by (cases x)
  let ?e = "e\<lparr>inflight := map slab_entry xs, awaiting_fsync := awaiting_fsync e @ [flight_batch x]\<rparr>"
  have head: "inflight e = (k, io_write (b\<lparr>out := buf\<rparr>) off) # map slab_entry xs"
    using Cons.prems(1) by (simp add: x slab_entry_tuple)
  have "k \<notin> fst ` set (map slab_entry xs)" using Cons.prems(2) by (simp add: x image_image)
  then have "AList.delete k (map slab_entry xs) = map slab_entry xs" by (rule delete_id)
  then have del: "AList.delete k (inflight e) = map slab_entry xs" by (simp add: head)
  have "map_of (inflight e) k = Some (io_write (b\<lparr>out := buf\<rparr>) off)" by (simp add: head)
  from reap_whole_write [OF this Cons.prems(4)] Cons.prems(3) del
  have "reap_one e (whole_cqe x) = Inr ?e" by (simp add: x whole_cqe_def flight_batch_def flight_ok_def)
  moreover have "reap_cqes ?e (map whole_cqe xs) =
      Inr (?e\<lparr>inflight := [], awaiting_fsync := awaiting_fsync ?e @ map flight_batch xs\<rparr>)"
    using Cons.prems by (intro Cons.IH) simp_all
  ultimately show ?case by simp
qed

text \<open>The ring may complete writes in the order of submission.\<close>

lemma ring_all:
  "\<exists>c. any_ring\<^sup>*\<^sup>* \<lparr>ring_sq = map (ring_entry_of fd) xs, ring_cq = q, cache = m, stable = t\<rparr>
     \<lparr>ring_sq = [], ring_cq = q @ map whole_cqe xs, cache = c, stable = t\<rparr>"
proof (induction xs arbitrary: q m)
  case Nil
  then show ?case by auto
next
  case (Cons x xs)
  obtain k b buf off where x: "x = (k, b, buf, off)" by (cases x)
  let ?a = "\<lparr>ring_sq = map (ring_entry_of fd) (x # xs), ring_cq = q, cache = m, stable = t\<rparr>"
  let ?b = "\<lparr>ring_sq = map (ring_entry_of fd) xs, ring_cq = q @ [whole_cqe x], cache = m ++ region (unat off) buf, stable = t\<rparr>"
  have "completes 0 (int (length buf)) ?a ?b" by (simp add: completes_def x ring_entry_of_def whole_cqe_def)
  then have "any_ring ?a ?b" by (auto simp: any_ring_def)
  moreover obtain c where "any_ring\<^sup>*\<^sup>* ?b \<lparr>ring_sq = [], ring_cq = (q @ [whole_cqe x]) @ map whole_cqe xs, cache = c, stable = t\<rparr>"
    using Cons.IH by blast
  ultimately show ?case by (metis append_Cons append_Nil append_assoc converse_rtranclp_into_rtranclp list.simps(9))
qed

section \<open>Filling the pipeline\<close>

text \<open>An iteration on a channel that holds these messages and is empty afterwards; it recycles nothing.\<close>

definition turned :: "wal_msg list \<Rightarrow> wal_system \<Rightarrow> wal_system \<Rightarrow> bool" where
  "turned msgs s s' \<longleftrightarrow>
     sync_turn any_ring s s' \<and> recycle_tx (eng s') = [] \<and>
     (\<exists>cqes ss pk. \<forall>dir. wal_turn next_key 128 cqes [] True True dir (eng s) msgs = Inr (Some (eng s', dir, [], ss, pk)))"

definition next_put :: "wal_system \<Rightarrow> wal_msg list" where
  "next_put s = [WalWrite (put_batch (last_ingested_lsn (eng s)))]"

text \<open>The first batch with its fsync and \<open>j\<close> more batches are in the ring, and nothing has completed.\<close>

definition loaded :: "nat \<Rightarrow> flight \<Rightarrow> wal_system \<Rightarrow> bool" where
  "loaded j x s \<longleftrightarrow>
     (\<exists>xs l. length xs = j \<and> distinct ([fst x, 2] @ map fst xs) \<and> list_all flight_ok (x # xs) \<and>
        inflight (eng s) = slab_entry x # (2, FsyncWork l) # map slab_entry xs \<and>
        ker s = \<lparr>ring_sq = ring_entry_of (seg_fd (seg (eng s))) x # (2, SqeFsyncDrain (seg_fd (seg (eng s)))) #
                            map (ring_entry_of (seg_fd (seg (eng s)))) xs,
                 ring_cq = [], cache = Map.empty, stable = Map.empty\<rparr>) \<and>
     pending (eng s) = [] \<and> awaiting_fsync (eng s) = [] \<and> recycle_tx (eng s) = [] \<and> depth (eng s) = 128 \<and> ack (eng s) = acker_new Sync \<and>
     cadence (planner (eng s)) = Consistently \<and> flush_running (planner (eng s)) \<and>
     dirty_bytes (planner (eng s)) = of_nat (27 * j) \<and> last_ingested_lsn (eng s) = 2 + of_nat j \<and>
     seg_offset (seg (eng s)) = of_nat (27 * Suc j)"

lemma flight_writes: "writes (map snd (map slab_entry xs)) = length xs"
  by (induction xs) (auto simp: slab_entry_def io_write_def)

lemma unat_small: "n < 2 ^ 64 \<Longrightarrow> unat (of_nat n :: u64) = n"
  by (simp add: unat_of_nat)

lemma loaded_step:
  assumes "loaded j x s" and j: "j < 31"
  shows "\<exists>s'. turned (next_put s) s s' \<and> loaded (Suc j) x s'"
proof -
  obtain xs l where xs: "length xs = j" "distinct ([fst x, 2] @ map fst xs)" "list_all flight_ok (x # xs)"
    and infl: "inflight (eng s) = slab_entry x # (2, FsyncWork l) # map slab_entry xs"
    and k: "ker s = \<lparr>ring_sq = ring_entry_of (seg_fd (seg (eng s))) x # (2, SqeFsyncDrain (seg_fd (seg (eng s)))) #
                            map (ring_entry_of (seg_fd (seg (eng s)))) xs,
                 ring_cq = [], cache = Map.empty, stable = Map.empty\<rparr>"
    and e: "pending (eng s) = []" "awaiting_fsync (eng s) = []" "depth (eng s) = 128" "ack (eng s) = acker_new Sync"
      "cadence (planner (eng s)) = Consistently" "flush_running (planner (eng s))"
      "dirty_bytes (planner (eng s)) = of_nat (27 * j)" "last_ingested_lsn (eng s) = 2 + of_nat j"
      "seg_offset (seg (eng s)) = of_nat (27 * Suc j)" "recycle_tx (eng s) = []"
    using assms(1) unfolding loaded_def by blast
  let ?l = "2 + of_nat j :: u64" and ?fd = "seg_fd (seg (eng s))"
  let ?b = "put_batch ?l" and ?buf = "record_bytes (?l + 1, req_body Put [1] [7])"
  let ?key = "next_key (inflight (eng s))"
  let ?y = "(?key, ?b, ?buf, seg_offset (seg (eng s)))"
  let ?e1 = "ingest ?b ?buf (eng s)"
  let ?e2 = "?e1\<lparr>pending := [], inflight := inflight (eng s) @ [slab_entry ?y]\<rparr>"
  have b: "lsn_low ?b = ?l" "lsn_hi ?b = ?l + 1" "out ?b = []" by (simp_all add: put_batch_def)
  have lsn: "lsn_low ?b = last_ingested_lsn (eng s)" "encode_items (out ?b) (lsn_low ?b) (items ?b) = Inr (?buf, ?l + 1)"
    using put_batch_facts(2) [of ?l] b e(8) by simp_all
  have plan: "plan_fsync ?e1 = ?e1" using e(5,6) by (simp add: plan_Consistently ingest_def on_write_queued_def)
  have "submit_loop next_key 128 ?e1 = Inr (?e2, [ring_entry_of ?fd ?y])"
    using e(1,3) xs(1) j infl record_27
    by (simp add: submit_loop_Cons submit_loop_Nil sqe_of_write_whole ingest_def slab_entry_def ring_entry_of_def)
  then have hp: "handle_pending next_key 128 (plan_fsync ?e1) = Inr (?e2, [ring_entry_of ?fd ?y], True)"
    unfolding plan by (simp add: handle_pending_def ingest_def)
  have "ring_cq (ker s) = []" by (simp add: k)
  then have turn: "wal_turn next_key 128 (ring_cq (ker s)) [] True True dir (eng s) [WalWrite ?b] =
      Inr (Some (?e2, dir, [], [ring_entry_of ?fd ?y], park_decision ?e2 True))" for dir
    unfolding wal_turn_receive [OF lsn] hp by simp
  have h: "holds_buffers (eng s) < N_BUFFERS"
    using infl e(1,2) xs(1) j flight_writes [of xs]
    by (simp add: holds_buffers_def N_BUFFERS_def slab_entry_def io_write_def split: prod.splits)
  have u: "unat (of_nat (27 * j) :: u64) = 27 * j" "unat (of_nat (27 * Suc j) :: u64) = 27 * Suc j"
    using j by (intro unat_small, simp)+
  have fits: "unat (seg_offset (seg (eng s))) + length ?buf < 2 ^ 64" "unat (dirty_bytes (planner (eng s))) + length ?buf < 2 ^ 64"
    using j unfolding e(7,9) u record_27 by simp_all
  have ne: "?buf \<noteq> []" "length ?buf < 2 ^ 32" using record_27 [of "?l + 1"] by auto
  let ?s = "s\<lparr>eng := ?e2, ker := (ker s)\<lparr>ring_sq := ring_sq (ker s) @ [ring_entry_of ?fd ?y], ring_cq := []\<rparr>, outs := outs s @ [?buf]\<rparr>"
  have step: "sync_turn any_ring s ?s"
    using sync_turn.receive [OF put_batch_facts(1) lsn(2) ne fits h _ turn rtranclp.rtrancl_refl] next_key_slab
    by simp
  let ?xs = "xs @ [?y]"
  have "?key \<notin> set (map fst (inflight (eng s)))" using next_key_vacant by blast
  then have "distinct ([fst x, 2] @ map fst ?xs)" using xs(2) infl by (auto simp: image_iff)
  moreover have "list_all flight_ok (x # ?xs)" using xs(3) put_batch_facts(1) record_27 by (simp add: flight_ok_def)
  moreover have "inflight (eng ?s) = slab_entry x # (2, FsyncWork l) # map slab_entry ?xs" by (simp add: infl)
  moreover have "ker ?s = \<lparr>ring_sq = ring_entry_of (seg_fd (seg (eng ?s))) x # (2, SqeFsyncDrain (seg_fd (seg (eng ?s)))) #
                            map (ring_entry_of (seg_fd (seg (eng ?s)))) ?xs,
                 ring_cq = [], cache = Map.empty, stable = Map.empty\<rparr>"
    by (simp add: k ingest_def)
  moreover have "length ?xs = Suc j" using xs(1) by simp
  ultimately have slab: "\<exists>xs l. length xs = Suc j \<and> distinct ([fst x, 2] @ map fst xs) \<and> list_all flight_ok (x # xs) \<and>
        inflight (eng ?s) = slab_entry x # (2, FsyncWork l) # map slab_entry xs \<and>
        ker ?s = \<lparr>ring_sq = ring_entry_of (seg_fd (seg (eng ?s))) x # (2, SqeFsyncDrain (seg_fd (seg (eng ?s)))) #
                            map (ring_entry_of (seg_fd (seg (eng ?s)))) xs,
                 ring_cq = [], cache = Map.empty, stable = Map.empty\<rparr>"
    by (intro exI [of _ ?xs] exI [of _ l] conjI)
  have "dirty_bytes (planner ?e2) = of_nat (27 * Suc j)" "seg_offset (seg ?e2) = of_nat (27 * Suc (Suc j))"
    using e(7,9) record_27 by (simp_all add: ingest_def on_write_queued_def)
  then have "loaded (Suc j) x ?s"
    using e b(2) unfolding loaded_def by (intro conjI slab) (simp_all add: ingest_def on_write_queued_def)
  moreover have "recycle_tx (eng ?s) = []" "eng ?s = ?e2" using e(10) by (simp_all add: ingest_def)
  moreover have "next_put s = [WalWrite ?b]" by (simp add: next_put_def e(8))
  ultimately show ?thesis using step turn unfolding turned_def by metis
qed

text \<open>The server around stage 3: no request and no message waits, and \<open>n\<close> buffers are free.\<close>

definition paired :: "nat \<Rightarrow> server \<Rightarrow> wal_system \<Rightarrow> bool" where
  "paired n v s \<longleftrightarrow>
     srv_mode v = Sync \<and> srv_items v = [] \<and> srv_s23 v = [] \<and> srv_pool v = replicate n batch_new \<and>
     recycled_batch (srv_s2 v) = None \<and> s2_lsn (srv_s2 v) = last_ingested_lsn (eng s) \<and> srv_eng v = eng s"

lemma turned_server:
  assumes t: "turned msgs s s'" and v: "srv_eng v = eng s" "srv_s23 v = msgs"
  shows "server_step v (v\<lparr>srv_eng := eng s', srv_s23 := []\<rparr>)"
proof -
  obtain cqes ss pk where turn: "wal_turn next_key 128 cqes [] True True (srv_dir v) (srv_eng v) msgs =
      Inr (Some (eng s', srv_dir v, [], ss, pk))"
    using t v unfolding turned_def by metis
  have r: "recycle_tx (eng s') = []" using t by (simp add: turned_def)
  then have same: "(eng s')\<lparr>recycle_tx := []\<rparr> = eng s'" by (cases "eng s'") simp
  from server_step.log [OF next_key_slab _ _ turn finish_turn_ok, of "[]"] v show ?thesis by - (cases v, simp add: r same)
qed

lemma idle_paired:
  assumes v: "paired n v s" and t: "turned [] s s'" and l: "last_ingested_lsn (eng s') = last_ingested_lsn (eng s)"
  shows "\<exists>v'. server_reach v v' \<and> paired n v' s'"
proof -
  let ?v = "v\<lparr>srv_eng := eng s', srv_s23 := []\<rparr>"
  have "server_step v ?v" using turned_server [OF t] v by (simp add: paired_def)
  then have "server_reach v ?v" by (meson server_reach.intros)
  moreover have "paired n ?v s'" using v l by (simp add: paired_def)
  ultimately show ?thesis by blast
qed

text \<open>Stage 2 makes the PUT of a client the batch that stage 3 expects.\<close>

lemma put_table_turn:
  assumes v: "paired (Suc n) v s" and l: "unat (last_ingested_lsn (eng s)) + MAX_BATCH < 2 ^ 64"
  shows "\<exists>s2 sent. server_reach v (v\<lparr>srv_s2 := s2, srv_pool := replicate n batch_new, srv_replies := sent, srv_s23 := next_put s\<rparr>) \<and>
    recycled_batch s2 = None \<and> s2_lsn s2 = last_ingested_lsn (eng s) + 1"
proof -
  let ?v = "v\<lparr>srv_items := [put_req]\<rparr>" and ?l = "last_ingested_lsn (eng s)"
  let ?s2 = "(srv_s2 v)\<lparr>s2_db := serve (s2_db (srv_s2 v)) put_req, s2_lsn := ?l + 1, recycled_batch := None\<rparr>"
  let ?w = "v\<lparr>srv_s2 := ?s2, srv_pool := replicate n batch_new, srv_replies := srv_replies v @ [], srv_s23 := next_put s\<rparr>"
  have "body_ok (req_body Put [1] [7])" by (simp add: body_ok_def MAX_FRAME_def req_body_def)
  then have v1: "server_step v ?v"
    using server_step.request [of _ v 3] v by (simp add: paired_def put_req_def request_of_def REQ_BOUND_def)
  have got: "obtain_batch (srv_s2 v) (srv_pool v) = Some (batch_new, replicate n batch_new)"
    and lsn: "s2_lsn (srv_s2 v) = ?l"
    using v by (simp_all add: obtain_batch_def paired_def)
  have "unat (s2_lsn (srv_s2 v)) + 1 < 2 ^ 64" using l lsn by (simp add: MAX_BATCH_def)
  from put_turn [OF got this] have turn: "stage2_turn (acker_new (srv_mode ?v)) (srv_s2 ?v) (srv_pool ?v) (srv_items ?v) =
      Inr (S2Next ?s2 (replicate n batch_new) [] [] (next_put s))"
    using v lsn by (simp add: paired_def next_put_def)
  have "unat (s2_lsn (srv_s2 ?v)) + MAX_BATCH < 2 ^ 64" using l lsn by simp
  from server_step.table [OF this turn] v have "server_step ?v ?w" by - (cases v, simp add: paired_def)
  then have "server_reach v ?w" using v1 by (meson server_reach.intros)
  then show ?thesis by (intro exI [of _ ?s2] exI [of _ "srv_replies v @ []"] conjI) simp_all
qed

lemma put_paired:
  assumes v: "paired (Suc n) v s" and t: "turned (next_put s) s s'"
    and l: "unat (last_ingested_lsn (eng s)) + MAX_BATCH < 2 ^ 64" "last_ingested_lsn (eng s') = last_ingested_lsn (eng s) + 1"
  shows "\<exists>v'. server_reach v v' \<and> paired n v' s'"
proof -
  obtain s2 sent where v1: "server_reach v (v\<lparr>srv_s2 := s2, srv_pool := replicate n batch_new, srv_replies := sent, srv_s23 := next_put s\<rparr>)"
    and s2: "recycled_batch s2 = None" "s2_lsn s2 = last_ingested_lsn (eng s) + 1"
    using put_table_turn [OF v l(1)] by blast
  let ?v = "v\<lparr>srv_s2 := s2, srv_pool := replicate n batch_new, srv_replies := sent, srv_s23 := next_put s\<rparr>"
  have "server_step ?v (?v\<lparr>srv_eng := eng s', srv_s23 := []\<rparr>)" using turned_server [OF t, of ?v] v by (simp add: paired_def)
  with v1 have "server_reach v (?v\<lparr>srv_eng := eng s', srv_s23 := []\<rparr>)" by (rule server_reach.next_step)
  moreover have "paired n (?v\<lparr>srv_eng := eng s', srv_s23 := []\<rparr>) s'" using v s2 l(2) by (simp add: paired_def)
  ultimately show ?thesis by blast
qed

lemma loaded_start:
  "\<exists>v0 v s x. server_start True True Sync empty_dir = Inr v0 \<and> sync_loop any_ring (wal_start (srv_eng v0)) s \<and>
     loaded 0 x s \<and> server_reach v0 v \<and> paired 31 v s"
proof -
  let ?b = "put_batch 1" and ?buf = "record_bytes (2, req_body Put [1] [7])"
  have rec: "recover empty_dir = Inr (db_new, 1)" using empty_dir_good by (simp add: good_dir_def)
  have "empty_dir\<lparr>dir_exists := True\<rparr> = empty_dir" by (simp add: empty_dir_def)
  then obtain e dir' where new: "wal_engine_new True True 128 empty_dir 1 Sync (acker_new Sync) = Inr (e, dir')"
    and v0: "server_start True True Sync empty_dir = Inr \<lparr>srv_mode = Sync, srv_items = [], srv_s2 = stage2_new db_new 1,
        srv_pool = replicate N_BUFFERS batch_new, srv_s23 = [], srv_eng = e, srv_dir = dir', srv_replies = []\<rparr>"
      (is "_ = Inr ?v0")
    using rec by (auto simp: server_start_def wal_engine_new_def segment_open_def Let_def RING_DEPTH_def)
  then have sg: "seg_offset (seg e) = 0" "planner e = planner_new Consistently" "holds_buffers e = 0" "last_ingested_lsn e = 1"
    by (auto simp: wal_engine_new_def obind_eq_Inr segment_open_def Let_def holds_buffers_def empty_dir_def)
  let ?fd = "seg_fd (seg e)" and ?e = "engine_with_one 128 (seg e) ?b ?buf"
  let ?ss = "[(1, SqeWrite ?fd ?buf (seg_offset (seg e))), (2, SqeFsyncDrain ?fd)]"
  let ?k = "\<lparr>ring_sq = ?ss, ring_cq = [], cache = Map.empty, stable = Map.empty\<rparr>"
  let ?s = "\<lparr>eng = ?e, ker = ?k, base = 0, outs = [?buf]\<rparr>"
  have len: "length ?buf = 27" by (rule record_27)
  then have ne: "?buf \<noteq> []" "length ?buf < 2 ^ 31" by auto
  have b: "lsn_low ?b = 1" "lsn_hi ?b = 2" "out ?b = []" by (simp_all add: put_batch_def)
  have enc: "encode_items (out ?b) 1 (items ?b) = Inr (?buf, 2)" using put_batch_facts(2) [of 1] b by simp
  have turn: "wal_turn next_key 128 [] [] True True dir e [WalWrite ?b] = Inr (Some (?e, dir, [], ?ss, park_decision ?e True))" for dir
    using first_turn [OF new _ b(1) enc ne, of "[]" True True] wal_turn_receive [of ?b e ?buf 2] b enc sg(4)
    by (auto simp: obind_eq_Inr)
  have step: "sync_turn any_ring (wal_start e) ?s"
    using sync_turn.receive [of ?b ?buf 2 "wal_start e" next_key 128 "ker (wal_start e)" "[]" True True dir' ?e dir' ?ss _ any_ring]
      put_batch_facts(1) enc b ne turn sg len next_key_slab
    by (simp add: wal_start_def planner_new_def N_BUFFERS_def)
  have "turned (next_put (wal_start e)) (wal_start e) ?s"
    using step turn sg(4) unfolding turned_def next_put_def by (simp add: wal_start_def engine_with_one_def) blast
  moreover have "paired 32 ?v0 (wal_start e)" using sg by (simp add: paired_def N_BUFFERS_def stage2_new_def wal_start_def)
  ultimately obtain v where v: "server_reach ?v0 v" "paired 31 v ?s"
    using put_paired [of 31 ?v0 "wal_start e" ?s] sg(4) b(2)
    by (auto simp: wal_start_def MAX_BATCH_def engine_with_one_def)
  have "loaded 0 (1, ?b, ?buf, seg_offset (seg e)) ?s"
    using len b sg put_batch_facts(1)
    by (simp add: loaded_def engine_with_one_def slab_entry_def ring_entry_of_def flight_ok_def)
  moreover have "sync_loop any_ring (wal_start (srv_eng ?v0)) ?s"
    using sync_loop.next_turn [OF sync_loop.start step] by simp
  ultimately show ?thesis using v0 v by blast
qed

lemma server_reach_trans: "server_reach s' s'' \<Longrightarrow> server_reach s s' \<Longrightarrow> server_reach s s''"
  by (induction rule: server_reach.induct) (auto intro: server_reach.next_step)

lemma loaded_run:
  assumes "sync_loop any_ring s0 s" and "loaded 0 x s" and "server_reach v0 v" and "paired 31 v s" and "j \<le> 31"
  shows "\<exists>s' v'. sync_loop any_ring s0 s' \<and> loaded j x s' \<and> server_reach v0 v' \<and> paired (31 - j) v' s'"
  using assms(5)
proof (induction j)
  case 0
  then show ?case using assms by auto
next
  case (Suc j)
  then obtain s1 v1 where s1: "sync_loop any_ring s0 s1" "loaded j x s1" "server_reach v0 v1" "paired (31 - j) v1 s1" by auto
  then obtain s2 where s2: "turned (next_put s1) s1 s2" "loaded (Suc j) x s2" using loaded_step [of j x s1] Suc.prems by auto
  have l: "last_ingested_lsn (eng s1) = of_nat (2 + j)" "last_ingested_lsn (eng s2) = of_nat (2 + Suc j)"
    using s1(2) s2(2) by (simp_all add: loaded_def)
  have "unat (last_ingested_lsn (eng s1)) = 2 + j" unfolding l using Suc.prems by (intro unat_small) simp
  moreover have "31 - j = Suc (31 - Suc j)" using Suc.prems by simp
  ultimately obtain v2 where "server_reach v1 v2" "paired (31 - Suc j) v2 s2"
    using put_paired [of "31 - Suc j" v1 s1 s2] s1(4) s2(1) l Suc.prems by (auto simp: MAX_BATCH_def)
  moreover have "sync_loop any_ring s0 s2" using s1(1) s2(1) unfolding turned_def by (blast intro: sync_loop.next_turn)
  ultimately show ?case using s2(2) server_reach_trans [OF _ s1(3)] by blast
qed

section \<open>The interruption\<close>

text \<open>
  The first write is interrupted: it goes back to the queue while the fsync planned for it stays
  at the head of the ring, with the other writes behind it.
\<close>

definition interrupted :: "flight \<Rightarrow> flight list \<Rightarrow> wal_system \<Rightarrow> bool" where
  "interrupted x xs s \<longleftrightarrow>
     distinct (2 # map fst xs) \<and> list_all flight_ok (x # xs) \<and> pending (eng s) = [snd (slab_entry x)] \<and>
     (\<exists>l. inflight (eng s) = (2, FsyncWork l) # map slab_entry xs) \<and>
     ker s = \<lparr>ring_sq = (2, SqeFsyncDrain (seg_fd (seg (eng s)))) # map (ring_entry_of (seg_fd (seg (eng s)))) xs,
              ring_cq = [], cache = Map.empty, stable = Map.empty\<rparr> \<and>
     awaiting_fsync (eng s) = [] \<and> recycle_tx (eng s) = [] \<and> depth (eng s) = 128 \<and> ack (eng s) = acker_new Sync \<and>
     cadence (planner (eng s)) = Consistently \<and> flush_running (planner (eng s))"

lemma interrupt_step:
  assumes "loaded j x s"
  shows "\<exists>s' xs. turned [] s s' \<and> length xs = j \<and> interrupted x xs s' \<and>
    last_ingested_lsn (eng s') = last_ingested_lsn (eng s)"
proof -
  obtain key b buf off where x: "x = (key, b, buf, off)" by (cases x)
  obtain xs l where xs: "length xs = j" "distinct ([fst x, 2] @ map fst xs)" "list_all flight_ok (x # xs)"
    and infl: "inflight (eng s) = slab_entry x # (2, FsyncWork l) # map slab_entry xs"
    and k: "ker s = \<lparr>ring_sq = ring_entry_of (seg_fd (seg (eng s))) x # (2, SqeFsyncDrain (seg_fd (seg (eng s)))) #
                            map (ring_entry_of (seg_fd (seg (eng s)))) xs,
                 ring_cq = [], cache = Map.empty, stable = Map.empty\<rparr>"
    and e: "pending (eng s) = []" "awaiting_fsync (eng s) = []" "depth (eng s) = 128" "ack (eng s) = acker_new Sync"
      "cadence (planner (eng s)) = Consistently" "flush_running (planner (eng s))" "recycle_tx (eng s) = []"
    using assms unfolding loaded_def by blast
  let ?e1 = "(eng s)\<lparr>spin_budget := spin_budget (eng s) - 1\<rparr>"
  let ?w = "io_write (b\<lparr>out := buf\<rparr>) off" and ?rest = "(2, FsyncWork l) # map slab_entry xs"
  let ?e2 = "?e1\<lparr>inflight := ?rest, planner := on_write_queued (of_nat (length buf)) (planner (eng s)), pending := [?w]\<rparr>"
  let ?k = "(ker s)\<lparr>ring_sq := tl (ring_sq (ker s)), ring_cq := [(key, - EINTR)]\<rparr>"
  have np: "\<not> should_park (eng s)" using infl by (simp add: should_park_def)
  have plan: "plan_fsync ?e1 = ?e1" using e(5,6) by (simp add: plan_Consistently)
  have hp: "handle_pending next_key 128 (plan_fsync ?e1) = Inr (?e1, [], False)"
    unfolding plan using e(1) by (simp add: handle_pending_def)
  have head: "inflight ?e1 = (key, ?w) # ?rest" using infl by (simp add: x slab_entry_tuple)
  have "key \<notin> fst ` set ?rest" using xs(2) by (simp add: x image_image)
  then have "AList.delete key ?rest = ?rest" by (rule delete_id)
  then have "reap_one ?e1 (key, - EINTR) = Inr ?e2"
    using e(1) head by (simp add: reap_one_def complete_def Let_def io_write_def)
  then have turn: "wal_turn next_key 128 (ring_cq ?k) [] True True dir (eng s) [] =
      Inr (Some (?e2, dir, [], [], park_decision ?e2 False))" for dir
    unfolding wal_turn_idle [OF np] hp by simp
  have "completes 0 (- EINTR) (ker s) ?k" using k by (simp add: completes_def x ring_entry_of_def EINTR_def)
  then have ring: "any_ring\<^sup>*\<^sup>* (ker s) ?k"
    by (intro r_into_rtranclp) (auto simp: any_ring_def)
  let ?s = "s\<lparr>eng := ?e2, ker := ?k\<lparr>ring_sq := ring_sq ?k @ [], ring_cq := []\<rparr>\<rparr>"
  have "sync_turn any_ring s ?s" by (rule sync_turn.idle [OF next_key_slab turn ring])
  moreover have "eng ?s = ?e2" "recycle_tx (eng ?s) = []" using e(7) by simp_all
  ultimately have "turned [] s ?s" using turn unfolding turned_def by metis
  moreover have "interrupted x xs ?s"
    using xs e k by (simp add: interrupted_def on_write_queued_def x slab_entry_tuple)
  ultimately show ?thesis using xs(1) by (intro exI [of _ ?s] exI [of _ xs] conjI) simp_all
qed

text \<open>
  The next iteration submits the write again, behind the others: the fsync is at the head of the
  ring, all writes are behind it, and no batch waits.
\<close>

definition behind_sync :: "flight list \<Rightarrow> wal_system \<Rightarrow> bool" where
  "behind_sync xs s \<longleftrightarrow>
     distinct (2 # map fst xs) \<and> list_all flight_ok xs \<and> pending (eng s) = [] \<and>
     (\<exists>l. inflight (eng s) = (2, FsyncWork l) # map slab_entry xs) \<and>
     ker s = \<lparr>ring_sq = (2, SqeFsyncDrain (seg_fd (seg (eng s)))) # map (ring_entry_of (seg_fd (seg (eng s)))) xs,
              ring_cq = [], cache = Map.empty, stable = Map.empty\<rparr> \<and>
     awaiting_fsync (eng s) = [] \<and> recycle_tx (eng s) = [] \<and> depth (eng s) = 128 \<and> ack (eng s) = acker_new Sync \<and>
     cadence (planner (eng s)) = Consistently \<and> flush_running (planner (eng s))"

lemma resubmit_step:
  assumes "interrupted x xs s" and room: "length xs < 127"
  shows "\<exists>s' ys. turned [] s s' \<and> length ys = Suc (length xs) \<and> behind_sync ys s' \<and>
    last_ingested_lsn (eng s') = last_ingested_lsn (eng s)"
proof -
  obtain key0 b buf off where x: "x = (key0, b, buf, off)" by (cases x)
  obtain l where infl: "inflight (eng s) = (2, FsyncWork l) # map slab_entry xs"
    and xs: "distinct (2 # map fst xs)" "list_all flight_ok (x # xs)"
    and k: "ker s = \<lparr>ring_sq = (2, SqeFsyncDrain (seg_fd (seg (eng s)))) # map (ring_entry_of (seg_fd (seg (eng s)))) xs,
              ring_cq = [], cache = Map.empty, stable = Map.empty\<rparr>"
    and e: "pending (eng s) = [snd (slab_entry x)]" "awaiting_fsync (eng s) = []" "depth (eng s) = 128" "ack (eng s) = acker_new Sync"
      "cadence (planner (eng s)) = Consistently" "flush_running (planner (eng s))" "recycle_tx (eng s) = []"
    using assms(1) unfolding interrupted_def by blast
  let ?fd = "seg_fd (seg (eng s))" and ?e1 = "(eng s)\<lparr>spin_budget := spin_budget (eng s) - 1\<rparr>"
  let ?key = "next_key (inflight (eng s))"
  let ?y = "(?key, b, buf, off)"
  let ?ys = "xs @ [?y]"
  let ?e2 = "?e1\<lparr>pending := [], inflight := (2, FsyncWork l) # map slab_entry ?ys\<rparr>"
  have np: "\<not> should_park (eng s)" using infl by (simp add: should_park_def)
  have plan: "plan_fsync ?e1 = ?e1" using e(5,6) by (simp add: plan_Consistently)
  have "submit_loop next_key 128 ?e1 = Inr (?e2, [ring_entry_of ?fd ?y])"
    using e(1,3) room infl xs(2)
    by (simp add: submit_loop_Cons submit_loop_Nil sqe_of_write_whole slab_entry_tuple ring_entry_of_def x flight_ok_def)
  then have hp: "handle_pending next_key 128 (plan_fsync ?e1) = Inr (?e2, [ring_entry_of ?fd ?y], True)"
    unfolding plan using e(1) infl by (simp add: handle_pending_def)
  have "ring_cq (ker s) = []" by (simp add: k)
  then have turn: "wal_turn next_key 128 (ring_cq (ker s)) [] True True dir (eng s) [] =
      Inr (Some (?e2, dir, [], [ring_entry_of ?fd ?y], park_decision ?e2 True))" for dir
    unfolding wal_turn_idle [OF np] hp by simp
  let ?s = "s\<lparr>eng := ?e2, ker := (ker s)\<lparr>ring_sq := ring_sq (ker s) @ [ring_entry_of ?fd ?y], ring_cq := []\<rparr>\<rparr>"
  have "sync_turn any_ring s ?s" by (rule sync_turn.idle [OF next_key_slab turn rtranclp.rtrancl_refl])
  moreover have "eng ?s = ?e2" "recycle_tx (eng ?s) = []" using e(7) by simp_all
  ultimately have "turned [] s ?s" using turn unfolding turned_def by metis
  moreover have "?key \<notin> set (map fst (inflight (eng s)))" using next_key_vacant by blast
  then have "behind_sync ?ys ?s"
    using xs infl e k by (simp add: behind_sync_def image_image x flight_ok_def)
  ultimately show ?thesis by (intro exI [of _ ?s] exI [of _ ?ys] conjI) simp_all
qed

text \<open>
  Then the fsync completes, when no batch waits, and all writes after it, whose batches wait from
  then on; the iteration that reaps this queues nothing.
\<close>

lemma strand_step:
  assumes "behind_sync xs s"
  shows "\<exists>s'. turned [] s s' \<and> last_ingested_lsn (eng s') = last_ingested_lsn (eng s) \<and>
    should_park (eng s') \<and> length (awaiting_fsync (eng s')) = length xs \<and>
    list_all awaits_durable (awaiting_fsync (eng s'))"
proof -
  obtain l where infl: "inflight (eng s) = (2, FsyncWork l) # map slab_entry xs"
    and xs: "distinct (2 # map fst xs)" "list_all flight_ok xs"
    and k: "ker s = \<lparr>ring_sq = (2, SqeFsyncDrain (seg_fd (seg (eng s)))) # map (ring_entry_of (seg_fd (seg (eng s)))) xs,
              ring_cq = [], cache = Map.empty, stable = Map.empty\<rparr>"
    and e: "pending (eng s) = []" "awaiting_fsync (eng s) = []" "depth (eng s) = 128" "ack (eng s) = acker_new Sync"
      "cadence (planner (eng s)) = Consistently" "flush_running (planner (eng s))" "recycle_tx (eng s) = []"
    using assms(1) unfolding behind_sync_def by blast
  let ?fd = "seg_fd (seg (eng s))" and ?e1 = "(eng s)\<lparr>spin_budget := spin_budget (eng s) - 1\<rparr>"
  have np: "\<not> should_park (eng s)" using infl by (simp add: should_park_def)
  have plan: "plan_fsync ?e1 = ?e1" using e(5,6) by (simp add: plan_Consistently)
  have hp: "handle_pending next_key 128 (plan_fsync ?e1) = Inr (?e1, [], False)"
    unfolding plan using e(1) by (simp add: handle_pending_def)
  have "2 \<notin> fst ` set (map slab_entry xs)" using xs(1) by (simp add: image_image)
  then have "AList.delete 2 (map slab_entry xs) = map slab_entry xs" by (rule delete_id)
  then obtain e3 where e3: "reap_one ?e1 (2, 0) = Inr e3" "inflight e3 = map slab_entry xs" "pending e3 = []"
    "awaiting_fsync e3 = []" "ack e3 = acker_new Sync"
    "recycle_tx e3 = []" "last_ingested_lsn e3 = last_ingested_lsn (eng s)"
    using reap_sync [of ?e1 2 l] infl e(1,2,4,7) by simp
  let ?e4 = "e3\<lparr>inflight := [], awaiting_fsync := map flight_batch xs\<rparr>"
  have reap: "reap_cqes ?e1 ((2, 0) # map whole_cqe xs) = Inr ?e4"
    using e3 reap_all [OF e3(2) _ xs(2) e3(5)] xs(1) by simp
  let ?k1 = "\<lparr>ring_sq = map (ring_entry_of ?fd) xs, ring_cq = [(2, 0)], cache = Map.empty, stable = Map.empty\<rparr>"
  have "completes 0 0 (ker s) ?k1" using k by (simp add: completes_def)
  then have k1: "any_ring (ker s) ?k1" by (auto simp: any_ring_def)
  obtain k' where kk: "any_ring\<^sup>*\<^sup>* ?k1 k'" "ring_cq k' = (2, 0) # map whole_cqe xs"
    using ring_all [of ?fd xs "[(2, 0)]" Map.empty Map.empty] by fastforce
  from k1 kk(1) have ring: "any_ring\<^sup>*\<^sup>* (ker s) k'" by (rule converse_rtranclp_into_rtranclp)
  have turn: "wal_turn next_key 128 (ring_cq k') [] True True dir (eng s) [] =
      Inr (Some (?e4, dir, [], [], park_decision ?e4 False))" for dir
    unfolding wal_turn_idle [OF np] hp kk(2) using reap by simp
  let ?s = "s\<lparr>eng := ?e4, ker := k'\<lparr>ring_sq := ring_sq k' @ [], ring_cq := []\<rparr>\<rparr>"
  have "sync_turn any_ring s ?s" by (rule sync_turn.idle [OF next_key_slab turn ring])
  moreover have "eng ?s = ?e4" "recycle_tx (eng ?s) = []" using e3(6) by simp_all
  ultimately have "turned [] s ?s" using turn unfolding turned_def by metis
  moreover have "list_all awaits_durable (map flight_batch xs)"
    using xs(2) by (auto simp: list_all_iff flight_ok_def flight_batch_def split: prod.splits)
  ultimately show ?thesis
    using e3(3,7) by (intro exI [of _ ?s] conjI) (simp_all add: should_park_def)
qed

section \<open>A server that is stuck\<close>

text \<open>
  A server whose stage 3 sleeps with all buffers: requests still queue up until the channel is
  full, and nothing else ever happens.
\<close>

definition stuck :: "server \<Rightarrow> bool" where
  "stuck s \<longleftrightarrow> server_inv s \<and> should_park (srv_eng s) \<and> holds_buffers (srv_eng s) = N_BUFFERS"

lemma stuck_empty:
  assumes "stuck s"
  shows "srv_pool s = []" "recycled_batch (srv_s2 s) = None" "srv_s23 s = []"
proof -
  have "buffers_in (srv_eng s) = N_BUFFERS"
    using assms by (simp add: stuck_def server_inv_def holds_buffers_def buffers_in_def)
  then have "buffers_out s = 0" using assms by (simp add: stuck_def server_inv_def)
  then show "srv_pool s = []" "recycled_batch (srv_s2 s) = None" "srv_s23 s = []"
    by (simp_all add: buffers_out_def split: option.splits)
qed

lemma stuck_step: "server_step s s' \<Longrightarrow> stuck s \<Longrightarrow> \<exists>rs. s' = s\<lparr>srv_items := rs\<rparr>"
proof (induction rule: server_step.induct)
  case (request body s conn)
  then show ?case by blast
next
  case (table s s2 pool rest sent msgs)
  then show ?case using stuck_empty [OF table.prems] by (simp add: stage2_turn_def obtain_batch_def)
next
  case (log vacant s seen unseen room cqes rounds fsync_ok open_ok e dir msgs ss p err)
  then have "seen = []" "should_park (srv_eng s)" using stuck_empty(3) [OF log.prems] by (simp_all add: stuck_def)
  then show ?case using log.hyps(4) by (simp add: wal_turn_blocked)
qed

lemma stuck_forever: "server_reach s s' \<Longrightarrow> stuck s \<Longrightarrow> \<exists>rs. s' = s\<lparr>srv_items := rs\<rparr>"
proof (induction rule: server_reach.induct)
  case (start s)
  show ?case by (rule exI [of _ "srv_items s"]) simp
next
  case (next_step s s' s'')
  then obtain rs where s': "s' = s\<lparr>srv_items := rs\<rparr>" by blast
  have "stuck s'" using server_inv_reach [OF next_step.hyps(1)] next_step.prems s' by (simp add: stuck_def)
  from stuck_step [OF next_step.hyps(2) this] show ?case using s' by auto
qed

section \<open>Property\<close>

text \<open>
  C28. One interrupted write can stop the server for good in mode \<open>Sync\<close>. From an empty directory
  there is a run on a ring that keeps its contract (its part of stage 3 is the run of the loop,
  its server part takes 32 PUTs of a client) after which every buffer of the pool belongs to a
  batch that waits for an fsync while none is queued or running: stage 3 sleeps until a batch
  arrives and stage 2 waits for a buffer. From then on requests are queued until the channel is
  full and nothing else happens: the PUTs of these batches are never answered.
\<close>

theorem sync_interrupted_deadlock:
  "\<exists>v0 v s. server_start True True Sync empty_dir = Inr v0 \<and> ring_contract any_ring \<and>
     sync_loop any_ring (wal_start (srv_eng v0)) s \<and> server_reach v0 v \<and> srv_eng v = eng s \<and>
     length (awaiting_fsync (eng s)) = N_BUFFERS \<and> list_all awaits_durable (awaiting_fsync (eng s)) \<and>
     {v'. server_reach v v'} \<subseteq> {v\<lparr>srv_items := rs\<rparr> |rs. True}"
proof -
  obtain v0 v1 s1 x where v0: "server_start True True Sync empty_dir = Inr v0"
    and s1: "sync_loop any_ring (wal_start (srv_eng v0)) s1" "loaded 0 x s1" "server_reach v0 v1" "paired 31 v1 s1"
    using loaded_start by blast
  obtain s2 v2 where s2: "sync_loop any_ring (wal_start (srv_eng v0)) s2" "loaded 31 x s2" "server_reach v0 v2" "paired 0 v2 s2"
    using loaded_run [OF s1, of 31] by auto
  obtain s3 xs where s3: "turned [] s2 s3" "length xs = 31" "interrupted x xs s3"
    "last_ingested_lsn (eng s3) = last_ingested_lsn (eng s2)"
    using interrupt_step [OF s2(2)] by blast
  obtain s4 ys where s4: "turned [] s3 s4" "length ys = Suc (length xs)" "behind_sync ys s4"
    "last_ingested_lsn (eng s4) = last_ingested_lsn (eng s3)"
    using resubmit_step [OF s3(3)] s3(2) by auto
  obtain s where s: "turned [] s4 s" "last_ingested_lsn (eng s) = last_ingested_lsn (eng s4)" "should_park (eng s)"
    "length (awaiting_fsync (eng s)) = N_BUFFERS" "list_all awaits_durable (awaiting_fsync (eng s))"
    using strand_step [OF s4(3)] s3(2) s4(2) by (auto simp: N_BUFFERS_def)
  obtain v3 where v3: "server_reach v2 v3" "paired 0 v3 s3" using idle_paired [OF s2(4) s3(1,4)] by blast
  obtain v4 where v4: "server_reach v3 v4" "paired 0 v4 s4" using idle_paired [OF v3(2) s4(1,4)] by blast
  obtain v where v: "server_reach v4 v" "paired 0 v s" using idle_paired [OF v4(2) s(1,2)] by blast
  have loop: "sync_loop any_ring (wal_start (srv_eng v0)) s"
    using s2(1) s3(1) s4(1) s(1) unfolding turned_def by (blast intro: sync_loop.intros)
  have reach: "server_reach v0 v" using server_reach_trans s2(3) v3(1) v4(1) v(1) by blast
  have eng: "srv_eng v = eng s" using v(2) by (simp add: paired_def)
  have "holds_buffers (eng s) = N_BUFFERS" using s(3,4) by (simp add: should_park_def holds_buffers_def)
  then have "stuck v" using server_inv_reach [OF reach server_inv_start [OF v0]] s(3) eng by (simp add: stuck_def)
  then have "{v'. server_reach v v'} \<subseteq> {v\<lparr>srv_items := rs\<rparr> |rs. True}" using stuck_forever by blast
  then show ?thesis using v0 any_ring_contract loop reach eng s(4,5) by blast
qed

end
