(* ===== verification/Connections.thy ===== *)
theory Connections
  imports Stage1
begin

text \<open>
  A connection of stage 1 in small steps (\<open>crates/server/src/stage1/mod.rs\<close>, \<open>handle_conn\<close>):
  what has arrived on the socket, the reader task, the bounded reply channel into which stages 2
  and 3 send (\<open>blocking_send\<close> in \<open>acker.rs\<close>), and the writer task between the channel and the
  socket. Every operation keeps that the requests handed over are the frames that arrived and
  that the bytes written are the frames of the responses accepted, in order.
\<close>

section \<open>State\<close>

definition RESP_BOUND :: nat where
  "RESP_BOUND = 8192"

text \<open>
  \<open>c_in\<close> are the bytes that arrived and are not consumed yet, \<open>c_eof\<close> says that no more will
  come, \<open>c_buf\<close> is the part of the writer's buffer that \<open>write_all\<close> has not written yet. The last
  three fields are history: all bytes that arrived, the bodies handed over, and the responses
  that got into the channel.
\<close>

record connection =
  c_in :: bytes
  c_eof :: bool
  c_reading :: bool
  c_chan :: "resp list"
  c_writing :: bool
  c_buf :: bytes
  c_out :: bytes
  c_arrived :: bytes
  c_handed :: "bytes list"
  c_accepted :: "resp list"

definition connection_new :: connection where
  "connection_new =
     \<lparr>c_in = [], c_eof = False, c_reading = True, c_chan = [], c_writing = True, c_buf = [], c_out = [],
      c_arrived = [], c_handed = [], c_accepted = []\<rparr>"

definition conn_arrive :: "bytes \<Rightarrow> connection \<Rightarrow> connection" where
  "conn_arrive bs c = c\<lparr>c_in := c_in c @ bs, c_arrived := c_arrived c @ bs\<rparr>"

section \<open>The reader\<close>

text \<open>
  One pass of the reader loop up to handing the request over: it waits for bytes, ends (the
  stream is over, or the length is refused), or has a request.
\<close>

datatype reader_poll = ReaderWaits | ReaderEnds | ReaderHas bytes connection

definition reader_step :: "connection \<Rightarrow> reader_poll" where
  "reader_step c =
     (if length (c_in c) < 4 then (if c_eof c then ReaderEnds else ReaderWaits)
      else
        let len = unat (le_word (take 4 (c_in c)) :: u32) in
        if len = 0 \<or> MAX_FRAME < len then ReaderEnds
        else if length (drop 4 (c_in c)) < len then (if c_eof c then ReaderEnds else ReaderWaits)
        else
          let body = take len (drop 4 (c_in c)) in
          ReaderHas body (c\<lparr>c_in := drop len (drop 4 (c_in c)), c_handed := c_handed c @ [body]\<rparr>))"

section \<open>The reply channel\<close>

text \<open>
  Sending a response: \<open>None\<close> while the channel is full. When the writer is gone the receiver is
  dropped, the send fails at once and its error is ignored.
\<close>

definition blocking_send :: "resp \<Rightarrow> connection \<Rightarrow> connection option" where
  "blocking_send r c =
     (if \<not> c_writing c then Some c
      else if length (c_chan c) < RESP_BOUND
        then Some (c\<lparr>c_chan := c_chan c @ [r], c_accepted := c_accepted c @ [r]\<rparr>)
      else None)"

section \<open>The writer\<close>

text \<open>
  A turn of the writer takes the first response and up to \<open>n\<close> more that are ready, and encodes
  them; then \<open>write_all\<close> writes the buffer in pieces, or fails, which ends the task.
\<close>

definition conn_encode :: "nat \<Rightarrow> connection \<Rightarrow> connection outcome" where
  "conn_encode n c =
     (case c_chan c of
        [] \<Rightarrow> Inr c
      | first # q \<Rightarrow>
          obind (encode_resp [] first) (\<lambda>buf.
          obind (drain_ready buf (take n q)) (\<lambda>(buf', left).
            Inr (c\<lparr>c_buf := buf', c_chan := left @ drop n q\<rparr>))))"

definition conn_write :: "nat \<Rightarrow> connection \<Rightarrow> connection" where
  "conn_write k c = c\<lparr>c_out := c_out c @ take k (c_buf c), c_buf := drop k (c_buf c)\<rparr>"

definition conn_write_failed :: "connection \<Rightarrow> connection" where
  "conn_write_failed c = c\<lparr>c_writing := False, c_chan := [], c_buf := []\<rparr>"

section \<open>The invariant\<close>

definition read_ok :: "connection \<Rightarrow> bool" where
  "read_ok c \<longleftrightarrow>
     c_arrived c = concat (map frame_bytes (c_handed c)) @ c_in c \<and> list_all body_ok (c_handed c)"

definition write_ok :: "connection \<Rightarrow> bool" where
  "write_ok c \<longleftrightarrow>
     length (c_chan c) \<le> RESP_BOUND \<and> UnknownResp \<notin> set (c_accepted c) \<and> set (c_chan c) \<subseteq> set (c_accepted c) \<and>
     prefix (c_out c) (concat (map resp_bytes (c_accepted c))) \<and>
     (c_writing c \<longrightarrow>
        c_out c @ c_buf c @ concat (map resp_bytes (c_chan c)) = concat (map resp_bytes (c_accepted c)))"

definition connection_ok :: "connection \<Rightarrow> bool" where
  "connection_ok c \<longleftrightarrow> read_ok c \<and> write_ok c"

lemma connection_new_ok: "connection_ok connection_new"
  by (simp add: connection_ok_def read_ok_def write_ok_def connection_new_def)

lemma conn_arrive_ok: "connection_ok c \<Longrightarrow> connection_ok (conn_arrive bs c)"
  by (simp add: connection_ok_def read_ok_def write_ok_def conn_arrive_def)

lemma stop_ok: "connection_ok c \<Longrightarrow> connection_ok (c\<lparr>c_eof := x\<rparr>)" "connection_ok c \<Longrightarrow> connection_ok (c\<lparr>c_reading := x\<rparr>)"
  by (simp_all add: connection_ok_def read_ok_def write_ok_def)

text \<open>What the reader takes off the front of its input is the frame of the body.\<close>

lemma reader_step_has:
  assumes "reader_step c = ReaderHas body c'"
  shows "body_ok body \<and> c_in c = frame_bytes body @ c_in c' \<and>
    c' = c\<lparr>c_in := c_in c', c_handed := c_handed c @ [body]\<rparr>"
proof -
  let ?len = "unat (le_word (take 4 (c_in c)) :: u32)"
  have len: "4 \<le> length (c_in c)" "?len \<noteq> 0" "?len \<le> MAX_FRAME" "?len \<le> length (drop 4 (c_in c))"
    and body: "body = take ?len (drop 4 (c_in c))"
    and c': "c' = c\<lparr>c_in := drop ?len (drop 4 (c_in c)), c_handed := c_handed c @ [body]\<rparr>"
    using assms by (auto simp: reader_step_def Let_def split: if_splits)
  have "length body = ?len" using len(4) by (simp add: body)
  moreover from this have "le32 (as_u32 (length body)) = take 4 (c_in c)"
    using le32_le_word [of "take 4 (c_in c)"] len(1) by (simp add: as_u32_def)
  ultimately have "body_ok body" "frame_bytes body @ drop ?len (drop 4 (c_in c)) = c_in c"
    using len(2,3) by (auto simp: body_ok_def frame_bytes_def body simp del: drop_drop)
  then show ?thesis by (simp add: c')
qed

lemma reader_step_ok: "reader_step c = ReaderHas body c' \<Longrightarrow> connection_ok c \<Longrightarrow> connection_ok c'"
  using reader_step_has [of c body c']
  by (cases c'; cases c) (auto simp: connection_ok_def read_ok_def write_ok_def)

text \<open>The reader waits only when no whole frame is there.\<close>

lemma reader_step_waits: "reader_step c = ReaderWaits \<Longrightarrow> fst (frames req_dec (c_in c)) = []"
  by (subst frames_None) (auto simp: reader_step_def req_dec_def Let_def split: if_splits)

lemma reader_step_ends: "reader_step c = ReaderEnds \<Longrightarrow> fst (frames req_dec (c_in c)) = []"
  by (subst frames_None) (auto simp: reader_step_def req_dec_def Let_def split: if_splits)

lemma handed_read_conn:
  assumes "read_ok c"
  shows "read_conn (\<lambda>_. True) conn 0 (c_arrived c) =
    map (request_of conn) (c_handed c) @ read_conn (\<lambda>_. True) conn 0 (c_in c)"
  using assms by (simp add: read_ok_def read_conn_frames reqf.frames_encoded_append)

lemma blocking_send_ok:
  "blocking_send r c = Some c' \<Longrightarrow> r \<noteq> UnknownResp \<Longrightarrow> connection_ok c \<Longrightarrow> connection_ok c'"
  by (auto simp: blocking_send_def connection_ok_def read_ok_def write_ok_def prefix_def split: if_splits)

lemma conn_encode_ok:
  assumes ok: "connection_ok c" and free: "c_buf c = []" "c_writing c"
  shows "\<exists>c'. conn_encode n c = Inr c' \<and> connection_ok c' \<and>
    c_out c' @ c_buf c' @ concat (map resp_bytes (c_chan c')) = c_out c @ concat (map resp_bytes (c_chan c))"
proof (cases "c_chan c")
  case Nil
  then show ?thesis using ok free by (simp add: conn_encode_def)
next
  case (Cons first q)
  have all: "UnknownResp \<notin> set (first # q)" "set q \<subseteq> set (c_accepted c)"
    using ok Cons by (auto simp: connection_ok_def write_ok_def)
  then have first: "encode_resp [] first = Inr (resp_bytes first)" using encode_resp_eq [of first "[]"] by auto
  have "UnknownResp \<notin> set (take n q)" using all(1) by (auto dest: in_set_takeD)
  from drain_ready_eq [OF this] obtain m where m: "m \<le> length (take n q)"
    and dr: "drain_ready (resp_bytes first) (take n q) =
      Inr (resp_bytes first @ concat (map resp_bytes (take m (take n q))), drop m (take n q))" by blast
  let ?c = "c\<lparr>c_buf := resp_bytes first @ concat (map resp_bytes (take m (take n q))),
              c_chan := drop m (take n q) @ drop n q\<rparr>"
  have enc: "conn_encode n c = Inr ?c" by (simp add: conn_encode_def Cons first dr)
  have "concat (map resp_bytes (take m (take n q))) @ concat (map resp_bytes (drop m (take n q) @ drop n q)) =
      concat (map resp_bytes q)"
    by (metis append_assoc append_take_drop_id concat_append map_append)
  then have same: "c_buf ?c @ concat (map resp_bytes (c_chan ?c)) = concat (map resp_bytes (c_chan c))"
    by (simp add: Cons)
  have "set (c_chan ?c) \<subseteq> set (c_accepted c)" "length (c_chan ?c) \<le> length (c_chan c)"
    using all(2) by (auto simp: Cons dest: in_set_takeD in_set_dropD)
  then have "connection_ok ?c" using ok free same by (auto simp: connection_ok_def read_ok_def write_ok_def)
  then show ?thesis using enc same by auto
qed

lemma conn_write_ok: "connection_ok c \<Longrightarrow> c_writing c \<Longrightarrow> connection_ok (conn_write k c)"
proof -
  assume ok: "connection_ok c" "c_writing c"
  have "c_out c @ take k (c_buf c) @ drop k (c_buf c) @ concat (map resp_bytes (c_chan c)) =
      concat (map resp_bytes (c_accepted c))"
    using ok append_take_drop_id [of k "c_buf c"] unfolding connection_ok_def write_ok_def by (metis append_assoc)
  moreover from this have "prefix (c_out c @ take k (c_buf c)) (concat (map resp_bytes (c_accepted c)))"
    by (metis append_assoc prefixI)
  ultimately show ?thesis using ok by (simp add: conn_write_def connection_ok_def read_ok_def write_ok_def)
qed

lemma conn_write_failed_ok: "connection_ok c \<Longrightarrow> connection_ok (conn_write_failed c)"
  by (simp add: conn_write_failed_def connection_ok_def read_ok_def write_ok_def)

end
