(* ===== verification/Engine_Batches.thy ===== *)
theory Engine_Batches
  imports Wal_Buffers
begin

text \<open>
  What stage 3 does with the batches it holds (\<open>crates/server/src/stage3/mod.rs\<close>): it encodes
  them, carries them through the durability levels and gives them back. A property of batches
  that these two operations keep is kept by every operation of the engine, and what the engine
  sends are responses of such batches. The locale states this once; it is used for the types of
  responses and for the silence of stage 3 in mode NoFsync.
\<close>

section \<open>The batches inside\<close>

fun work_batches :: "io_work \<Rightarrow> batch list" where
  "work_batches (WriteWork w) = [w_data w]"
| "work_batches _ = []"

definition held_batches :: "wal_engine \<Rightarrow> batch list" where
  "held_batches e =
     concat (map work_batches (pending e)) @ concat (map (work_batches \<circ> snd) (inflight e)) @ awaiting_fsync e"

text \<open>\<open>e'\<close> comes from \<open>e\<close>: its batches satisfy \<open>P\<close>, and what was sent in between satisfies \<open>Q\<close>.\<close>

definition carries :: "(batch \<Rightarrow> bool) \<Rightarrow> (nat \<times> resp \<Rightarrow> bool) \<Rightarrow> wal_engine \<Rightarrow> wal_engine \<Rightarrow> bool" where
  "carries P Q e e' \<longleftrightarrow>
     list_all P (held_batches e') \<and> (\<exists>ss. replies e' = replies e @ ss \<and> list_all Q ss)"

definition msg_batch :: "(batch \<Rightarrow> bool) \<Rightarrow> wal_msg \<Rightarrow> bool" where
  "msg_batch P m = (case m of WalWrite b \<Rightarrow> P b | _ \<Rightarrow> True)"

lemma carries_refl: "list_all P (held_batches e) \<Longrightarrow> carries P Q e e"
  by (simp add: carries_def)

lemma carries_trans: "carries P Q e e' \<Longrightarrow> carries P Q e' e'' \<Longrightarrow> carries P Q e e''"
  unfolding carries_def by fastforce

lemma carries_holds: "carries P Q e e' \<Longrightarrow> list_all P (held_batches e')"
  by (simp add: carries_def)

text \<open>Moving operations around and changing other fields sends nothing.\<close>

lemma carries_same:
  "list_all P (held_batches e) \<Longrightarrow> set (held_batches e') \<subseteq> set (held_batches e) \<Longrightarrow> replies e' = replies e \<Longrightarrow>
   carries P Q e e'"
  by (auto simp: carries_def list_all_iff)

lemma held_delete:
  "set (concat (map (work_batches \<circ> snd) (AList.delete k xs))) \<subseteq> set (concat (map (work_batches \<circ> snd) xs))"
  by (auto simp: AList.delete_eq)

lemma held_inflight:
  assumes "map_of (inflight e) k = Some (WriteWork w)"
  shows "w_data w \<in> set (held_batches e)"
  using map_of_SomeD [OF assms] by (force simp: held_batches_def)

lemma complete_batch:
  "complete w res = VerdictOk (Some b) \<Longrightarrow> \<exists>x. w = WriteWork x \<and> b = w_data x"
  "complete w res = Retry w' \<Longrightarrow> work_batches w' = work_batches w"
  by (auto simp: complete_def Let_def split: io_work.splits if_splits)

section \<open>The operations\<close>

locale batch_law =
  fixes P :: "batch \<Rightarrow> bool"
    and Q :: "nat \<times> resp \<Rightarrow> bool"
  assumes encoded: "P b \<Longrightarrow> P (b\<lparr>out := bs\<rparr>)"
    and advanced: "P b \<Longrightarrow> advance a b p = Inr (b', sent) \<Longrightarrow> P b' \<and> list_all Q sent"
begin

lemma handle_batch_carries:
  assumes "handle_batch e b = Inr e'" and "P b" and "list_all P (held_batches e)"
  shows "carries P Q e e'"
  using assms
  by (auto simp: handle_batch_def obind_eq_Inr Let_def advance_offset_def carries_def held_batches_def io_write_def encoded)

lemma plan_fsync_carries: "list_all P (held_batches e) \<Longrightarrow> carries P Q e (plan_fsync e)"
  by (rule carries_same) (auto simp: plan_fsync_def held_batches_def Let_def case_prod_beta)

lemma submit_loop_carries:
  "submit_loop vacant room e = Inr (e', ss) \<Longrightarrow> list_all P (held_batches e) \<Longrightarrow> carries P Q e e'"
proof (induction vacant room e arbitrary: e' ss rule: submit_loop.induct)
  case (1 vacant e)
  then show ?case by (simp add: carries_refl)
next
  case (2 vacant room e)
  show ?case
  proof (cases "length (inflight e) < depth e \<and> pending e \<noteq> []")
    case False
    then have "e' = e" using "2.prems"(1) by (auto split: if_splits list.splits)
    then show ?thesis using "2.prems"(2) by (simp add: carries_refl)
  next
    case True
    then obtain w ws where p: "pending e = w # ws" by (cases "pending e") auto
    let ?e = "e\<lparr>pending := ws, inflight := inflight e @ [(vacant (inflight e), w)]\<rparr>"
    obtain s ss' where s: "sqe_of w (seg_fd (seg e)) = Inr s" "submit_loop vacant room ?e = Inr (e', ss')"
      using "2.prems"(1) True p by (auto simp: obind_eq_Inr Let_def)
    have step: "carries P Q e ?e"
      using "2.prems"(2) by (rule carries_same) (auto simp: held_batches_def p)
    from "2.IH" [OF conjunct1 [OF True] p refl s carries_holds [OF step]]
    show ?thesis by (rule carries_trans [OF step])
  qed
qed

lemma handle_pending_carries:
  "handle_pending vacant room e = Inr (e', ss, moved) \<Longrightarrow> list_all P (held_batches e) \<Longrightarrow> carries P Q e e'"
  by (auto simp: handle_pending_def obind_eq_Inr carries_refl intro: submit_loop_carries split: if_splits)

lemma finish_awaiting_carries:
  "finish_awaiting e bs = Inr e' \<Longrightarrow> list_all P bs \<Longrightarrow> list_all P (held_batches e) \<Longrightarrow> carries P Q e e'"
proof (induction e bs rule: finish_awaiting.induct)
  case (1 e)
  then show ?case by (simp add: carries_refl)
next
  case (2 e b bs)
  then obtain b' sent where a: "advance (ack e) b Durable = Inr (b', sent)" by (auto simp: obind_eq_Inr)
  let ?e = "e\<lparr>replies := replies e @ sent, recycle_tx := recycle_tx e @ [recycle b'], finished := finished e @ [b]\<rparr>"
  have "list_all Q sent" using advanced [OF _ a] "2.prems"(2) by simp
  then have step: "carries P Q e ?e" using "2.prems"(3) by (simp add: carries_def held_batches_def)
  have "carries P Q ?e e'"
    using "2.IH" [OF a refl, of ] "2.prems"(1,2) a carries_holds [OF step] by simp
  then show ?case by (rule carries_trans [OF step])
qed

lemma reap_one_carries:
  assumes reap: "reap_one e cqe = Inr e'" and hold: "list_all P (held_batches e)"
  shows "carries P Q e e'"
proof -
  obtain w where w: "map_of (inflight e) (fst cqe) = Some w"
    using reap by (auto simp: reap_one_def split: option.splits)
  let ?e = "e\<lparr>inflight := AList.delete (fst cqe) (inflight e)\<rparr>"
  have step: "carries P Q e ?e"
    using hold by (rule carries_same) (use held_delete [of "fst cqe" "inflight e"] in \<open>auto simp: held_batches_def\<close>)
  note hold' = carries_holds [OF step]
  show ?thesis
  proof (cases "complete w (snd cqe)")
    case (VerdictOk ob)
    show ?thesis
    proof (cases ob)
      case None
      then show ?thesis using reap w VerdictOk step by (simp add: reap_one_def Let_def)
    next
      case (Some b)
      obtain x where x: "w = WriteWork x" "b = w_data x" using complete_batch(1) VerdictOk Some by blast
      then have Pb: "P b" using held_inflight w hold by (auto simp: list_all_iff)
      obtain b' sent where a: "advance (ack e) b Written = Inr (b', sent)"
        using reap w VerdictOk Some by (auto simp: reap_one_def Let_def obind_eq_Inr)
      have "carries P Q ?e e'"
        using reap w VerdictOk Some a advanced [OF Pb a] hold'
        by (auto simp: reap_one_def Let_def carries_def held_batches_def split: if_splits)
      then show ?thesis by (rule carries_trans [OF step])
    qed
  next
    case (Retry w')
    have e': "pending e' = w' # pending e" "inflight e' = inflight ?e" "awaiting_fsync e' = awaiting_fsync e"
      "replies e' = replies e"
      using reap w Retry by (auto simp: reap_one_def Let_def split: io_work.splits)
    have "set (work_batches w') \<subseteq> set (held_batches e)"
      using complete_batch(2) [OF Retry] held_inflight [of e] w by (cases w) auto
    moreover have "set (held_batches e') = set (work_batches w') \<union> set (held_batches ?e)"
      by (auto simp: held_batches_def e')
    moreover have "set (held_batches ?e) \<subseteq> set (held_batches e)"
      using held_delete [of "fst cqe" "inflight e"] by (auto simp: held_batches_def)
    ultimately show ?thesis using hold e'(4) by (intro carries_same) auto
  next
    case VerdictDurable
    then obtain e1 where e1: "finish_awaiting (?e\<lparr>awaiting_fsync := []\<rparr>) (awaiting_fsync ?e) = Inr e1"
      "e' = e1\<lparr>planner := on_fsync_completed (planner e1)\<rparr>"
      using reap w by (auto simp: reap_one_def Let_def obind_eq_Inr)
    have "list_all P (awaiting_fsync ?e)" "list_all P (held_batches (?e\<lparr>awaiting_fsync := []\<rparr>))"
      using hold' by (auto simp: held_batches_def)
    from finish_awaiting_carries [OF e1(1) this] have "carries P Q ?e e'"
      by (simp add: e1(2) carries_def held_batches_def)
    then show ?thesis by (rule carries_trans [OF step])
  next
    case (Fatal err)
    then show ?thesis using reap w by (simp add: reap_one_def Let_def)
  qed
qed

lemma reap_cqes_carries: "reap_cqes e cs = Inr e' \<Longrightarrow> list_all P (held_batches e) \<Longrightarrow> carries P Q e e'"
proof (induction e cs rule: reap_cqes.induct)
  case (1 e)
  then show ?case by (simp add: carries_refl)
next
  case (2 e c cs)
  then obtain e1 where e1: "reap_one e c = Inr e1" "reap_cqes e1 cs = Inr e'" by (auto simp: obind_eq_Inr)
  have step: "carries P Q e e1" using reap_one_carries [OF e1(1)] "2.prems"(2) .
  from "2.IH" [OF e1 carries_holds [OF step]] show ?case by (rule carries_trans [OF step])
qed

lemma quiesce_carries:
  "quiesce vacant e rounds = Inr (Some e') \<Longrightarrow> list_all P (held_batches e) \<Longrightarrow> carries P Q e e'"
proof (induction vacant e rounds rule: quiesce.induct)
  case (1 vacant e)
  then show ?case by (auto simp: carries_refl split: if_splits)
next
  case (2 vacant e room err cqes rounds)
  show ?case
  proof (cases "should_park e")
    case True
    then show ?thesis using 2 by (auto simp: carries_refl)
  next
    case False
    then obtain e1 ss moved e2 where e: "handle_pending vacant room e = Inr (e1, ss, moved)"
      "submit_ring_and_park err = Inr ()" "reap_cqes e1 cqes = Inr e2" "quiesce vacant e2 rounds = Inr (Some e')"
      using "2.prems"(1) by (auto simp: obind_eq_Inr)
    have s1: "carries P Q e e1" using handle_pending_carries [OF e(1) "2.prems"(2)] .
    have s2: "carries P Q e1 e2" using reap_cqes_carries [OF e(3) carries_holds [OF s1]] .
    from "2.IH" [OF False e(1) refl refl e(2,3,4) carries_holds [OF s2]] show ?thesis
      by (rule carries_trans [OF carries_trans [OF s1 s2]])
  qed
qed

lemma rotate_carries:
  assumes "rotate vacant rounds fsync_ok open_ok dir e l = Inr (Some (e', dir'))" and hold: "list_all P (held_batches e)"
  shows "carries P Q e e'"
proof -
  from assms(1) obtain e1 where q: "quiesce vacant e rounds = Inr (Some e1)"
    by (auto simp: rotate_def obind_eq_Inr split: option.splits)
  let ?e = "e1\<lparr>planner := on_fsync_completed (planner e1)\<rparr>"
  from assms(1) q have "fsync_ok" by (cases fsync_ok) (simp_all add: rotate_def)
  then have ok: "ensure AssertFailed fsync_ok = Inr ()" by simp
  have "obind (finish_awaiting (?e\<lparr>awaiting_fsync := []\<rparr>) (awaiting_fsync ?e)) (\<lambda>e.
      case segment_open open_ok dir l of Inl err \<Rightarrow> Inl ExpectFailed
      | Inr (s, dir') \<Rightarrow> Inr (Some (e\<lparr>seg := s\<rparr>, dir'))) = Inr (Some (e', dir'))"
    using assms(1) unfolding rotate_def q obind_Inr option.case ok Let_def .
  then obtain e2 where e2: "finish_awaiting (?e\<lparr>awaiting_fsync := []\<rparr>) (awaiting_fsync ?e) = Inr e2"
    and op: "(case segment_open open_ok dir l of Inl err \<Rightarrow> Inl ExpectFailed
      | Inr (s, dir') \<Rightarrow> Inr (Some (e2\<lparr>seg := s\<rparr>, dir'))) = Inr (Some (e', dir'))"
    unfolding obind_eq_Inr by (elim exE conjE)
  from op obtain s where f: "e' = e2\<lparr>seg := s\<rparr>" by (cases "segment_open open_ok dir l") auto
  have s1: "carries P Q e e1" using quiesce_carries [OF q hold] .
  then have "list_all P (awaiting_fsync ?e)" "list_all P (held_batches (?e\<lparr>awaiting_fsync := []\<rparr>))"
    by (auto simp: carries_def held_batches_def)
  from finish_awaiting_carries [OF e2 this] have "carries P Q e1 e'" by (simp add: f carries_def held_batches_def)
  then show ?thesis by (rule carries_trans [OF s1])
qed

lemma retire_carries: "retire dir e l = Inr e' \<Longrightarrow> list_all P (held_batches e) \<Longrightarrow> carries P Q e e'"
  by (rule carries_same) (auto simp: retire_def obind_eq_Inr held_batches_def split: sum.splits)

lemma handle_msg_carries:
  assumes "handle_msg vacant rounds fsync_ok open_ok dir e m = Inr (Some (e', dir'))"
    and "msg_batch P m" and hold: "list_all P (held_batches e)"
  shows "carries P Q e e'"
proof -
  obtain e1 where e1: "e' = e1\<lparr>spin_budget := DEFAULT_SPIN_BUDGET\<rparr>"
    and step: "case m of WalWrite b \<Rightarrow> handle_batch e b = Inr e1
      | WalRotate l \<Rightarrow> \<exists>d. rotate vacant rounds fsync_ok open_ok dir e l = Inr (Some (e1, d))
      | WalRetire l \<Rightarrow> retire dir e l = Inr e1"
    using assms(1) by (cases m) (auto simp: handle_msg_def obind_eq_Inr)
  have "carries P Q e e1"
    using step assms(2) hold handle_batch_carries rotate_carries retire_carries
    by (cases m) (auto simp: msg_batch_def)
  then show ?thesis by (simp add: e1 carries_def held_batches_def)
qed

lemma wal_turn_carries:
  assumes turn: "wal_turn vacant room cqes rounds fsync_ok open_ok dir e msgs = Inr (Some (e', dir', msgs', ss, p))"
    and msgs: "list_all (msg_batch P) msgs" and hold: "list_all P (held_batches e)"
  shows "carries P Q e e' \<and> list_all (msg_batch P) msgs'"
proof -
  have after: "carries P Q e1 e'"
    if "handle_pending vacant room (plan_fsync e1) = Inr (e2, ss2, moved)" "reap_cqes e2 cqes = Inr e'"
      "list_all P (held_batches e1)" for e1 e2 ss2 moved
    using that plan_fsync_carries handle_pending_carries reap_cqes_carries carries_trans carries_holds by metis
  show ?thesis
  proof (cases msgs)
    case Nil
    let ?e = "e\<lparr>spin_budget := spin_budget e - 1\<rparr>"
    have "list_all P (held_batches ?e)" using hold by (simp add: held_batches_def)
    then have "carries P Q ?e e'" "msgs' = []"
      using turn Nil after [of ?e]
      by (auto simp: wal_turn_def poll_channel_or_park_def obind_eq_Inr split: if_splits)
    then show ?thesis by (simp add: carries_def)
  next
    case (Cons m rest)
    then obtain e1 dir1 e2 ss2 moved where e1: "handle_msg vacant rounds fsync_ok open_ok dir e m = Inr (Some (e1, dir1))"
      and e2: "handle_pending vacant room (plan_fsync e1) = Inr (e2, ss2, moved)" "reap_cqes e2 cqes = Inr e'"
      and rest: "msgs' = rest"
      using turn by (auto simp: wal_turn_def poll_channel_or_park_def obind_eq_Inr split: option.splits)
    have s1: "carries P Q e e1" using handle_msg_carries [OF e1 _ hold] msgs Cons by simp
    from carries_trans [OF s1 after [OF e2 carries_holds [OF s1]]] show ?thesis using msgs Cons rest by simp
  qed
qed

end

end
