(* ===== verification/Service.thy ===== *)
theory Service
  imports Server Connections Engine_Batches
begin

text \<open>
  The whole server process with its connections (\<open>crates/server/src/main.rs\<close>,
  \<open>stage1/mod.rs\<close>, \<open>acker.rs\<close>): the accept loop, the reader and writer task of every connection,
  stage 2 and stage 3, all interleaved, with bounded channels and sends that wait. A turn of
  stage 2 first sends its responses one by one and then hands its batch over; stage 3 sends the
  responses of an iteration and then gives the buffers back. While a send waits, the thread
  waits.
\<close>

section \<open>State and steps\<close>

text \<open>
  \<open>s2_todo\<close> and \<open>s3_todo\<close> are the responses a thread has still to send, \<open>s2_held\<close> and \<open>s3_free\<close> what it
  passes on afterwards. \<open>sends\<close>, \<open>requests\<close> and \<open>taken\<close> are history: the sends done, the requests
  handed to stage 2, and those it has taken.
\<close>

record service =
  sv :: server
  conns :: "connection list"
  s2_todo :: "(nat \<times> resp) list"
  s2_held :: "wal_msg list"
  s3_todo :: "(nat \<times> resp) list"
  s3_free :: "batch list"
  sends :: "(nat \<times> resp) list"
  requests :: "request list"
  taken :: "request list"

definition service_new :: "server \<Rightarrow> service" where
  "service_new s =
     \<lparr>sv = s, conns = [], s2_todo = [], s2_held = [], s3_todo = [], s3_free = [], sends = [], requests = [], taken = []\<rparr>"

text \<open>Everything but the iterations of stage 3.\<close>

inductive front_step :: "service \<Rightarrow> service \<Rightarrow> bool" where
  accept: "front_step s (s\<lparr>conns := conns s @ [connection_new]\<rparr>)"
| arrive: "i < length (conns s) \<Longrightarrow> \<not> c_eof (conns s ! i) \<Longrightarrow>
    front_step s (s\<lparr>conns := (conns s)[i := conn_arrive bs (conns s ! i)]\<rparr>)"
| hangup: "i < length (conns s) \<Longrightarrow>
    front_step s (s\<lparr>conns := (conns s)[i := (conns s ! i)\<lparr>c_eof := True\<rparr>]\<rparr>)"
| read: "i < length (conns s) \<Longrightarrow> c_reading (conns s ! i) \<Longrightarrow> reader_step (conns s ! i) = ReaderHas body c \<Longrightarrow>
    length (srv_items (sv s)) < REQ_BOUND \<Longrightarrow>
    front_step s (s\<lparr>sv := (sv s)\<lparr>srv_items := srv_items (sv s) @ [request_of i body]\<rparr>,
                      conns := (conns s)[i := c], requests := requests s @ [request_of i body]\<rparr>)"
| read_end: "i < length (conns s) \<Longrightarrow> c_reading (conns s ! i) \<Longrightarrow> reader_step (conns s ! i) = ReaderEnds \<Longrightarrow>
    front_step s (s\<lparr>conns := (conns s)[i := (conns s ! i)\<lparr>c_reading := False\<rparr>]\<rparr>)"
| table: "s2_todo s = [] \<Longrightarrow> s2_held s = [] \<Longrightarrow> unat (s2_lsn (srv_s2 (sv s))) + MAX_BATCH < 2 ^ 64 \<Longrightarrow>
    stage2_turn (acker_new (srv_mode (sv s))) (srv_s2 (sv s)) (srv_pool (sv s)) (srv_items (sv s)) =
      Inr (S2Next s2 pool rest sent msgs) \<Longrightarrow>
    front_step s (s\<lparr>sv := (sv s)\<lparr>srv_s2 := s2, srv_pool := pool, srv_items := rest,
                                    srv_replies := srv_replies (sv s) @ sent\<rparr>,
                      s2_todo := sent, s2_held := msgs, taken := taken s @ take MAX_BATCH (srv_items (sv s))\<rparr>)"
| send2: "s2_todo s = (i, r) # todo \<Longrightarrow> i < length (conns s) \<Longrightarrow> blocking_send r (conns s ! i) = Some c \<Longrightarrow>
    front_step s (s\<lparr>conns := (conns s)[i := c], s2_todo := todo, sends := sends s @ [(i, r)]\<rparr>)"
| hand_over: "s2_todo s = [] \<Longrightarrow>
    front_step s (s\<lparr>sv := (sv s)\<lparr>srv_s23 := srv_s23 (sv s) @ s2_held s\<rparr>, s2_held := []\<rparr>)"
| send3: "s3_todo s = (i, r) # todo \<Longrightarrow> i < length (conns s) \<Longrightarrow> blocking_send r (conns s ! i) = Some c \<Longrightarrow>
    front_step s (s\<lparr>conns := (conns s)[i := c], s3_todo := todo, sends := sends s @ [(i, r)]\<rparr>)"
| give_back: "s3_todo s = [] \<Longrightarrow>
    front_step s (s\<lparr>sv := (sv s)\<lparr>srv_pool := srv_pool (sv s) @ s3_free s\<rparr>, s3_free := []\<rparr>)"
| encode: "i < length (conns s) \<Longrightarrow> c_writing (conns s ! i) \<Longrightarrow> c_buf (conns s ! i) = [] \<Longrightarrow>
    conn_encode n (conns s ! i) = Inr c \<Longrightarrow>
    front_step s (s\<lparr>conns := (conns s)[i := c]\<rparr>)"
| wrote: "i < length (conns s) \<Longrightarrow> c_writing (conns s ! i) \<Longrightarrow>
    front_step s (s\<lparr>conns := (conns s)[i := conn_write k (conns s ! i)]\<rparr>)"
| write_fails: "i < length (conns s) \<Longrightarrow> c_writing (conns s ! i) \<Longrightarrow> c_buf (conns s ! i) \<noteq> [] \<Longrightarrow>
    front_step s (s\<lparr>conns := (conns s)[i := conn_write_failed (conns s ! i)]\<rparr>)"

text \<open>What an iteration of stage 3 leaves: its responses and its free buffers are still to be passed on.\<close>

definition after_log :: "wal_engine \<Rightarrow> dir_state \<Rightarrow> wal_msg list \<Rightarrow> service \<Rightarrow> service" where
  "after_log e dir msgs s =
     s\<lparr>sv := (sv s)\<lparr>srv_eng := e\<lparr>recycle_tx := []\<rparr>, srv_s23 := msgs, srv_dir := dir\<rparr>,
       s3_todo := drop (length (replies (srv_eng (sv s)))) (replies e), s3_free := recycle_tx e\<rparr>"

inductive service_step :: "service \<Rightarrow> service \<Rightarrow> bool" where
  front: "front_step s s' \<Longrightarrow> service_step s s'"
| log: "s3_todo s = [] \<Longrightarrow> s3_free s = [] \<Longrightarrow> slab_contract vacant \<Longrightarrow>
    wal_turn vacant room cqes rounds fsync_ok open_ok (srv_dir (sv s)) (srv_eng (sv s)) (srv_s23 (sv s)) =
      Inr (Some (e, dir, msgs, ss, p)) \<Longrightarrow>
    finish_turn p err = Inr () \<Longrightarrow>
    service_step s (after_log e dir msgs s)"

inductive service_reach :: "service \<Rightarrow> service \<Rightarrow> bool" where
  start: "service_reach s s"
| next_step: "service_reach s s' \<Longrightarrow> service_step s' s'' \<Longrightarrow> service_reach s s''"

section \<open>The connections forgotten\<close>

text \<open>The server without connections: what a thread is about to pass on counts as passed on.\<close>

definition server_of :: "service \<Rightarrow> server" where
  "server_of s =
     (sv s)\<lparr>srv_s23 := srv_s23 (sv s) @ s2_held s, srv_pool := srv_pool (sv s) @ s3_free s\<rparr>"

lemma server_of_simps [simp]:
  "srv_mode (server_of s) = srv_mode (sv s)" "srv_items (server_of s) = srv_items (sv s)"
  "srv_s2 (server_of s) = srv_s2 (sv s)" "srv_eng (server_of s) = srv_eng (sv s)"
  "srv_replies (server_of s) = srv_replies (sv s)" "srv_dir (server_of s) = srv_dir (sv s)"
  "srv_s23 (server_of s) = srv_s23 (sv s) @ s2_held s" "srv_pool (server_of s) = srv_pool (sv s) @ s3_free s"
  by (simp_all add: server_of_def)

lemma stage2_turn_pool:
  assumes "stage2_turn a s pool avail = Inr (S2Next s' pool' rest sent msgs)"
  shows "stage2_turn a s (pool @ extra) avail = Inr (S2Next s' (pool' @ extra) rest sent msgs)" "length msgs \<le> 1"
proof -
  obtain b where b: "obtain_batch s pool = Some (b, pool')" "take MAX_BATCH avail \<noteq> []"
    using assms by (auto simp: stage2_turn_def obind_eq_Inr split: option.splits if_splits)
  have got: "obtain_batch s (pool @ extra) = Some (b, pool' @ extra)"
    using b(1) by (auto simp: obtain_batch_def split: option.splits list.splits)
  obtain d b1 l b2 sent' where a: "apply_batch (s2_db s) (b\<lparr>items := items b @ take MAX_BATCH avail\<rparr>) (s2_lsn s) = Inr (d, b1, l)"
    "advance a b1 Applied = Inr (b2, sent')"
    using assms b by (auto simp: stage2_turn_def obind_eq_Inr)
  show "stage2_turn a s (pool @ extra) avail = Inr (S2Next s' (pool' @ extra) rest sent msgs)"
    using assms b by (simp add: stage2_turn_def got a split: if_splits)
  show "length msgs \<le> 1" using assms b by (auto simp: stage2_turn_def a split: if_splits)
qed

lemma front_step_server:
  "front_step s s' \<Longrightarrow> length (s2_held s) \<le> 1 \<Longrightarrow>
   (server_of s' = server_of s \<or> server_step (server_of s) (server_of s')) \<and> length (s2_held s') \<le> 1"
proof (induction rule: front_step.induct)
  case (read i s body c)
  have "body_ok body" using reader_step_has [OF read.hyps(3)] by simp
  from server_step.request [OF this, of "server_of s" i] read show ?case by (cases "sv s") (simp add: server_of_def)
next
  case (table s s2 pool rest sent msgs)
  note t = stage2_turn_pool(1) [OF table.hyps(4), of "s3_free s"] stage2_turn_pool(2) [OF table.hyps(4)]
  from server_step.table [of "server_of s", OF _ _] t(1) table.hyps(1-3)
  have "server_step (server_of s) ((server_of s)\<lparr>srv_s2 := s2, srv_pool := pool @ s3_free s, srv_items := rest,
      srv_replies := srv_replies (server_of s) @ sent, srv_s23 := srv_s23 (server_of s) @ msgs\<rparr>)" by simp
  then show ?case using t(2) table.hyps(2) by (cases "sv s") (simp add: server_of_def)
qed (auto simp: server_of_def)

lemma service_step_server:
  "service_step s s' \<Longrightarrow> length (s2_held s) \<le> 1 \<Longrightarrow>
   (server_of s' = server_of s \<or> server_step (server_of s) (server_of s')) \<and> length (s2_held s') \<le> 1"
proof (induction rule: service_step.induct)
  case (front s s')
  then show ?case by (rule front_step_server)
next
  case (log s vacant room cqes rounds fsync_ok open_ok e dir msgs ss p err)
  from server_step.log [OF log.hyps(3), of "server_of s" "srv_s23 (sv s)" "s2_held s"] log.hyps(2,4,5) log.prems
  have "server_step (server_of s) ((server_of s)\<lparr>srv_eng := e\<lparr>recycle_tx := []\<rparr>,
      srv_pool := srv_pool (server_of s) @ recycle_tx e, srv_s23 := msgs @ s2_held s, srv_dir := dir\<rparr>)" by simp
  then show ?case using log.prems log.hyps(2) by (cases "sv s") (simp add: server_of_def after_log_def)
qed

end
