(* ===== verification/Service_Runs.thy ===== *)
theory Service_Runs
  imports Service
begin

text \<open>
  Runs of the server process from an empty directory: a client connects, sends GETs one after
  the other, and its responses go into its reply channel, into the writer and onto the socket.
\<close>

section \<open>A client that only sends\<close>

definition get_body :: bytes where
  "get_body = req_body Get [1] []"

lemma get_body_facts:
  "body_ok get_body" "wf_req (request_of i get_body)" "kind (request_of i get_body) = Get"
  "puts [request_of i get_body] = 0" "s2_sent a db_new [request_of i get_body] = [(i, Miss)]"
proof -
  show "body_ok get_body" by (simp add: body_ok_def get_body_def MAX_FRAME_def req_body_def)
  show "wf_req (request_of i get_body)"
    by (simp add: wf_req_def request_of_def get_body_def) (simp add: req_body_def)
  show k: "kind (request_of i get_body) = Get" by (simp add: kind_def request_of_def get_body_def req_body_def)
  then show "puts [request_of i get_body] = 0" by (simp add: is_put_def)
  have "answer db_new (request_of i get_body) = Miss" by (simp add: answer_def k db_get_def db_new_def)
  then show "s2_sent a db_new [request_of i get_body] = [(i, Miss)]"
    using k by (simp add: s2_sent_def answered_at_def response_of_def kind_def) (simp add: request_of_def)
qed

text \<open>
  One connection whose client has sent nothing that is not served yet; \<open>b\<close> is what the writer is
  writing, \<open>n\<close> responses are in the channel, and \<open>k\<close> GETs have been served.
\<close>

definition idle_conn :: "bytes \<Rightarrow> nat \<Rightarrow> connection \<Rightarrow> bool" where
  "idle_conn b n c \<longleftrightarrow>
     \<not> c_eof c \<and> c_reading c \<and> c_in c = [] \<and> c_writing c \<and> c_chan c = replicate n Miss \<and> c_buf c = b"

definition idle_service :: "bytes \<Rightarrow> nat \<Rightarrow> nat \<Rightarrow> service \<Rightarrow> bool" where
  "idle_service b n k s \<longleftrightarrow>
     taken s = replicate k (request_of 0 get_body) \<and>
     srv_items (sv s) = [] \<and> s2_todo s = [] \<and> s2_held s = [] \<and> s2_db (srv_s2 (sv s)) = db_new \<and>
     s2_lsn (srv_s2 (sv s)) = 1 \<and> (\<exists>pool. obtain_batch (srv_s2 (sv s)) (srv_pool (sv s)) = Some (batch_new, pool)) \<and>
     (\<exists>c. conns s = [c] \<and> idle_conn b n c)"

lemma service_reach_trans: "service_reach s' s'' \<Longrightarrow> service_reach s s' \<Longrightarrow> service_reach s s''"
  by (induction rule: service_reach.induct) (auto intro: service_reach.next_step)

text \<open>A frame arrives and is handed over.\<close>

lemma frame_arrives:
  assumes "c_in c = []" and "body_ok body"
  shows "reader_step (conn_arrive (frame_bytes body) c) =
    ReaderHas body (c\<lparr>c_arrived := c_arrived c @ frame_bytes body, c_handed := c_handed c @ [body]\<rparr>)"
proof -
  have "length body < 2 ^ 32" "body \<noteq> []" "length body \<le> MAX_FRAME" using assms(2) by (simp_all add: body_ok_def MAX_FRAME_def)
  then show ?thesis using assms(1) by (simp add: reader_step_def conn_arrive_def frame_bytes_def Let_def)
qed

text \<open>The client sends a GET: it is read and served, and its response is to be sent.\<close>

lemma get_served:
  assumes "idle_service b n k s"
  shows "\<exists>s'. service_reach s s' \<and> taken s' = replicate (Suc k) (request_of 0 get_body) \<and> srv_items (sv s') = [] \<and> s2_todo s' = [(0, Miss)] \<and> s2_held s' = [] \<and>
    s2_db (srv_s2 (sv s')) = db_new \<and> s2_lsn (srv_s2 (sv s')) = 1 \<and>
    (\<exists>pool. obtain_batch (srv_s2 (sv s')) (srv_pool (sv s')) = Some (batch_new, pool)) \<and>
    (\<exists>c. conns s' = [c] \<and> idle_conn b n c)"
proof -
  obtain c pool where c: "conns s = [c]" "idle_conn b n c"
    and pool: "obtain_batch (srv_s2 (sv s)) (srv_pool (sv s)) = Some (batch_new, pool)"
    using assms by (auto simp: idle_service_def)
  let ?r = "request_of 0 get_body" and ?a = "conn_arrive (frame_bytes get_body) c"
  let ?c = "c\<lparr>c_arrived := c_arrived c @ frame_bytes get_body, c_handed := c_handed c @ [get_body]\<rparr>"
  let ?s1 = "s\<lparr>conns := [?a]\<rparr>"
  let ?s2 = "?s1\<lparr>sv := (sv s)\<lparr>srv_items := [?r]\<rparr>, conns := [?c], requests := requests s @ [?r]\<rparr>"
  have s1: "service_step s ?s1" using front_step.arrive [THEN service_step.front, of 0 s "frame_bytes get_body"] c by (simp add: idle_conn_def)
  have "reader_step (conns ?s1 ! 0) = ReaderHas get_body ?c"
    using frame_arrives [of c] get_body_facts(1) c(2) by (simp add: idle_conn_def)
  then have s2: "service_step ?s1 ?s2"
    using front_step.read [THEN service_step.front, of 0 ?s1 get_body ?c] assms c
    by (simp add: idle_service_def idle_conn_def conn_arrive_def REQ_BOUND_def)
  have tk: "[?r] = take MAX_BATCH [?r]" by (simp add: MAX_BATCH_def)
  have nw: "unat (s2_lsn (srv_s2 (sv s))) + puts [?r] < 2 ^ 64"
    using assms get_body_facts(4) by (simp add: idle_service_def)
  note t = stage2_turn_closed [OF pool tk _ _ nw, of "acker_new (srv_mode (sv s))"]
  let ?x = "(srv_s2 (sv s))\<lparr>s2_db := foldl serve (s2_db (srv_s2 (sv s))) [?r],
      s2_lsn := s2_lsn (srv_s2 (sv s)) + of_nat (puts [?r]), recycled_batch := Some batch_new\<rparr>"
  have turn: "stage2_turn (acker_new (srv_mode (sv ?s2))) (srv_s2 (sv ?s2)) (srv_pool (sv ?s2)) (srv_items (sv ?s2)) =
      Inr (S2Next ?x pool [] [(0, Miss)] [])"
    using t get_body_facts(2,4,5) assms by (simp add: idle_service_def MAX_BATCH_def)
  let ?s3 = "?s2\<lparr>sv := (sv ?s2)\<lparr>srv_s2 := ?x, srv_pool := pool, srv_items := [],
      srv_replies := srv_replies (sv ?s2) @ [(0, Miss)]\<rparr>, s2_todo := [(0, Miss)], s2_held := [],
      taken := taken ?s2 @ take MAX_BATCH (srv_items (sv ?s2))\<rparr>"
  have "service_step ?s2 ?s3"
    using front_step.table [THEN service_step.front, OF _ _ _ turn] assms by (simp add: idle_service_def MAX_BATCH_def)
  then have "service_reach s ?s3" using s1 s2 by (meson service_reach.intros)
  moreover have "s2_db ?x = db_new" "s2_lsn ?x = 1"
    using assms get_body_facts(4) get_body_facts(3) by (simp_all add: idle_service_def serve_def is_put_def)
  moreover have "obtain_batch ?x pool = Some (batch_new, pool)" by (simp add: obtain_batch_def)
  moreover have "idle_conn b n ?c" using c(2) by (simp add: idle_conn_def)
  moreover have "taken ?s3 = replicate (Suc k) ?r"
    using assms by (simp add: idle_service_def MAX_BATCH_def replicate_append_same)
  ultimately show ?thesis by (intro exI [of _ ?s3]) simp
qed

lemma get_answered:
  assumes "idle_service b n k s" and "n < RESP_BOUND"
  shows "\<exists>s'. service_reach s s' \<and> idle_service b (Suc n) (Suc k) s'"
proof -
  from get_served [OF assms(1)] obtain s1 c where s1: "service_reach s s1" "srv_items (sv s1) = []"
    "taken s1 = replicate (Suc k) (request_of 0 get_body)"
    "s2_todo s1 = [(0, Miss)]" "s2_held s1 = []" "s2_db (srv_s2 (sv s1)) = db_new" "s2_lsn (srv_s2 (sv s1)) = 1"
    "\<exists>pool. obtain_batch (srv_s2 (sv s1)) (srv_pool (sv s1)) = Some (batch_new, pool)"
    and c: "conns s1 = [c]" "idle_conn b n c" by blast
  let ?c = "c\<lparr>c_chan := c_chan c @ [Miss], c_accepted := c_accepted c @ [Miss]\<rparr>"
  have "blocking_send Miss c = Some ?c" using c(2) assms(2) by (simp add: blocking_send_def idle_conn_def)
  let ?s = "s1\<lparr>conns := [?c], s2_todo := [], sends := sends s1 @ [(0, Miss)]\<rparr>"
  have "service_step s1 ?s" using front_step.send2 [THEN service_step.front, OF s1(4), of ?c] c(1) \<open>blocking_send Miss c = Some ?c\<close> by simp
  then have "service_reach s ?s" using s1(1) by (rule service_reach.next_step [rotated])
  moreover have "idle_conn b (Suc n) ?c" using c(2) by (simp add: idle_conn_def replicate_append_same)
  then have "idle_service b (Suc n) (Suc k) ?s" using s1(2,3,5-8) by (simp add: idle_service_def)
  ultimately show ?thesis by blast
qed

lemma gets_answered:
  "idle_service b n k s \<Longrightarrow> n + m \<le> RESP_BOUND \<Longrightarrow> \<exists>s'. service_reach s s' \<and> idle_service b (n + m) (k + m) s'"
proof (induction m)
  case 0
  then show ?case using service_reach.start by auto
next
  case (Suc m)
  then obtain s1 where "service_reach s s1" "idle_service b (n + m) (k + m) s1" by auto
  moreover obtain s2 where "service_reach s1 s2" "idle_service b (Suc (n + m)) (Suc (k + m)) s2"
    using get_answered [OF calculation(2)] Suc.prems(2) by auto
  ultimately show ?case using service_reach_trans by auto
qed

text \<open>The writer takes a response and starts to write it.\<close>

lemma writer_starts:
  assumes "idle_service [] 1 k s"
  shows "\<exists>s'. service_reach s s' \<and> idle_service (resp_bytes Miss) 0 k s'"
proof -
  obtain c where c: "conns s = [c]" "idle_conn [] 1 c" using assms by (auto simp: idle_service_def)
  let ?c = "c\<lparr>c_buf := resp_bytes Miss, c_chan := []\<rparr>"
  have "conn_encode 0 c = Inr ?c" using c(2) by (simp add: conn_encode_def idle_conn_def encode_resp_eq)
  then have "service_step s (s\<lparr>conns := [?c]\<rparr>)" using front_step.encode [THEN service_step.front, of 0 s 0 ?c] c by (simp add: idle_conn_def)
  moreover have "idle_service (resp_bytes Miss) 0 k (s\<lparr>conns := [?c]\<rparr>)"
    using assms c by (auto simp: idle_service_def idle_conn_def)
  ultimately show ?thesis by (meson service_reach.intros)
qed

text \<open>The writer finishes.\<close>

lemma writer_finishes:
  assumes "idle_service b n k s"
  shows "\<exists>s'. service_reach s s' \<and> idle_service [] n k s'"
proof -
  obtain c where c: "conns s = [c]" "idle_conn b n c" using assms by (auto simp: idle_service_def)
  let ?c = "conn_write (length b) c"
  have "service_step s (s\<lparr>conns := [?c]\<rparr>)" using front_step.wrote [THEN service_step.front, of 0 s "length b"] c by (simp add: idle_conn_def)
  moreover have "idle_service [] n k (s\<lparr>conns := [?c]\<rparr>)"
    using assms c by (auto simp: idle_service_def idle_conn_def conn_write_def)
  ultimately show ?thesis by (meson service_reach.intros)
qed

lemma first_connection:
  assumes "server_start True True m empty_dir = Inr s0"
  shows "\<exists>s. service_reach (service_new s0) s \<and> idle_service [] 0 0 s"
proof -
  have rec: "recover empty_dir = Inr (db_new, 1)" using empty_dir_good by (simp add: good_dir_def)
  let ?s = "(service_new s0)\<lparr>conns := [connection_new]\<rparr>"
  have "service_step (service_new s0) ?s" using front_step.accept [THEN service_step.front, of "service_new s0"] by (simp add: service_new_def)
  moreover have "idle_service [] 0 0 ?s"
    using assms rec
    by (auto simp: server_start_def obind_eq_Inr idle_service_def idle_conn_def service_new_def connection_new_def
        stage2_new_def obtain_batch_def N_BUFFERS_def numeral_eq_Suc)
  ultimately show ?thesis by (meson service_reach.intros)
qed

text \<open>One GET, answered completely.\<close>

lemma one_get_run:
  assumes "server_start True True m empty_dir = Inr s0"
  shows "\<exists>s. service_reach (service_new s0) s \<and> idle_service [] 0 1 s"
proof -
  obtain s1 where s1: "service_reach (service_new s0) s1" "idle_service [] 0 0 s1" using first_connection [OF assms] by blast
  obtain s2 where s2: "service_reach s1 s2" "idle_service [] 1 1 s2" using get_answered [OF s1(2)] by (auto simp: RESP_BOUND_def)
  obtain s3 where s3: "service_reach s2 s3" "idle_service (resp_bytes Miss) 0 1 s3" using writer_starts [OF s2(2)] by blast
  obtain s4 where s4: "service_reach s3 s4" "idle_service [] 0 1 s4" using writer_finishes [OF s3(2)] by blast
  have "service_reach (service_new s0) s4" using s1(1) s2(1) s3(1) s4(1) by (metis service_reach_trans)
  then show ?thesis using s4(2) by blast
qed

lemma server_starts_empty: "\<exists>s0. server_start True True m empty_dir = Inr s0"
proof -
  have rec: "recover empty_dir = Inr (db_new, 1)" using empty_dir_good by (simp add: good_dir_def)
  obtain e dir' where "wal_engine_new True True RING_DEPTH (empty_dir\<lparr>dir_exists := True\<rparr>) 1 m (acker_new m) = Inr (e, dir')"
    by (simp add: wal_engine_new_def segment_open_def Let_def)
  then show ?thesis using rec by (simp add: server_start_def)
qed

end
