(* ===== verification/Delivery.thy ===== *)
theory Delivery
  imports Service_Runs
begin

text \<open>
  What holds of the server process with its connections: the types of the responses under way,
  the account of every response and every request, and, in mode NoFsync, the answers that
  arrive at a client.
\<close>

section \<open>Types of responses\<close>

text \<open>The responses that fit an operation. \<open>UnknownResp\<close>, which the writer cannot encode, fits none.\<close>

fun fits_kind :: "operation \<Rightarrow> resp \<Rightarrow> bool" where
  "fits_kind Get r \<longleftrightarrow> r = Miss \<or> (\<exists>v. r = Value v)"
| "fits_kind Put r \<longleftrightarrow> r = Ok"
| "fits_kind (Unknown b) r \<longleftrightarrow> r = UnknownOp"

definition typed_req :: "request \<Rightarrow> bool" where
  "typed_req r \<longleftrightarrow> data r \<noteq> [] \<and> (case resp r of None \<Rightarrow> True | Some x \<Rightarrow> fits_kind (kind r) x)"

definition typed_batch :: "batch \<Rightarrow> bool" where
  "typed_batch b \<longleftrightarrow> list_all typed_req (items b)"

definition quiet_batch :: "batch \<Rightarrow> bool" where
  "quiet_batch b \<longleftrightarrow> list_all (\<lambda>r. data r \<noteq> [] \<and> resp r = None) (items b)"

lemma fits_kind_known: "fits_kind k r \<Longrightarrow> r \<noteq> UnknownResp"
  by (cases k) auto

lemma answer_fits: "fits_kind (kind r) (answer d r)"
  by (simp add: answer_def split: operation.splits option.splits)

lemma typed_settle: "typed_req r \<Longrightarrow> typed_req (settle a p r)"
  by (simp add: typed_req_def settle_def kind_def)

lemma typed_responses:
  "list_all typed_req rs \<Longrightarrow> list_all (\<lambda>p. snd p \<noteq> UnknownResp) (concat (map response_of (filter P rs)))"
  using fits_kind_known by (induction rs) (auto simp: typed_req_def response_of_def split: option.splits)

lemma typed_answer_all: "list_all wf_req rs \<Longrightarrow> list_all typed_req (answer_all d rs)"
proof (induction d rs rule: answer_all.induct)
  case (1 d)
  then show ?case by simp
next
  case (2 d r rs)
  have "kind (r\<lparr>resp := Some (answer d r)\<rparr>) = kind r" by (simp add: kind_def)
  then show ?case using 2 answer_fits [of r d] by (simp add: typed_req_def wf_req_def)
qed

interpretation typed: batch_law typed_batch "\<lambda>p. snd p \<noteq> UnknownResp"
proof unfold_locales
  fix b bs assume "typed_batch b"
  then show "typed_batch (b\<lparr>out := bs\<rparr>)" by (simp add: typed_batch_def)
next
  fix b a p b' sent assume b: "typed_batch b" and adv: "advance a b p = Inr (b', sent)"
  have "list_all (\<lambda>r. data r \<noteq> []) (items b)" using b by (auto simp: typed_batch_def typed_req_def list_all_iff)
  from advance_eq [OF this, of a p] adv have "items b' = map (settle a p) (items b)"
    "sent = concat (map response_of (filter (answered_at a p) (items b)))" by auto
  then show "typed_batch b' \<and> list_all (\<lambda>p. snd p \<noteq> UnknownResp) sent"
    using b typed_settle typed_responses by (auto simp: typed_batch_def list_all_iff)
qed

interpretation quiet: batch_law quiet_batch "\<lambda>_. False"
proof unfold_locales
  fix b bs assume "quiet_batch b"
  then show "quiet_batch (b\<lparr>out := bs\<rparr>)" by (simp add: quiet_batch_def)
next
  fix b a p b' sent assume b: "quiet_batch b" and adv: "advance a b p = Inr (b', sent)"
  have "list_all (\<lambda>r. data r \<noteq> []) (items b)" using b by (auto simp: quiet_batch_def list_all_iff)
  from advance_eq [OF this, of a p] adv have "items b' = map (settle a p) (items b)"
    "sent = concat (map response_of (filter (answered_at a p) (items b)))" by auto
  then show "quiet_batch b' \<and> list_all (\<lambda>_. False) sent"
    using b by (auto simp: quiet_batch_def list_all_iff settle_def response_of_def)
qed

text \<open>What a turn of stage 2 produces.\<close>

lemma s2_typed:
  assumes "list_all wf_req c"
  shows "typed_batch (s2_batch a d l c)" "list_all (\<lambda>p. snd p \<noteq> UnknownResp) (s2_sent a d c)"
  using typed_answer_all [OF assms, of d] typed_settle typed_responses
  by (auto simp: s2_batch_def s2_sent_def typed_batch_def list_all_iff)

lemma list_all_False [simp]: "list_all (\<lambda>_. False) xs \<longleftrightarrow> xs = []"
  by (cases xs) simp_all

lemma s2_nofsync:
  assumes "list_all wf_req c"
  shows "quiet_batch (s2_batch (acker_new NoFsync) d l c)"
    "s2_sent (acker_new NoFsync) d c = concat (map response_of (answer_all d c))"
proof -
  have all: "answered_at (acker_new NoFsync) Applied r" for r by (simp add: answered_at_def acker_new_def)
  then show "quiet_batch (s2_batch (acker_new NoFsync) d l c)"
    using nonempty_answer_all [OF assms] by (auto simp: quiet_batch_def s2_batch_def settle_def list_all_iff)
  show "s2_sent (acker_new NoFsync) d c = concat (map response_of (answer_all d c))"
    using all by (simp add: s2_sent_def)
qed

section \<open>The invariant\<close>

definition typed_inv :: "service \<Rightarrow> bool" where
  "typed_inv s \<longleftrightarrow>
     list_all (\<lambda>r. resp r = None \<and> body_ok (data r)) (srv_items (sv s)) \<and>
     list_all (msg_batch typed_batch) (srv_s23 (sv s) @ s2_held s) \<and>
     list_all typed_batch (held_batches (srv_eng (sv s))) \<and>
     list_all (\<lambda>p. snd p \<noteq> UnknownResp) (s2_todo s @ s3_todo s)"

text \<open>Connection \<open>i\<close> got what was sent to it until its writer ended, and handed over its requests.\<close>

definition conn_inv_at :: "service \<Rightarrow> nat \<Rightarrow> connection \<Rightarrow> bool" where
  "conn_inv_at s i c \<longleftrightarrow>
     connection_ok c \<and> prefix (c_accepted c) (replies_on i (sends s)) \<and>
     (c_writing c \<longrightarrow> c_accepted c = replies_on i (sends s)) \<and>
     filter (\<lambda>r. reply r = i) (requests s) = map (request_of i) (c_handed c)"

definition conns_inv :: "service \<Rightarrow> bool" where
  "conns_inv s \<longleftrightarrow>
     (\<forall>i < length (conns s). conn_inv_at s i (conns s ! i)) \<and>
     list_all (\<lambda>p. fst p < length (conns s)) (sends s) \<and>
     list_all (\<lambda>r. reply r < length (conns s)) (requests s)"

definition flow_inv :: "service \<Rightarrow> bool" where
  "flow_inv s \<longleftrightarrow>
     requests s = taken s @ srv_items (sv s) \<and>
     mset (sends s) + mset (s2_todo s) + mset (s3_todo s) = mset (srv_replies (sv s)) + mset (replies (srv_eng (sv s)))"

definition service_inv :: "service \<Rightarrow> bool" where
  "service_inv s \<longleftrightarrow>
     server_inv (server_of s) \<and> length (s2_held s) \<le> 1 \<and> typed_inv s \<and> conns_inv s \<and> flow_inv s"

text \<open>Steps of one connection that hand nothing over and accept nothing.\<close>

lemma conns_inv_update:
  assumes "conns_inv s" and "i < length (conns s)"
    and "connection_ok (conns s ! i) \<Longrightarrow> connection_ok c" and "c_accepted c = c_accepted (conns s ! i)"
    and "c_writing c \<Longrightarrow> c_writing (conns s ! i)" and "c_handed c = c_handed (conns s ! i)"
  shows "conns_inv (s\<lparr>conns := (conns s)[i := c]\<rparr>)"
  using assms by (auto simp: conns_inv_def conn_inv_at_def nth_list_update)

lemma replies_on_snoc: "replies_on i (ss @ [(j, r)]) = replies_on i ss @ (if i = j then [r] else [])"
  by (simp add: replies_on_def)

lemma conns_inv_accept:
  assumes "conns_inv s"
  shows "conns_inv (s\<lparr>conns := conns s @ [connection_new]\<rparr>)"
proof -
  have "filter (\<lambda>p. fst p = length (conns s)) (sends s) = []" "filter (\<lambda>r. reply r = length (conns s)) (requests s) = []"
    using assms by (auto simp: conns_inv_def list_all_iff filter_empty_conv)
  then have "conn_inv_at s (length (conns s)) connection_new"
    using connection_new_ok by (simp add: conn_inv_at_def replies_on_def connection_new_def)
  then show ?thesis
    using assms by (auto simp: conns_inv_def conn_inv_at_def nth_append less_Suc_eq list_all_iff)
qed

lemma conns_inv_read:
  assumes inv: "conns_inv s" and i: "i < length (conns s)" and has: "reader_step (conns s ! i) = ReaderHas body c"
  shows "conns_inv (s\<lparr>sv := x, conns := (conns s)[i := c], requests := requests s @ [request_of i body]\<rparr>)"
proof -
  have c: "c = (conns s ! i)\<lparr>c_in := c_in c, c_handed := c_handed (conns s ! i) @ [body]\<rparr>"
    using reader_step_has [OF has] by simp
  have same: "c_accepted c = c_accepted (conns s ! i)" "c_writing c = c_writing (conns s ! i)"
    "c_handed c = c_handed (conns s ! i) @ [body]"
    by (subst c, simp)+
  have "connection_ok c" using reader_step_ok [OF has] inv i by (simp add: conns_inv_def conn_inv_at_def)
  then show ?thesis
    using inv i same by (auto simp: conns_inv_def conn_inv_at_def nth_list_update request_of_def list_all_iff)
qed

lemma conns_inv_send:
  assumes inv: "conns_inv s" and i: "i < length (conns s)" and r: "r \<noteq> UnknownResp"
    and send: "blocking_send r (conns s ! i) = Some c"
  shows "conns_inv (s\<lparr>conns := (conns s)[i := c], sends := sends s @ [(i, r)]\<rparr>)"
proof -
  have "connection_ok c" using blocking_send_ok [OF send r] inv i by (simp add: conns_inv_def conn_inv_at_def)
  moreover have "c_handed c = c_handed (conns s ! i)" "c_writing c = c_writing (conns s ! i)"
    "c_accepted c = c_accepted (conns s ! i) @ (if c_writing (conns s ! i) then [r] else [])"
    using send by (auto simp: blocking_send_def split: if_splits)
  ultimately show ?thesis
    using inv i by (auto simp: conns_inv_def conn_inv_at_def nth_list_update replies_on_snoc list_all_iff)
qed

text \<open>The steps of stage 2 and stage 3.\<close>

lemma table_turn:
  assumes inv: "server_inv (server_of s)"
    and turn: "stage2_turn a (srv_s2 (sv s)) (srv_pool (sv s)) (srv_items (sv s)) = Inr (S2Next s2 pool rest sent msgs)"
    and nw: "unat (s2_lsn (srv_s2 (sv s))) + MAX_BATCH < 2 ^ 64"
  defines "c \<equiv> take MAX_BATCH (srv_items (sv s))"
  shows "list_all wf_req c" "sent = s2_sent a (s2_db (srv_s2 (sv s))) c" "rest = drop MAX_BATCH (srv_items (sv s))"
    "msgs = (if puts c = 0 then [] else [WalWrite (s2_batch a (s2_db (srv_s2 (sv s))) (s2_lsn (srv_s2 (sv s))) c)])"
    "s2_db s2 = foldl serve (s2_db (srv_s2 (sv s))) c"
    "s2_lsn s2 = s2_lsn (srv_s2 (sv s)) + of_nat (puts c)" "c \<noteq> []"
proof -
  have "clean (srv_s2 (sv s))" "list_all (\<lambda>b. b = batch_new) (srv_pool (sv s))"
    using inv by (auto simp: server_inv_def)
  from stage2_turn_wf [OF turn this] have got: "obtain_batch (srv_s2 (sv s)) (srv_pool (sv s)) = Some (batch_new, pool)"
    and c: "c \<noteq> []" "list_all wf_req c" by (simp_all add: c_def)
  have "puts c \<le> length c" unfolding puts_def by (rule length_filter_le)
  moreover have "length c \<le> MAX_BATCH" by (simp add: c_def)
  ultimately have "unat (s2_lsn (srv_s2 (sv s))) + puts c < 2 ^ 64" using nw by linarith
  from stage2_turn_closed [OF got _ c this, of "srv_items (sv s)" a] turn c
  show "list_all wf_req c" "sent = s2_sent a (s2_db (srv_s2 (sv s))) c" "rest = drop MAX_BATCH (srv_items (sv s))"
    "msgs = (if puts c = 0 then [] else [WalWrite (s2_batch a (s2_db (srv_s2 (sv s))) (s2_lsn (srv_s2 (sv s))) c)])"
    "s2_db s2 = foldl serve (s2_db (srv_s2 (sv s))) c"
    "s2_lsn s2 = s2_lsn (srv_s2 (sv s)) + of_nat (puts c)" "c \<noteq> []"
    by (auto simp: c_def)
qed

lemma log_turn:
  assumes typed: "typed_inv s"
    and turn: "wal_turn vacant room cqes rounds fsync_ok open_ok (srv_dir (sv s)) (srv_eng (sv s)) (srv_s23 (sv s)) =
      Inr (Some (e, dir, msgs, ss, p))"
  shows "list_all typed_batch (held_batches e)" "list_all (msg_batch typed_batch) msgs"
    "\<exists>new. replies e = replies (srv_eng (sv s)) @ new \<and> list_all (\<lambda>p. snd p \<noteq> UnknownResp) new"
  using typed.wal_turn_carries [OF turn] typed by (auto simp: typed_inv_def carries_def)

lemma front_parts_step:
  "front_step s s' \<Longrightarrow> service_inv s \<Longrightarrow> typed_inv s' \<and> conns_inv s' \<and> flow_inv s'"
proof (induction rule: front_step.induct)
  case (accept s)
  then show ?case using conns_inv_accept [of s] by (auto simp: service_inv_def typed_inv_def flow_inv_def)
next
  case (arrive i s bs)
  then show ?case using conns_inv_update [of s i "conn_arrive bs (conns s ! i)"] conn_arrive_ok
    by (auto simp: service_inv_def typed_inv_def flow_inv_def conn_arrive_def)
next
  case (hangup i s)
  then show ?case using conns_inv_update [of s i "(conns s ! i)\<lparr>c_eof := True\<rparr>"] stop_ok(1)
    by (auto simp: service_inv_def typed_inv_def flow_inv_def)
next
  case (read i s body c)
  then show ?case using conns_inv_read [OF _ read.hyps(1,3)] reader_step_has [OF read.hyps(3)]
    by (auto simp: service_inv_def typed_inv_def flow_inv_def request_of_def)
next
  case (read_end i s)
  then show ?case using conns_inv_update [of s i "(conns s ! i)\<lparr>c_reading := False\<rparr>"] stop_ok(2)
    by (auto simp: service_inv_def typed_inv_def flow_inv_def)
next
  case (table s s2 pool rest sent msgs)
  have inv: "server_inv (server_of s)" "typed_inv s" using table.prems by (simp_all add: service_inv_def)
  note t = table_turn [OF inv(1) table.hyps(4,3)]
  have "list_all (\<lambda>p. snd p \<noteq> UnknownResp) sent" "list_all (msg_batch typed_batch) msgs"
    using s2_typed [OF t(1)] unfolding t(2,4) by (auto simp: msg_batch_def)
  then show ?case using table
    by (auto simp: service_inv_def typed_inv_def conns_inv_def conn_inv_at_def flow_inv_def t(3) list_all_iff
        dest: in_set_dropD)
next
  case (send2 s i r todo c)
  then have "r \<noteq> UnknownResp" by (simp add: service_inv_def typed_inv_def)
  then show ?case using send2 conns_inv_send [OF _ send2.hyps(2) _ send2.hyps(3)]
    by (auto simp: service_inv_def typed_inv_def flow_inv_def conns_inv_def conn_inv_at_def)
next
  case (hand_over s)
  then show ?case
    by (auto simp: service_inv_def typed_inv_def conns_inv_def conn_inv_at_def flow_inv_def)
next
  case (send3 s i r todo c)
  then have "r \<noteq> UnknownResp" by (simp add: service_inv_def typed_inv_def)
  then show ?case using send3 conns_inv_send [OF _ send3.hyps(2) _ send3.hyps(3)]
    by (auto simp: service_inv_def typed_inv_def flow_inv_def conns_inv_def conn_inv_at_def)
next
  case (give_back s)
  then show ?case
    by (auto simp: service_inv_def typed_inv_def conns_inv_def conn_inv_at_def flow_inv_def)
next
  case (encode i s n c)
  have ok: "connection_ok (conns s ! i) \<Longrightarrow> connection_ok c" using conn_encode_ok [OF _ encode.hyps(3,2), of n] encode.hyps(4) by auto
  have "c_accepted c = c_accepted (conns s ! i)" "c_writing c = c_writing (conns s ! i)" "c_handed c = c_handed (conns s ! i)"
    using encode.hyps(4) by (auto simp: conn_encode_def obind_eq_Inr split: list.splits)
  then show ?case using encode conns_inv_update [of s i c] ok
    by (auto simp: service_inv_def typed_inv_def flow_inv_def)
next
  case (wrote i s k)
  then show ?case using conns_inv_update [of s i "conn_write k (conns s ! i)"] conn_write_ok
    by (auto simp: service_inv_def typed_inv_def flow_inv_def conn_write_def)
next
  case (write_fails i s)
  then show ?case using conns_inv_update [of s i "conn_write_failed (conns s ! i)"] conn_write_failed_ok
    by (auto simp: service_inv_def typed_inv_def flow_inv_def conn_write_failed_def)
qed

lemma service_parts_step:
  "service_step s s' \<Longrightarrow> service_inv s \<Longrightarrow> typed_inv s' \<and> conns_inv s' \<and> flow_inv s'"
proof (induction rule: service_step.induct)
  case (front s s')
  then show ?case by (rule front_parts_step)
next
  case (log s vacant room cqes rounds fsync_ok open_ok e dir msgs ss p err)
  then have "typed_inv s" by (simp add: service_inv_def)
  note t = log_turn [OF this log.hyps(4)]
  obtain new where "replies e = replies (srv_eng (sv s)) @ new" "list_all (\<lambda>p. snd p \<noteq> UnknownResp) new"
    using t(3) by blast
  then show ?case using log t(1,2)
    by (auto simp: service_inv_def typed_inv_def conns_inv_def conn_inv_at_def flow_inv_def held_batches_def after_log_def)
qed

lemma service_inv_step: "service_step s s' \<Longrightarrow> service_inv s \<Longrightarrow> service_inv s'"
  using service_parts_step [of s s'] service_step_server [of s s'] server_inv_step
  unfolding service_inv_def by metis

lemma service_reach_inv: "service_reach s s' \<Longrightarrow> service_inv s \<Longrightarrow> service_inv s' \<and> server_reach (server_of s) (server_of s')"
proof (induction rule: service_reach.induct)
  case (start s)
  then show ?case by (simp add: server_reach.start)
next
  case (next_step s s' s'')
  then have inv: "service_inv s'" "server_reach (server_of s) (server_of s')" by simp_all
  then have "server_of s'' = server_of s' \<or> server_step (server_of s') (server_of s'')"
    using service_step_server [OF next_step.hyps(2)] by (simp add: service_inv_def)
  then have "server_reach (server_of s) (server_of s'')" using inv(2) server_reach.next_step by metis
  then show ?case using service_inv_step [OF next_step.hyps(2) inv(1)] by simp
qed

lemma service_start:
  assumes "server_start ring_ok open_ok m dir = Inr s0"
  shows "service_inv (service_new s0)" "server_of (service_new s0) = s0" "srv_mode s0 = m" "srv_items s0 = []"
    "srv_replies s0 = []" "held_batches (srv_eng s0) = []" "replies (srv_eng s0) = []" "srv_s23 s0 = []"
    "\<exists>l. recover dir = Inr (s2_db (srv_s2 s0), l)"
proof -
  from assms obtain d l e dir' where
    e: "wal_engine_new ring_ok open_ok RING_DEPTH (dir\<lparr>dir_exists := True\<rparr>) l m (acker_new m) = Inr (e, dir')"
    and rec: "recover dir = Inr (d, l)"
    and s: "s0 = \<lparr>srv_mode = m, srv_items = [], srv_s2 = stage2_new d l, srv_pool = replicate N_BUFFERS batch_new,
                 srv_s23 = [], srv_eng = e, srv_dir = dir', srv_replies = []\<rparr>"
    by (auto simp: server_start_def obind_eq_Inr)
  show e0: "held_batches (srv_eng s0) = []" "replies (srv_eng s0) = []" "srv_mode s0 = m" "srv_items s0 = []"
    "srv_replies s0 = []" "srv_s23 s0 = []" "\<exists>l. recover dir = Inr (s2_db (srv_s2 s0), l)"
    using wal_engine_new_fields [OF e] rec by (simp_all add: s held_batches_def stage2_new_def)
  show same: "server_of (service_new s0) = s0" by (simp add: server_of_def service_new_def)
  have "server_inv s0" using server_inv_start [OF assms] .
  then show "service_inv (service_new s0)"
    using e0 unfolding service_inv_def same
    by (simp add: typed_inv_def conns_inv_def flow_inv_def service_new_def)
qed

section \<open>Mode NoFsync\<close>

definition nofsync_inv :: "db \<Rightarrow> service \<Rightarrow> bool" where
  "nofsync_inv d s \<longleftrightarrow>
     srv_mode (sv s) = NoFsync \<and> list_all (msg_batch quiet_batch) (srv_s23 (sv s) @ s2_held s) \<and>
     list_all quiet_batch (held_batches (srv_eng (sv s))) \<and> replies (srv_eng (sv s)) = [] \<and> s3_todo s = [] \<and>
     s2_db (srv_s2 (sv s)) = foldl serve d (taken s) \<and>
     sends s @ s2_todo s = concat (map response_of (answer_all d (taken s)))"

lemma nofsync_front:
  "front_step s s' \<Longrightarrow> service_inv s \<Longrightarrow> nofsync_inv d s \<Longrightarrow> nofsync_inv d s'"
proof (induction rule: front_step.induct)
  case (table s s2 pool rest sent msgs)
  have inv: "server_inv (server_of s)" and m: "srv_mode (sv s) = NoFsync"
    using table.prems by (simp_all add: service_inv_def nofsync_inv_def)
  note t = table_turn [OF inv table.hyps(4,3)]
  note q = s2_nofsync [OF t(1)]
  have "list_all (msg_batch quiet_batch) msgs" unfolding t(4) m using q(1) by (simp add: msg_batch_def)
  moreover have "sent = concat (map response_of (answer_all (foldl serve d (taken s)) (take MAX_BATCH (srv_items (sv s)))))"
    using table.prems(2) unfolding t(2) m q(2) by (simp add: nofsync_inv_def)
  ultimately show ?case
    using table.prems(2) table.hyps(1,2) t(5) by (simp add: nofsync_inv_def answer_all_append)
next
  case (send3 s i r todo c)
  then show ?case by (simp add: nofsync_inv_def)
qed (auto simp: nofsync_inv_def)

lemma nofsync_step:
  "service_step s s' \<Longrightarrow> service_inv s \<Longrightarrow> nofsync_inv d s \<Longrightarrow> nofsync_inv d s'"
proof (induction rule: service_step.induct)
  case (front s s')
  then show ?case by (rule nofsync_front)
next
  case (log s vacant room cqes rounds fsync_ok open_ok e dir msgs ss p err)
  have "list_all (msg_batch quiet_batch) (srv_s23 (sv s))" "list_all quiet_batch (held_batches (srv_eng (sv s)))"
    using log.prems(2) by (simp_all add: nofsync_inv_def)
  from quiet.wal_turn_carries [OF log.hyps(4) this] have
    "list_all quiet_batch (held_batches e)" "replies e = replies (srv_eng (sv s))" "list_all (msg_batch quiet_batch) msgs"
    by (auto simp: carries_def)
  then show ?case using log.prems(2) by (simp add: nofsync_inv_def held_batches_def after_log_def)
qed

lemma nofsync_reach:
  "service_reach s s' \<Longrightarrow> service_inv s \<Longrightarrow> nofsync_inv d s \<Longrightarrow> nofsync_inv d s'"
proof (induction rule: service_reach.induct)
  case (next_step s s' s'')
  then show ?case using service_reach_inv [OF next_step.hyps(1)] nofsync_step [OF next_step.hyps(2)] by blast
qed

lemma replies_on_answers:
  assumes "db_inv d"
  shows "replies_on i (concat (map response_of (answer_all d rs))) = map (history_answer d rs) (positions i rs)"
  using replies_on_positions [of i rs "history_answer d rs"] assms by (simp add: response_of_answer_all answer_history)

lemma replies_on_append: "replies_on i (xs @ ys) = replies_on i xs @ replies_on i ys"
  by (simp add: replies_on_def)

lemma prefix_concat_map: "prefix xs ys \<Longrightarrow> prefix (concat (map f xs)) (concat (map f ys))"
  by (auto simp: prefix_def)

text \<open>What one connection has seen.\<close>

lemma conn_seen:
  assumes "conns_inv s" and "i < length (conns s)"
  shows "prefix (c_out (conns s ! i)) (concat (map resp_bytes (replies_on i (sends s))))"
    "prefix (filter (\<lambda>r. reply r = i) (requests s)) (read_conn (\<lambda>_. True) i 0 (c_arrived (conns s ! i)))"
    "c_writing (conns s ! i) \<Longrightarrow> c_chan (conns s ! i) = [] \<Longrightarrow> c_buf (conns s ! i) = [] \<Longrightarrow>
     c_out (conns s ! i) = concat (map resp_bytes (replies_on i (sends s)))"
proof -
  let ?c = "conns s ! i"
  have c: "conn_inv_at s i ?c" using assms by (simp add: conns_inv_def)
  then have w: "write_ok ?c" "read_ok ?c" by (simp_all add: conn_inv_at_def connection_ok_def)
  have "prefix (c_out ?c) (concat (map resp_bytes (c_accepted ?c)))"
    "prefix (concat (map resp_bytes (c_accepted ?c))) (concat (map resp_bytes (replies_on i (sends s))))"
    using w(1) c by (simp_all add: write_ok_def conn_inv_at_def prefix_concat_map)
  then show "prefix (c_out ?c) (concat (map resp_bytes (replies_on i (sends s))))" by (rule prefix_order.trans)
  show "prefix (filter (\<lambda>r. reply r = i) (requests s)) (read_conn (\<lambda>_. True) i 0 (c_arrived ?c))"
    using c handed_read_conn [OF w(2), of i] by (simp add: conn_inv_at_def)
  show "c_writing ?c \<Longrightarrow> c_chan ?c = [] \<Longrightarrow> c_buf ?c = [] \<Longrightarrow>
      c_out ?c = concat (map resp_bytes (replies_on i (sends s)))"
    using w(1) c by (simp add: write_ok_def conn_inv_at_def)
qed

section \<open>Properties\<close>

text \<open>
  C4. The process with its connections, bounded channels and waiting sends implements the
  server of queues, and loses and invents nothing. In every state reachable from the start, in
  every mode: forgetting the connections gives a reachable state of the server without them;
  every response produced is either sent, exactly once, or still to be sent by the thread that
  holds it; the requests that stage 2 gets from a connection are the frames that arrived on it,
  in order; and what has been written to its socket is a prefix of the frames of the responses
  sent to it.
\<close>

theorem service_refines_server:
  assumes "server_start ring_ok open_ok m dir = Inr s0" and "service_reach (service_new s0) s"
  shows "server_reach s0 (server_of s) \<and>
    mset (sends s) + mset (s2_todo s) + mset (s3_todo s) =
      mset (srv_replies (server_of s)) + mset (replies (srv_eng (server_of s))) \<and>
    (\<forall>i < length (conns s).
       length (c_chan (conns s ! i)) \<le> RESP_BOUND \<and>
       prefix (c_out (conns s ! i)) (concat (map resp_bytes (replies_on i (sends s)))) \<and>
       prefix (filter (\<lambda>r. reply r = i) (requests s)) (read_conn (\<lambda>_. True) i 0 (c_arrived (conns s ! i))))"
proof -
  have inv: "service_inv s" and reach: "server_reach s0 (server_of s)"
    using service_reach_inv [OF assms(2) service_start(1) [OF assms(1)]] service_start(2) [OF assms(1)] by simp_all
  have "length (c_chan (conns s ! i)) \<le> RESP_BOUND" if "i < length (conns s)" for i
    using inv that by (simp add: service_inv_def conns_inv_def conn_inv_at_def connection_ok_def write_ok_def)
  moreover have "conns_inv s" "flow_inv s" using inv by (simp_all add: service_inv_def)
  ultimately show ?thesis using reach conn_seen(1,2) unfolding flow_inv_def server_of_simps by blast
qed

theorem service_refines_server_witness:
  "\<exists>s0 s c. server_start True True Sync empty_dir = Inr s0 \<and> service_reach (service_new s0) s \<and> conns s = [c] \<and>
     server_reach s0 (server_of s) \<and> taken s = [request_of 0 get_body] \<and>
     prefix (c_out c) (concat (map resp_bytes (replies_on 0 (sends s))))"
proof -
  obtain s0 where s0: "server_start True True Sync empty_dir = Inr s0" using server_starts_empty by blast
  obtain s where s: "service_reach (service_new s0) s" "idle_service [] 0 1 s" using one_get_run [OF s0] by blast
  from service_refines_server [OF s0 s(1)] s show ?thesis using s0 by (fastforce simp: idle_service_def)
qed

text \<open>
  C5. In mode NoFsync every client gets the answers due to its requests, in order. In every
  reachable state of the process, with any number of connections interleaved in any way: the
  requests served for a connection are the first frames that arrived on it, and the bytes written
  to it are a prefix of the answers due to these requests in the history of all requests served,
  starting from the recovered table. When nothing is under way for the connection, the answers
  have been written completely.
\<close>

theorem service_answers:
  assumes "server_start ring_ok open_ok NoFsync dir = Inr s0" and "recover dir = Inr (d, l)"
    and "service_reach (service_new s0) s" and "i < length (conns s)"
  shows "prefix (filter (\<lambda>r. reply r = i) (taken s)) (read_conn (\<lambda>_. True) i 0 (c_arrived (conns s ! i))) \<and>
    prefix (c_out (conns s ! i)) (concat (map resp_bytes (map (history_answer d (taken s)) (positions i (taken s))))) \<and>
    (s2_todo s = [] \<and> c_writing (conns s ! i) \<and> c_chan (conns s ! i) = [] \<and> c_buf (conns s ! i) = [] \<longrightarrow>
       c_out (conns s ! i) = concat (map resp_bytes (map (history_answer d (taken s)) (positions i (taken s)))))"
proof -
  note st = service_start [OF assms(1)]
  have d: "d = s2_db (srv_s2 s0)" "db_inv d" using st(9) assms(2) recover_inv by auto
  have "nofsync_inv d (service_new s0)"
    using st by (simp add: nofsync_inv_def service_new_def d(1))
  from nofsync_reach [OF assms(3) st(1) this] have nf: "sends s @ s2_todo s = concat (map response_of (answer_all d (taken s)))"
    by (simp add: nofsync_inv_def)
  have inv: "conns_inv s" "flow_inv s"
    using service_reach_inv [OF assms(3) st(1)] by (simp_all add: service_inv_def)
  note seen = conn_seen [OF inv(1) assms(4)]
  have all: "map (history_answer d (taken s)) (positions i (taken s)) = replies_on i (sends s) @ replies_on i (s2_todo s)"
    unfolding replies_on_answers [OF d(2), symmetric] nf [symmetric] by (rule replies_on_append)
  have "prefix (filter (\<lambda>r. reply r = i) (taken s)) (filter (\<lambda>r. reply r = i) (requests s))"
    using inv(2) by (simp add: flow_inv_def)
  then have req: "prefix (filter (\<lambda>r. reply r = i) (taken s)) (read_conn (\<lambda>_. True) i 0 (c_arrived (conns s ! i)))"
    using seen(2) by (rule prefix_order.trans)
  have "prefix (c_out (conns s ! i)) (concat (map resp_bytes (replies_on i (sends s))) @ concat (map resp_bytes (replies_on i (s2_todo s))))"
    using seen(1) by (rule prefix_prefix)
  then show ?thesis using req seen(3) unfolding all by (auto simp: replies_on_def)
qed

theorem service_answers_witness:
  "\<exists>s0 s c. server_start True True NoFsync empty_dir = Inr s0 \<and> service_reach (service_new s0) s \<and> conns s = [c] \<and>
     taken s = [request_of 0 get_body] \<and> c_out c = resp_bytes Miss"
proof -
  obtain s0 where s0: "server_start True True NoFsync empty_dir = Inr s0" using server_starts_empty by blast
  have rec: "recover empty_dir = Inr (db_new, 1)" using empty_dir_good by (simp add: good_dir_def)
  obtain s where s: "service_reach (service_new s0) s" "idle_service [] 0 1 s" using one_get_run [OF s0] by blast
  then obtain c where c: "conns s = [c]" "idle_conn [] 0 c" "s2_todo s = []" "taken s = [request_of 0 get_body]"
    by (auto simp: idle_service_def)
  have "positions 0 (taken s) = [0]" "history_answer db_new (taken s) 0 = Miss"
    using get_body_facts(3) [of 0] c(4)
    by (simp_all add: positions_def request_of_def history_answer_def put_kvs_def db_get_def db_new_def)
  with service_answers [OF s0 rec s(1), of 0] c have "c_out c = resp_bytes Miss" by (simp add: idle_conn_def)
  then show ?thesis using s0 s(1) c(1,4) by blast
qed

text \<open>
  C30. Everything under way has its type. In every reachable state, in every mode: a request that
  waits for stage 2 carries no response and a body of 1 byte to 8 MiB; a response that a batch on
  its way to or inside stage 3 still carries fits the operation of its request; and no writer can
  panic: whatever is in its channel can be encoded, so the \<open>unreachable!()\<close> of \<open>encode_resp\<close> is.
\<close>

theorem service_typed:
  assumes "server_start ring_ok open_ok m dir = Inr s0" and "service_reach (service_new s0) s"
  shows "list_all (\<lambda>r. resp r = None \<and> body_ok (data r)) (srv_items (sv s)) \<and>
    list_all (msg_batch typed_batch) (srv_s23 (sv s) @ s2_held s) \<and>
    list_all typed_batch (held_batches (srv_eng (sv s))) \<and>
    (\<forall>i < length (conns s). \<forall>n. c_writing (conns s ! i) \<and> c_buf (conns s ! i) = [] \<longrightarrow>
       (\<exists>c. conn_encode n (conns s ! i) = Inr c))"
proof -
  have inv: "typed_inv s" "conns_inv s"
    using service_reach_inv [OF assms(2) service_start(1) [OF assms(1)]] by (simp_all add: service_inv_def)
  have "\<exists>c. conn_encode n (conns s ! i) = Inr c"
    if "i < length (conns s)" "c_writing (conns s ! i)" "c_buf (conns s ! i) = []" for i n
    using conn_encode_ok [OF _ that(3,2), of n] inv(2) that(1) by (auto simp: conns_inv_def conn_inv_at_def)
  then show ?thesis using inv(1) by (auto simp: typed_inv_def)
qed

theorem service_typed_witness:
  "\<exists>s0 s c c'. server_start True True Async empty_dir = Inr s0 \<and> service_reach (service_new s0) s \<and> conns s = [c] \<and>
     c_chan c = [Miss] \<and> conn_encode 0 c = Inr c'"
proof -
  obtain s0 where s0: "server_start True True Async empty_dir = Inr s0" using server_starts_empty by blast
  obtain s1 where s1: "service_reach (service_new s0) s1" "idle_service [] 0 0 s1" using first_connection [OF s0] by blast
  obtain s where s: "service_reach s1 s" "idle_service [] 1 1 s" using get_answered [OF s1(2)] by (auto simp: RESP_BOUND_def)
  then obtain c where c: "conns s = [c]" "idle_conn [] 1 c" by (auto simp: idle_service_def)
  have reach: "service_reach (service_new s0) s" using service_reach_trans [OF s(1) s1(1)] .
  from service_typed [OF s0 reach] c have "\<exists>c'. conn_encode 0 c = Inr c'" by (auto simp: idle_conn_def)
  then show ?thesis using s0 reach c by (auto simp: idle_conn_def)
qed

end
