(* ===== verification/Wal_Stock.thy ===== *)
theory Wal_Stock
  imports Engine_Batches Wal_Liveness
begin

text \<open>
  No batch is lost or doubled inside stage 3 in mode Sync: with a ring that completes writes
  whole, the batches acknowledged together with those still held are exactly the batches that
  were received. An iteration of the loop is a run of the system of engine and ring, so what
  holds of the system holds in between.
\<close>

section \<open>The stock\<close>

definition stock :: "wal_engine \<Rightarrow> batch multiset" where
  "stock e = mset (finished e) + mset (held_batches e)"

lemma stock_ingest: "stock (ingest b buf e) = add_mset (b\<lparr>out := buf\<rparr>) (stock e)"
  by (simp add: stock_def ingest_def held_batches_def io_write_def)

lemma stock_spin [simp]: "stock (e\<lparr>spin_budget := n\<rparr>) = stock e" "stock (e\<lparr>recycle_tx := bs\<rparr>) = stock e"
  by (simp_all add: stock_def held_batches_def)

lemma stock_plan [simp]: "stock (plan_fsync e) = stock e"
  by (simp add: stock_def held_batches_def plan_fsync_def Let_def case_prod_beta)

lemma stock_submit_loop: "submit_loop vacant room e = Inr (e', ss) \<Longrightarrow> stock e' = stock e"
proof (induction vacant room e arbitrary: e' ss rule: submit_loop.induct)
  case (1 vacant e)
  then show ?case by simp
next
  case (2 vacant room e)
  show ?case
  proof (cases "length (inflight e) < depth e \<and> pending e \<noteq> []")
    case False
    then have "e' = e" using "2.prems"(1) by (auto split: if_splits list.splits)
    then show ?thesis by simp
  next
    case True
    then obtain w ws where p: "pending e = w # ws" by (cases "pending e") auto
    let ?e = "e\<lparr>pending := ws, inflight := inflight e @ [(vacant (inflight e), w)]\<rparr>"
    obtain s ss' where s: "sqe_of w (seg_fd (seg e)) = Inr s" "submit_loop vacant room ?e = Inr (e', ss')"
      using "2.prems"(1) True p by (auto simp: obind_eq_Inr Let_def)
    from "2.IH" [OF conjunct1 [OF True] p refl s] show ?thesis by (simp add: stock_def held_batches_def p)
  qed
qed

lemma stock_submit: "handle_pending vacant room e = Inr (e', ss, moved) \<Longrightarrow> stock e' = stock e"
  by (auto simp: handle_pending_def obind_eq_Inr intro: stock_submit_loop split: if_splits)

lemma slab_batches:
  assumes "distinct (map fst xs)" and "map_of xs k = Some w"
  shows "mset (concat (map (work_batches \<circ> snd) xs)) =
    mset (work_batches w) + mset (concat (map (work_batches \<circ> snd) (AList.delete k xs)))"
  using assms
proof (induction xs)
  case Nil
  then show ?case by simp
next
  case (Cons x xs)
  show ?case
  proof (cases "fst x = k")
    case True
    then have "k \<notin> set (map fst xs)" using Cons.prems(1) by auto
    then have "AList.delete k xs = xs" by (simp add: delete_id)
    then show ?thesis using True Cons.prems(2) by (cases x) simp
  next
    case False
    then show ?thesis using Cons by (cases x) auto
  qed
qed

lemma stock_reap_one:
  assumes inv: "wal_inv s" "whole_inv s" and cq: "ring_cq (ker s) = c # cs" and step: "reap_one (eng s) c = Inr e"
  shows "stock e = stock (eng s)"
proof -
  have d: "distinct (map fst (inflight (eng s)))" using inv(1) by (simp add: wal_inv_def ring_inv_def)
  from inv cq step show ?thesis
  proof (cases rule: reap_one_sync)
    case (Write w)
    then show ?thesis using slab_batches [OF d Write(1)] by (simp add: stock_def held_batches_def)
  next
    case (Fsync l)
    then show ?thesis using slab_batches [OF d Fsync(1)] by (simp add: stock_def held_batches_def)
  qed
qed

lemma stock_reap:
  "reap_cqes (eng s) cs = Inr e \<Longrightarrow> ring_cq (ker s) = cs \<Longrightarrow> wal_inv s \<Longrightarrow> whole_inv s \<Longrightarrow> stock e = stock (eng s)"
proof (induction cs arbitrary: s)
  case Nil
  then show ?case by simp
next
  case (Cons c cs)
  obtain e1 where e1: "reap_one (eng s) c = Inr e1" "reap_cqes e1 cs = Inr e"
    using Cons.prems(1) by (auto simp: obind_eq_Inr)
  let ?s = "s\<lparr>eng := e1, ker := (ker s)\<lparr>ring_cq := cs\<rparr>\<rparr>"
  have "wal_inv ?s" using reap_one_preserves [OF Cons.prems(3,2) e1(1)] .
  moreover have "whole_inv ?s" using reap_one_order [OF Cons.prems(3,4,2) e1(1)] by simp
  ultimately have "stock e = stock e1" using Cons.IH [of ?s] e1(2) by simp
  then show ?case using stock_reap_one [OF Cons.prems(3,4,2) e1(1)] by simp
qed

section \<open>An iteration\<close>

text \<open>What the safety of the log rests on, without the liveness part.\<close>

definition disk_inv :: "wal_system \<Rightarrow> bool" where
  "disk_inv s \<longleftrightarrow> wal_inv s \<and> order_inv s \<and> whole_inv s \<and> small_outs s"

lemma disk_inv_reach:
  assumes "wal_reach kstep s s'" and "full_writes kstep" and "disk_inv s" and "small_outs s'"
  shows "disk_inv s'"
  using wal_inv_reach [OF assms(1) full_writes_contract [OF assms(2)]] order_inv_reach [OF assms(1,2)] assms(3,4)
  by (simp add: disk_inv_def)

lemma disk_inv_recycle:
  assumes "disk_inv s"
  shows "disk_inv (s\<lparr>eng := (eng s)\<lparr>recycle_tx := bs\<rparr>\<rparr>)"
proof -
  let ?s = "s\<lparr>eng := (eng s)\<lparr>recycle_tx := bs\<rparr>\<rparr>"
  have inv: "wal_inv s" "order_inv s" "whole_inv s" "small_outs s" using assms by (simp_all add: disk_inv_def)
  have "wal_inv ?s" using inv(1) by (intro wal_inv_frame) (simp_all add: wal_inv_def data_inv_def)
  moreover have "order_inv ?s" using order_inv_same [OF inv(2), of ?s] by (simp add: trail_def)
  ultimately show ?thesis
    using inv(3,4) by (simp add: disk_inv_def whole_inv_def small_outs_def full_cqe_def [abs_def])
qed

text \<open>The last part of an iteration, after a batch or none has been taken: plan, push, reap.\<close>

lemma turn_end:
  assumes "handle_pending vacant room (plan_fsync (eng s)) = Inr (e1, ss, moved)" and "reap_cqes e1 (ring_cq (ker s)) = Inr e"
    and inv: "disk_inv s" and full: "full_writes kstep" and slab: "slab_contract vacant"
  shows "disk_inv (s\<lparr>eng := e, ker := (ker s)\<lparr>ring_sq := ring_sq (ker s) @ ss, ring_cq := []\<rparr>\<rparr>)" "stock e = stock (eng s)"
proof -
  let ?s1 = "s\<lparr>eng := plan_fsync (eng s)\<rparr>"
  let ?s2 = "s\<lparr>eng := e1, ker := (ker s)\<lparr>ring_sq := ring_sq (ker s) @ ss\<rparr>\<rparr>"
  let ?s3 = "s\<lparr>eng := e, ker := (ker s)\<lparr>ring_sq := ring_sq (ker s) @ ss, ring_cq := []\<rparr>\<rparr>"
  have vac: "\<forall>xs. vacant xs \<notin> set (map fst xs)" using slab by (simp add: slab_contract_def)
  have s1: "wal_step kstep s ?s1" by (rule wal_step.plan)
  have s2: "wal_step kstep ?s1 ?s2" using wal_step.submit [OF vac, of room ?s1 e1 ss moved kstep] assms(1) by simp
  have s3: "wal_step kstep ?s2 ?s3" using wal_step.reap [of ?s2 e kstep] assms(2) by simp
  have small: "small_outs ?s2" "small_outs ?s3" using inv by (simp_all add: disk_inv_def small_outs_def)
  have r2: "wal_reach kstep s ?s2" using s1 s2 by (meson wal_reach.intros)
  then have inv2: "disk_inv ?s2" using disk_inv_reach [OF _ full inv small(1)] by blast
  show "disk_inv ?s3" using disk_inv_reach [OF wal_reach.next_step [OF r2 s3] full inv small(2)] .
  have "stock e = stock e1" using stock_reap [of ?s2 "ring_cq (ker s)" e] assms(2) inv2 by (simp add: disk_inv_def)
  then show "stock e = stock (eng s)" using stock_submit [OF assms(1)] by simp
qed

lemma idle_turn:
  assumes turn: "wal_turn vacant room (ring_cq (ker s)) rounds f1 f2 dir (eng s) [] = Inr (Some (e, dir', msgs', ss, p))"
    and inv: "disk_inv s" and full: "full_writes kstep" and slab: "slab_contract vacant"
  shows "disk_inv (s\<lparr>eng := e, ker := (ker s)\<lparr>ring_sq := ring_sq (ker s) @ ss, ring_cq := []\<rparr>\<rparr>)"
    "stock e = stock (eng s)" "msgs' = []"
proof -
  let ?s = "s\<lparr>eng := (eng s)\<lparr>spin_budget := spin_budget (eng s) - 1\<rparr>\<rparr>"
  have np: "\<not> should_park (eng s)" using turn by (auto simp: wal_turn_blocked)
  obtain e1 moved where e1: "handle_pending vacant room (plan_fsync (eng ?s)) = Inr (e1, ss, moved)"
    "reap_cqes e1 (ring_cq (ker ?s)) = Inr e" and m: "msgs' = []"
    using turn unfolding wal_turn_idle [OF np] by (auto simp: obind_eq_Inr)
  have "wal_step kstep s ?s" by (rule wal_step.spin)
  moreover have "small_outs ?s" using inv by (simp add: disk_inv_def small_outs_def)
  ultimately have "disk_inv ?s" using disk_inv_reach [OF _ full inv] by (meson wal_reach.intros)
  note t = turn_end [OF e1 this full slab]
  show "disk_inv (s\<lparr>eng := e, ker := (ker s)\<lparr>ring_sq := ring_sq (ker s) @ ss, ring_cq := []\<rparr>\<rparr>)" using t(1) by simp
  show "stock e = stock (eng s)" using t(2) by simp
  show "msgs' = []" by (rule m)
qed

lemma receive_turn:
  assumes turn: "wal_turn vacant room (ring_cq (ker s)) rounds f1 f2 dir (eng s) (WalWrite b # msgs) =
      Inr (Some (e, dir', msgs', ss, p))"
    and inv: "disk_inv s" and full: "full_writes kstep" and slab: "slab_contract vacant"
    and b: "awaits_durable b" "encode_items (out b) (lsn_low b) (items b) = Inr (buf, lsn)"
    and small: "length buf < 2 ^ 32" "unat (seg_offset (seg (eng s))) + length buf < 2 ^ 64"
  shows "disk_inv (s\<lparr>eng := e, ker := (ker s)\<lparr>ring_sq := ring_sq (ker s) @ ss, ring_cq := []\<rparr>, outs := outs s @ [buf]\<rparr>)"
    "stock e = add_mset (b\<lparr>out := buf\<rparr>) (stock (eng s))" "msgs' = msgs"
proof -
  let ?s = "s\<lparr>eng := ingest b buf (eng s), outs := outs s @ [buf]\<rparr>"
  have lsn: "lsn_low b = last_ingested_lsn (eng s)"
    using turn by (auto simp: wal_turn_def poll_channel_or_park_def handle_msg_def handle_batch_def
        obind_eq_Inr ensure_def split: if_splits)
  obtain e1 moved where e1: "handle_pending vacant room (plan_fsync (eng ?s)) = Inr (e1, ss, moved)"
    "reap_cqes e1 (ring_cq (ker ?s)) = Inr e" and m: "msgs' = msgs"
    using turn unfolding wal_turn_receive [OF lsn b(2)] by (auto simp: obind_eq_Inr)
  obtain e0 where e0: "handle_batch (eng s) b = Inr e0"
    "e0\<lparr>spin_budget := DEFAULT_SPIN_BUDGET\<rparr> = ingest b buf (eng s)"
    using handle_batch_ingest [OF lsn b(2)] by blast
  have "wal_step kstep s ?s" using wal_step.receive [OF b small(2) e0(1), of kstep] e0(2) by simp
  moreover have "small_outs ?s" using inv small(1) by (simp add: disk_inv_def small_outs_def)
  ultimately have "disk_inv ?s" using disk_inv_reach [OF _ full inv] by (meson wal_reach.intros)
  note t = turn_end [OF e1 this full slab]
  show "disk_inv (s\<lparr>eng := e, ker := (ker s)\<lparr>ring_sq := ring_sq (ker s) @ ss, ring_cq := []\<rparr>, outs := outs s @ [buf]\<rparr>)"
    using t(1) by - (cases s, simp)
  show "stock e = add_mset (b\<lparr>out := buf\<rparr>) (stock (eng s))" using t(2) by (simp add: stock_ingest)
  show "msgs' = msgs" by (rule m)
qed

end
