(* ===== verification/Durable_Service.thy ===== *)
theory Durable_Service
  imports Delivery Wal_Stock
begin

text \<open>
  The whole server process together with the kernel's ring and the segment file, in mode Sync:
  connections, stage 1, stage 2 and stage 3 run interleaved with each other and with the
  completions of the ring, and the machine may lose power in any state. What recovery finds is
  then compared with the responses that clients have been sent.
\<close>

section \<open>State and steps\<close>

text \<open>\<open>encs\<close> is history: the encoded batches stage 3 has received, in order.\<close>

record node =
  svc :: service
  ring :: ring_state
  encs :: "bytes list"

definition node_new :: "server \<Rightarrow> node" where
  "node_new s =
     \<lparr>svc = service_new s, ring = \<lparr>ring_sq = [], ring_cq = [], cache = Map.empty, stable = Map.empty\<rparr>, encs = []\<rparr>"

definition received :: "wal_msg list \<Rightarrow> bytes list" where
  "received msgs = (case msgs of WalWrite b # _ \<Rightarrow> [encoded b] | _ \<Rightarrow> [])"

text \<open>
  An iteration of stage 3 reaps what has completed, and what it pushes reaches the ring when
  the iteration ends.
\<close>

inductive node_step :: "(ring_state \<Rightarrow> ring_state \<Rightarrow> bool) \<Rightarrow> node \<Rightarrow> node \<Rightarrow> bool"
  for kstep :: "ring_state \<Rightarrow> ring_state \<Rightarrow> bool" where
  front: "front_step (svc n) s \<Longrightarrow> node_step kstep n (n\<lparr>svc := s\<rparr>)"
| kernel: "kstep (ring n) k \<Longrightarrow> node_step kstep n (n\<lparr>ring := k\<rparr>)"
| log: "s3_todo (svc n) = [] \<Longrightarrow> s3_free (svc n) = [] \<Longrightarrow> slab_contract vacant \<Longrightarrow>
    wal_turn vacant room (ring_cq (ring n)) rounds fsync_ok open_ok (srv_dir (sv (svc n))) (srv_eng (sv (svc n)))
      (srv_s23 (sv (svc n))) = Inr (Some (e, dir, msgs, ss, p)) \<Longrightarrow>
    finish_turn p err = Inr () \<Longrightarrow>
    node_step kstep n (n\<lparr>svc := after_log e dir msgs (svc n),
                         ring := (ring n)\<lparr>ring_sq := ring_sq (ring n) @ ss, ring_cq := []\<rparr>,
                         encs := encs n @ received (srv_s23 (sv (svc n)))\<rparr>)"

inductive node_reach :: "(ring_state \<Rightarrow> ring_state \<Rightarrow> bool) \<Rightarrow> node \<Rightarrow> node \<Rightarrow> bool"
  for kstep :: "ring_state \<Rightarrow> ring_state \<Rightarrow> bool" where
  start: "node_reach kstep n n"
| next_step: "node_reach kstep n n' \<Longrightarrow> node_step kstep n' n'' \<Longrightarrow> node_reach kstep n n''"

text \<open>Without the ring it is the process; without the process it is the system of engine and ring.\<close>

lemma node_step_service: "node_step kstep n n' \<Longrightarrow> svc n' = svc n \<or> service_step (svc n) (svc n')"
proof (induction rule: node_step.induct)
  case (front n s)
  then show ?case by (simp add: service_step.front)
next
  case (kernel n k)
  then show ?case by simp
next
  case (log n vacant room rounds fsync_ok open_ok e dir msgs ss p err)
  from service_step.log [OF log.hyps] show ?case by simp
qed

lemma node_step_encs: "node_step kstep n n' \<Longrightarrow> \<exists>bs. encs n' = encs n @ bs"
  by (induction rule: node_step.induct) auto

definition wal_of :: "node \<Rightarrow> wal_system" where
  "wal_of n = \<lparr>eng = srv_eng (sv (svc n)), ker = ring n, base = 0, outs = encs n\<rparr>"

section \<open>The batches of the requests taken\<close>

lemma s2_msgs_snoc:
  "s2_msgs a d l (cs @ [c]) =
     s2_msgs a d l cs @
     (if puts c = 0 then [] else [s2_batch a (foldl serve d (concat cs)) (l + of_nat (puts (concat cs))) c])"
  by (induction a d l cs rule: s2_msgs.induct) (auto simp: add.assoc)

lemma s2_msgs_awaits: "list_all group_ok cs \<Longrightarrow> list_all awaits_durable (s2_msgs (acker_new Sync) d l cs)"
proof (induction cs arbitrary: d l)
  case (Cons c cs)
  then show ?case using s2_batch_awaits [of c d l] by (simp add: group_ok_def)
qed simp

definition stamped :: "batch \<Rightarrow> batch" where
  "stamped b = b\<lparr>out := encoded b\<rparr>"

text \<open>
  \<open>ms\<close> are the batches of the requests taken from the channel; stage 3 has received the first
  ones and the others are on their way.
\<close>

definition taken_inv :: "db \<Rightarrow> u64 \<Rightarrow> request list list \<Rightarrow> node \<Rightarrow> bool" where
  "taken_inv d l cs n \<longleftrightarrow>
     list_all group_ok cs \<and> concat cs = taken (svc n) \<and> list_all req_fits (taken (svc n)) \<and>
     s2_db (srv_s2 (sv (svc n))) = foldl serve d (taken (svc n)) \<and>
     s2_lsn (srv_s2 (sv (svc n))) = l + of_nat (puts (taken (svc n))) \<and>
     unat l + puts (taken (svc n)) < 2 ^ 64"

definition flight_inv :: "batch list \<Rightarrow> node \<Rightarrow> bool" where
  "flight_inv ms n \<longleftrightarrow>
     (\<exists>k \<le> length ms. encs n = map encoded (take k ms) \<and>
        srv_s23 (sv (svc n)) @ s2_held (svc n) = map WalWrite (drop k ms) \<and>
        stock (srv_eng (sv (svc n))) = mset (map stamped (take k ms)))"

definition node_inv :: "db \<Rightarrow> u64 \<Rightarrow> node \<Rightarrow> bool" where
  "node_inv d l n \<longleftrightarrow>
     service_inv (svc n) \<and> srv_mode (sv (svc n)) = Sync \<and> disk_inv (wal_of n) \<and>
     (\<forall>p \<in> set (srv_replies (sv (svc n))). snd p \<noteq> Ok) \<and>
     (\<exists>cs. taken_inv d l cs n \<and> flight_inv (s2_msgs (acker_new Sync) d l cs) n)"

section \<open>Steps of the front\<close>

text \<open>What the log depends on; only a turn of stage 2 changes it.\<close>

definition kept :: "service \<Rightarrow> service \<Rightarrow> bool" where
  "kept s s' \<longleftrightarrow>
     srv_mode (sv s') = srv_mode (sv s) \<and> srv_eng (sv s') = srv_eng (sv s) \<and> srv_s2 (sv s') = srv_s2 (sv s) \<and>
     srv_s23 (sv s') @ s2_held s' = srv_s23 (sv s) @ s2_held s \<and> taken s' = taken s \<and>
     srv_replies (sv s') = srv_replies (sv s)"

lemma node_inv_kept:
  assumes "node_inv d l n" and "kept (svc n) s" and "service_inv s"
  shows "node_inv d l (n\<lparr>svc := s\<rparr>)"
  using assms unfolding node_inv_def taken_inv_def flight_inv_def kept_def wal_of_def by simp

lemma s2_sent_Sync: "p \<in> set (s2_sent (acker_new Sync) d c) \<Longrightarrow> snd p \<noteq> Ok"
proof -
  assume "p \<in> set (s2_sent (acker_new Sync) d c)"
  then obtain i where i: "i < length c" "answered_at (acker_new Sync) Applied (answer_all d c ! i)"
    "p \<in> set (response_of (answer_all d c ! i))"
    by (auto simp: s2_sent_def in_set_conv_nth)
  let ?r = "c ! i" and ?d = "foldl serve d (take i c)"
  have r: "answer_all d c ! i = ?r\<lparr>resp := Some (answer ?d ?r)\<rparr>" using answer_all_nth [OF i(1)] .
  then have "kind ?r = Get" "snd p = answer ?d ?r"
    using i(2,3) by (auto simp: answered_at_def acker_new_def kind_def response_of_def less_eq_ack_point_def split: if_splits)
  then show "snd p \<noteq> Ok" by (simp add: answer_def split: option.splits)
qed

lemma table_node_inv:
  assumes inv: "node_inv d l n" and idle: "s2_todo (svc n) = []" "s2_held (svc n) = []"
    and nw: "unat (s2_lsn (srv_s2 (sv (svc n)))) + MAX_BATCH < 2 ^ 64"
    and turn: "stage2_turn (acker_new (srv_mode (sv (svc n)))) (srv_s2 (sv (svc n))) (srv_pool (sv (svc n))) (srv_items (sv (svc n))) =
      Inr (S2Next s2 pool rest sent msgs)"
    and s: "s = (svc n)\<lparr>sv := (sv (svc n))\<lparr>srv_s2 := s2, srv_pool := pool, srv_items := rest,
                                    srv_replies := srv_replies (sv (svc n)) @ sent\<rparr>,
                      s2_todo := sent, s2_held := msgs, taken := taken (svc n) @ take MAX_BATCH (srv_items (sv (svc n)))\<rparr>"
    and inv': "service_inv s"
  shows "node_inv d l (n\<lparr>svc := s\<rparr>)"
proof -
  let ?v = "sv (svc n)" and ?a = "acker_new Sync"
  let ?c = "take MAX_BATCH (srv_items ?v)"
  obtain cs where m: "srv_mode ?v = Sync" and t: "taken_inv d l cs n" and f: "flight_inv (s2_msgs ?a d l cs) n"
    and sinv: "service_inv (svc n)" using inv by (auto simp: node_inv_def)
  have vinv: "server_inv (server_of (svc n))" and ty: "typed_inv (svc n)" using sinv by (simp_all add: service_inv_def)
  note tt = table_turn [OF vinv turn nw]
  have db: "s2_db (srv_s2 ?v) = foldl serve d (concat cs)" "s2_lsn (srv_s2 ?v) = l + of_nat (puts (concat cs))"
    and tk: "concat cs = taken (svc n)" "unat l + puts (concat cs) < 2 ^ 64" using t by (simp_all add: taken_inv_def)
  have lsn: "unat (s2_lsn (srv_s2 ?v)) = unat l + puts (concat cs)"
    unfolding db(2) using tk(2) by (simp add: unat_word_ariths unat_of_nat)
  have "puts ?c \<le> length ?c" unfolding puts_def by (rule length_filter_le)
  then have nw': "unat l + puts (concat cs @ ?c) < 2 ^ 64" using nw lsn by (simp add: min_def split: if_splits)
  have g: "group_ok ?c" using tt(1,7) by (simp add: group_ok_def)
  have "list_all (\<lambda>r. body_ok (data r)) (srv_items ?v)" using ty by (auto simp: typed_inv_def list_all_iff)
  then have "list_all (\<lambda>r. body_ok (data r)) ?c" by (rule list_all_takeI)
  then have fits: "list_all req_fits ?c" using tt(1) by (auto simp: list_all_iff req_fits_def body_ok_def)
  let ?ms = "s2_msgs ?a d l cs"
  obtain xs where xs: "s2_msgs ?a d l (cs @ [?c]) = ?ms @ xs" "msgs = map WalWrite xs"
    unfolding s2_msgs_snoc tt(4) db m by (cases "puts ?c = 0") simp_all
  obtain k where k: "k \<le> length ?ms" "encs n = map encoded (take k ?ms)" "srv_s23 ?v = map WalWrite (drop k ?ms)"
    "stock (srv_eng ?v) = mset (map stamped (take k ?ms))" using f idle(2) by (auto simp: flight_inv_def)
  have "taken_inv d l (cs @ [?c]) (n\<lparr>svc := s\<rparr>)"
    using t g fits nw' tt(5,6) db by (simp add: taken_inv_def s tk(1) add.assoc)
  moreover have "flight_inv (s2_msgs ?a d l (cs @ [?c])) (n\<lparr>svc := s\<rparr>)"
    unfolding flight_inv_def xs(1) using k xs(2) by (intro exI [of _ k]) (simp add: s)
  moreover have "\<forall>p \<in> set (srv_replies (sv s)). snd p \<noteq> Ok"
    using inv s2_sent_Sync tt(2) m by (auto simp: node_inv_def s)
  moreover have "disk_inv (wal_of (n\<lparr>svc := s\<rparr>))" using inv by (simp add: node_inv_def wal_of_def s)
  ultimately show ?thesis using m inv' unfolding node_inv_def by (auto simp: s)
qed

lemma front_kept:
  assumes "front_step s s'"
  shows "kept s s' \<or>
    (\<exists>s2 pool rest sent msgs. s2_todo s = [] \<and> s2_held s = [] \<and> unat (s2_lsn (srv_s2 (sv s))) + MAX_BATCH < 2 ^ 64 \<and>
       stage2_turn (acker_new (srv_mode (sv s))) (srv_s2 (sv s)) (srv_pool (sv s)) (srv_items (sv s)) =
         Inr (S2Next s2 pool rest sent msgs) \<and>
       s' = s\<lparr>sv := (sv s)\<lparr>srv_s2 := s2, srv_pool := pool, srv_items := rest,
                                    srv_replies := srv_replies (sv s) @ sent\<rparr>,
                      s2_todo := sent, s2_held := msgs, taken := taken s @ take MAX_BATCH (srv_items (sv s))\<rparr>)"
  using assms
proof (induction rule: front_step.induct)
  case (table s s2 pool rest sent msgs)
  then show ?case by blast
qed (simp_all add: kept_def)

lemma front_node_inv:
  assumes "front_step (svc n) s" and "node_inv d l n"
  shows "node_inv d l (n\<lparr>svc := s\<rparr>)"
proof -
  have s: "service_inv s"
    using service_inv_step [OF service_step.front [OF assms(1)]] assms(2) by (simp add: node_inv_def)
  from front_kept [OF assms(1)] show ?thesis
  proof (elim disjE exE conjE)
    assume "kept (svc n) s"
    then show ?thesis using node_inv_kept [OF assms(2)] s by blast
  next
    fix s2 pool rest sent msgs
    assume *: "s2_todo (svc n) = []" "s2_held (svc n) = []" "unat (s2_lsn (srv_s2 (sv (svc n)))) + MAX_BATCH < 2 ^ 64"
      "stage2_turn (acker_new (srv_mode (sv (svc n)))) (srv_s2 (sv (svc n))) (srv_pool (sv (svc n))) (srv_items (sv (svc n))) =
         Inr (S2Next s2 pool rest sent msgs)"
      "s = (svc n)\<lparr>sv := (sv (svc n))\<lparr>srv_s2 := s2, srv_pool := pool, srv_items := rest,
                                    srv_replies := srv_replies (sv (svc n)) @ sent\<rparr>,
                      s2_todo := sent, s2_held := msgs, taken := taken (svc n) @ take MAX_BATCH (srv_items (sv (svc n)))\<rparr>"
    from table_node_inv [OF assms(2) * s] show ?thesis .
  qed
qed

section \<open>Steps of the log\<close>

text \<open>A batch stays below 4 GiB, as the length of a ring entry has 32 bits, and the segment below \<open>2 ^ 64\<close> bytes.\<close>

definition sizes_ok :: "node \<Rightarrow> bool" where
  "sizes_ok n \<longleftrightarrow> (\<forall>bs \<in> set (encs n). length bs < 2 ^ 32) \<and> length (concat (encs n)) < 2 ^ 64"

lemma sizes_ok_step: "node_step kstep n n' \<Longrightarrow> sizes_ok n' \<Longrightarrow> sizes_ok n"
  using node_step_encs by (fastforce simp: sizes_ok_def)

lemma shaped_encode:
  "s2_shaped b \<Longrightarrow> encode_items (out b) (lsn_low b) (items b) = Inr (encoded b, lsn_hi b)"
  by (simp add: s2_shaped_def encode_items_eq encoded_def batch_log_def)

lemma kernel_node_inv:
  assumes "kstep (ring n) k" and "full_writes kstep" and inv: "node_inv d l n"
  shows "node_inv d l (n\<lparr>ring := k\<rparr>)"
proof -
  have "wal_step kstep (wal_of n) ((wal_of n)\<lparr>ker := k\<rparr>)" using assms(1) by (intro wal_step.kernel) (simp add: wal_of_def)
  moreover have "disk_inv (wal_of n)" "small_outs ((wal_of n)\<lparr>ker := k\<rparr>)"
    using inv by (simp_all add: node_inv_def disk_inv_def small_outs_def)
  ultimately have "disk_inv ((wal_of n)\<lparr>ker := k\<rparr>)" using disk_inv_reach [OF _ assms(2)] by (meson wal_reach.intros)
  then show ?thesis using inv by (simp add: node_inv_def wal_of_def taken_inv_def flight_inv_def)
qed

text \<open>An iteration keeps the order of the batches: it takes the next one or none.\<close>

lemma log_turn_flight:
  assumes disk: "disk_inv (wal_of n)" and flight: "flight_inv ms n"
    and ms: "list_all awaits_durable ms" "list_all s2_shaped ms"
    and full: "full_writes kstep" and slab: "slab_contract vacant"
    and turn: "wal_turn vacant room (ring_cq (ring n)) rounds fsync_ok open_ok (srv_dir (sv (svc n))) (srv_eng (sv (svc n)))
      (srv_s23 (sv (svc n))) = Inr (Some (e, dir, msgs, ss, p))"
    and n': "n' = n\<lparr>svc := after_log e dir msgs (svc n), ring := (ring n)\<lparr>ring_sq := ring_sq (ring n) @ ss, ring_cq := []\<rparr>,
                 encs := encs n @ received (srv_s23 (sv (svc n)))\<rparr>"
    and ok: "sizes_ok n'"
  shows "disk_inv (wal_of n') \<and> flight_inv ms n'"
proof -
  let ?s = "wal_of n" and ?e = "srv_eng (sv (svc n))" and ?q = "srv_s23 (sv (svc n))"
  obtain k where k: "k \<le> length ms" "encs n = map encoded (take k ms)" "?q @ s2_held (svc n) = map WalWrite (drop k ms)"
    "stock ?e = mset (map stamped (take k ms))" using flight by (auto simp: flight_inv_def)
  have w: "eng ?s = ?e" "ker ?s = ring n" "outs ?s = encs n" by (simp_all add: wal_of_def)
  have eng: "srv_eng (sv (svc n')) = e\<lparr>recycle_tx := []\<rparr>" "srv_s23 (sv (svc n')) = msgs" "s2_held (svc n') = s2_held (svc n)"
    by (simp_all add: n' after_log_def)
  show ?thesis
  proof (cases ?q)
    case Nil
    then have "wal_turn vacant room (ring_cq (ker ?s)) rounds fsync_ok open_ok (srv_dir (sv (svc n))) (eng ?s) [] =
        Inr (Some (e, dir, msgs, ss, p))" using turn w by simp
    note t = idle_turn [OF this disk full slab]
    have "wal_of n' = ?s\<lparr>eng := e\<lparr>recycle_tx := []\<rparr>, ker := (ker ?s)\<lparr>ring_sq := ring_sq (ker ?s) @ ss, ring_cq := []\<rparr>\<rparr>"
      using Nil by (simp add: n' wal_of_def after_log_def received_def)
    then have "disk_inv (wal_of n')" using disk_inv_recycle [OF t(1), of "[]"] by (simp add: wal_of_def)
    moreover have "flight_inv ms n'"
      unfolding flight_inv_def eng using k t(2,3) Nil w by (intro exI [of _ k]) (simp add: n' received_def)
    ultimately show ?thesis by blast
  next
    case (Cons x rest)
    then have drop: "map WalWrite (drop k ms) = x # rest @ s2_held (svc n)" using k(3) by simp
    then have kl: "k < length ms" by (metis drop_all list.distinct(1) list.simps(8) not_less)
    then have dk: "drop k ms = ms ! k # drop (Suc k) ms" by (simp add: Cons_nth_drop_Suc)
    let ?b = "ms ! k"
    have x: "x = WalWrite ?b" "rest @ s2_held (svc n) = map WalWrite (drop (Suc k) ms)" using drop dk by simp_all
    have b: "awaits_durable ?b" "encode_items (out ?b) (lsn_low ?b) (items ?b) = Inr (encoded ?b, lsn_hi ?b)"
      using ms kl shaped_encode by (simp_all add: list_all_length)
    have encs: "encs n' = encs n @ [encoded ?b]" using Cons x by (simp add: n' received_def)
    have "unat (seg_offset (seg ?e)) = length (concat (encs n))"
      using disk by (simp add: disk_inv_def wal_inv_def data_inv_def wal_of_def)
    then have small: "length (encoded ?b) < 2 ^ 32" "unat (seg_offset (seg (eng ?s))) + length (encoded ?b) < 2 ^ 64"
      using ok encs w by (simp_all add: sizes_ok_def)
    have "wal_turn vacant room (ring_cq (ker ?s)) rounds fsync_ok open_ok (srv_dir (sv (svc n))) (eng ?s) (WalWrite ?b # rest) =
        Inr (Some (e, dir, msgs, ss, p))" using turn w Cons x by simp
    note t = receive_turn [OF this disk full slab b small]
    have "wal_of n' = ?s\<lparr>eng := e\<lparr>recycle_tx := []\<rparr>, ker := (ker ?s)\<lparr>ring_sq := ring_sq (ker ?s) @ ss, ring_cq := []\<rparr>,
        outs := outs ?s @ [encoded ?b]\<rparr>"
      using encs by (simp add: n' wal_of_def after_log_def)
    then have "disk_inv (wal_of n')" using disk_inv_recycle [OF t(1), of "[]"] by (simp add: wal_of_def)
    moreover have "flight_inv ms n'"
      unfolding flight_inv_def eng using k(2,4) kl t(2,3) x(2) encs w
      by (intro exI [of _ "Suc k"]) (simp add: take_Suc_conv_app_nth stamped_def)
    ultimately show ?thesis by blast
  qed
qed

lemma node_inv_step:
  "node_step kstep n n' \<Longrightarrow> full_writes kstep \<Longrightarrow> node_inv d l n \<Longrightarrow> sizes_ok n' \<Longrightarrow> node_inv d l n'"
proof (induction rule: node_step.induct)
  case (front n s)
  then show ?case using front_node_inv by blast
next
  case (kernel n k)
  then show ?case using kernel_node_inv by blast
next
  case (log n vacant room rounds fsync_ok open_ok e dir msgs ss p err)
  let ?n = "n\<lparr>svc := after_log e dir msgs (svc n), ring := (ring n)\<lparr>ring_sq := ring_sq (ring n) @ ss, ring_cq := []\<rparr>,
                 encs := encs n @ received (srv_s23 (sv (svc n)))\<rparr>"
  obtain cs where t: "taken_inv d l cs n" and f: "flight_inv (s2_msgs (acker_new Sync) d l cs) n"
    using log.prems(2) by (auto simp: node_inv_def)
  have g: "list_all group_ok cs" using t by (simp add: taken_inv_def)
  have "disk_inv (wal_of ?n) \<and> flight_inv (s2_msgs (acker_new Sync) d l cs) ?n"
    using log_turn_flight [OF _ f s2_msgs_awaits [OF g] s2_msgs_shaped [OF g] log.prems(1) log.hyps(3,4) refl log.prems(3)]
      log.prems(2) by (simp add: node_inv_def)
  moreover have "service_inv (svc ?n)"
    using service_inv_step [OF service_step.log [OF log.hyps]] log.prems(2) by (simp add: node_inv_def)
  moreover have "taken_inv d l cs ?n" using t by (simp add: taken_inv_def after_log_def)
  ultimately show ?case using log.prems(2) unfolding node_inv_def by (auto simp: after_log_def)
qed

lemma node_inv_reach:
  "node_reach kstep n n' \<Longrightarrow> full_writes kstep \<Longrightarrow> node_inv d l n \<Longrightarrow> sizes_ok n' \<Longrightarrow> node_inv d l n'"
proof (induction rule: node_reach.induct)
  case (next_step n n' n'')
  then show ?case using node_inv_step sizes_ok_step by blast
qed

lemma node_inv_start:
  assumes good: "good_dir dir d l" and new: "server_start ring_ok open_ok Sync dir = Inr s0"
  shows "node_inv d l (node_new s0)"
proof -
  have rec: "recover dir = Inr (d, l)" using good by (simp add: good_dir_def)
  then obtain e dir' where e: "wal_engine_new ring_ok open_ok RING_DEPTH (dir\<lparr>dir_exists := True\<rparr>) l Sync (acker_new Sync) = Inr (e, dir')"
    and s: "s0 = \<lparr>srv_mode = Sync, srv_items = [], srv_s2 = stage2_new d l, srv_pool = replicate N_BUFFERS batch_new,
                 srv_s23 = [], srv_eng = e, srv_dir = dir', srv_replies = []\<rparr>"
    using new by (auto simp: server_start_def obind_eq_Inr)
  have "dir_file (segment_path l) (dir\<lparr>dir_exists := True\<rparr>) = None" using good by (simp add: good_dir_def dir_file_def)
  then have "wal_of (node_new s0) = wal_start e"
    using new_engine_base [OF e] by (simp add: wal_of_def node_new_def service_new_def s wal_start_def)
  then have "disk_inv (wal_of (node_new s0))"
    using wal_inv_start [OF e] order_inv_start [OF e] by (simp add: disk_inv_def small_outs_def wal_start_def)
  moreover have "taken_inv d l [] (node_new s0)"
    using unsigned_less [of l] by (simp add: taken_inv_def node_new_def service_new_def s stage2_new_def)
  moreover have "flight_inv (s2_msgs (acker_new Sync) d l []) (node_new s0)"
    using wal_engine_new_fields [OF e] by (simp add: flight_inv_def node_new_def service_new_def s stock_def held_batches_def)
  ultimately show ?thesis
    using service_start(1) [OF new] unfolding node_inv_def
    by (intro conjI exI [of _ "[]"]) (simp_all add: node_new_def service_new_def s)
qed

section \<open>What was acknowledged\<close>

text \<open>The connections of the PUTs acknowledged, and those of the PUTs in a list of requests.\<close>

definition oks :: "(nat \<times> resp) list \<Rightarrow> nat list" where
  "oks ps = map fst (filter (\<lambda>p. snd p = Ok) ps)"

definition put_conns :: "request list \<Rightarrow> nat list" where
  "put_conns rs = map reply (filter is_put rs)"

lemma oks_append [simp]: "oks (xs @ ys) = oks xs @ oks ys" "oks [] = []"
  by (simp_all add: oks_def)

lemma put_conns_simps [simp]:
  "put_conns (xs @ ys) = put_conns xs @ put_conns ys" "put_conns [] = []"
  "put_conns (r # rs) = (if is_put r then [reply r] else []) @ put_conns rs"
  by (simp_all add: put_conns_def)

lemma length_put_conns [simp]: "length (put_conns rs) = puts rs"
  by (simp add: put_conns_def puts_def)

definition batch_oks :: "batch \<Rightarrow> nat list" where
  "batch_oks b = oks (concat (map response_of (items b)))"

lemma oks_owed: "oks (owed_to bs) = concat (map batch_oks bs)"
  by (induction bs) (simp_all add: owed_to_def batch_oks_def)

lemma batch_oks_stamped [simp]: "batch_oks (stamped b) = batch_oks b"
  by (simp add: batch_oks_def stamped_def)

lemma batch_oks_s2: "batch_oks (s2_batch (acker_new Sync) d l c) = put_conns c"
proof -
  have "oks (concat (map (response_of \<circ> settle (acker_new Sync) Applied) (answer_all d c))) = put_conns c"
  proof (induction c arbitrary: d)
    case Nil
    then show ?case by simp
  next
    case (Cons r c)
    have "oks (response_of (settle (acker_new Sync) Applied (r\<lparr>resp := Some (answer d r)\<rparr>))) =
        (if is_put r then [reply r] else [])"
      by (cases "kind r") (auto simp: settle_def answered_at_def acker_new_def response_of_def kind_def answer_def oks_def
          is_put_def less_eq_ack_point_def split: option.splits)
    then show ?case using Cons.IH [of "serve d r"] by simp
  qed
  then show ?thesis by (simp add: batch_oks_def s2_batch_def)
qed

lemma msgs_oks: "concat (map batch_oks (s2_msgs (acker_new Sync) d l cs)) = put_conns (concat cs)"
proof (induction cs arbitrary: d l)
  case Nil
  then show ?case by simp
next
  case (Cons c cs)
  have "puts c = 0 \<Longrightarrow> put_conns c = []" by (metis length_0_conv length_put_conns)
  then show ?case using Cons.IH batch_oks_s2 [of d l c] by simp
qed

lemma msgs_oks_length:
  "list_all (\<lambda>b. length (batch_oks b) = length (batch_log b)) (s2_msgs (acker_new Sync) d l cs)"
  by (induction cs arbitrary: d l) (simp_all add: batch_oks_s2 batch_log_s2)

lemma oks_length:
  "list_all (\<lambda>b. length (batch_oks b) = length (batch_log b)) bs \<Longrightarrow>
   length (concat (map batch_oks bs)) = length (concat (map batch_log bs))"
  by (induction bs) simp_all

text \<open>The first batches acknowledge the first PUTs.\<close>

lemma first_oks:
  fixes d l cs q
  defines "ms \<equiv> s2_msgs (acker_new Sync) d l cs"
  shows "concat (map batch_oks (take q ms)) = take (length (concat (map batch_log (take q ms)))) (put_conns (concat cs))"
proof -
  have "put_conns (concat cs) = concat (map batch_oks (take q ms)) @ concat (map batch_oks (drop q ms))"
    unfolding msgs_oks [of d l cs, symmetric] ms_def [symmetric] by (simp flip: concat_append map_append)
  moreover have "length (concat (map batch_oks (take q ms))) = length (concat (map batch_log (take q ms)))"
    using msgs_oks_length [of d l cs] by (intro oks_length list_all_takeI) (simp add: ms_def)
  ultimately show ?thesis by simp
qed

lemma put_conns_take: "put_conns (take i rs) = take (puts (take i rs)) (put_conns rs)"
  by (metis append_eq_conv_conj append_take_drop_id length_put_conns put_conns_simps(1))

text \<open>The batches of a run have different encodings: each starts with a sequence number of its own.\<close>

lemma encoded_start:
  assumes "list_all record_fits (batch_log b)" and "batch_log b \<noteq> []"
  shows "\<exists>n. decode_record (encoded b) = Inr (Some \<lparr>rec_lsn = fst (hd (batch_log b)), wire_body = snd (hd (batch_log b)), consumed = n\<rparr>)"
proof -
  obtain x xs where x: "batch_log b = x # xs" using assms(2) by (cases "batch_log b") auto
  then have "encoded b = record_bytes (fst x, snd x) @ concat (map record_bytes xs)" by (simp add: encoded_def)
  moreover have "record_fits (fst x, snd x)" using assms(1) x by simp
  ultimately show ?thesis using decode_record_extend [OF decode_record_bytes] x by fastforce
qed

lemma first_lsn:
  fixes d l cs i
  defines "ms \<equiv> s2_msgs (acker_new Sync) d l cs"
  assumes nw: "unat l + puts (concat cs) < 2 ^ 64" and i: "i < length ms" and ne: "batch_log (ms ! i) \<noteq> []"
  shows "unat (fst (hd (batch_log (ms ! i)))) = unat l + Suc (length (concat (map batch_log (take i ms))))"
proof -
  let ?p = "length (concat (map batch_log (take i ms)))"
  have "log_of l (concat cs) = concat (map batch_log (take i ms)) @ concat (map batch_log (drop i ms))"
    unfolding s2_msgs_log [of "acker_new Sync" d, symmetric] ms_def [symmetric] by (simp flip: concat_append map_append)
  also have "drop i ms = ms ! i # drop (Suc i) ms" using i by (simp add: Cons_nth_drop_Suc)
  finally have log: "log_of l (concat cs) = concat (map batch_log (take i ms)) @ batch_log (ms ! i) @ concat (map batch_log (drop (Suc i) ms))"
    by simp
  then have "log_of l (concat cs) ! ?p = hd (batch_log (ms ! i))" using ne by (simp add: nth_append hd_conv_nth)
  moreover have "?p < puts (concat cs)"
    using arg_cong [OF log, of length] ne by (cases "batch_log (ms ! i)") simp_all
  ultimately show ?thesis using log_of_lsn [OF nw] by metis
qed

lemma msgs_log_ne: "list_all (\<lambda>b. batch_log b \<noteq> []) (s2_msgs a d l cs)"
proof (induction cs arbitrary: d l)
  case (Cons c cs)
  have "puts c \<noteq> 0 \<Longrightarrow> log_of l c \<noteq> []" by (metis length_log_of list.size(3))
  then show ?case using Cons by (simp add: batch_log_s2)
qed simp

lemma encoded_ne: "batch_log b \<noteq> [] \<Longrightarrow> encoded b \<noteq> []"
proof (cases "batch_log b")
  case (Cons x xs)
  then have "20 \<le> length (encoded b)" by (cases x) (simp add: encoded_def)
  then show ?thesis by auto
qed simp

lemma encoded_distinct:
  fixes d l cs
  defines "ms \<equiv> s2_msgs (acker_new Sync) d l cs"
  assumes nw: "unat l + puts (concat cs) < 2 ^ 64" and fits: "list_all req_fits (concat cs)"
  shows "distinct (map encoded ms)"
proof -
  have "list_all record_fits (log_of l (concat cs))"
    using log_of_entry_ok [OF fits, of l] by (auto simp: list_all_iff entry_ok_def)
  then have "list_all record_fits (concat (map batch_log ms))" by (simp add: s2_msgs_log ms_def)
  then have rf: "\<And>i. i < length ms \<Longrightarrow> list_all record_fits (batch_log (ms ! i))" by (auto simp: list_all_iff)
  have ne: "\<And>i. i < length ms \<Longrightarrow> batch_log (ms ! i) \<noteq> []"
    using msgs_log_ne [of "acker_new Sync" d l cs] by (simp add: ms_def list_all_length)
  have "encoded (ms ! i) \<noteq> encoded (ms ! j)" if ij: "i < j" "j < length ms" for i j
  proof
    assume "encoded (ms ! i) = encoded (ms ! j)"
    then have "fst (hd (batch_log (ms ! i))) = fst (hd (batch_log (ms ! j)))"
      using encoded_start [OF rf ne, of i] encoded_start [OF rf ne, of j] ij by fastforce
    moreover have "take j ms = take i ms @ ms ! i # drop (Suc i) (take j ms)"
      using ij id_take_nth_drop [of i "take j ms"] by simp
    then have "concat (map batch_log (take j ms)) =
        concat (map batch_log (take i ms)) @ batch_log (ms ! i) @ concat (map batch_log (drop (Suc i) (take j ms)))"
      by (metis concat.simps(2) concat_append list.simps(9) map_append)
    then have "length (concat (map batch_log (take i ms))) < length (concat (map batch_log (take j ms)))"
      using ne [of i] ij by simp
    ultimately show False
      using first_lsn [OF nw, of i d] first_lsn [OF nw, of j d] ne ij unfolding ms_def by simp
  qed
  then show ?thesis unfolding distinct_conv_nth length_map by (metis nat_neq_iff nth_map)
qed

lemma distinct_mset_le:
  assumes "distinct xs" and "set xs \<subseteq> set ys"
  shows "mset xs \<subseteq># mset ys"
proof (rule mset_subset_eqI)
  fix x
  have "count (mset xs) x = (if x \<in> set xs then 1 else 0)" using assms(1) unfolding distinct_count_atmost_1 by blast
  then show "count (mset xs) x \<le> count (mset ys) x" using assms(2) by (auto simp: Suc_le_eq)
qed

lemma concat_mset_le:
  assumes "mset xs \<subseteq># mset ys"
  shows "mset (concat (map f xs)) \<subseteq># mset (concat (map f ys))"
proof -
  obtain zs where "mset ys = mset xs + mset zs" using assms ex_mset by (metis subset_mset.le_iff_add)
  moreover have "mset (concat (map f vs)) = \<Sum>\<^sub># (image_mset (mset \<circ> f) (mset vs))" for vs
    by (induction vs) simp_all
  ultimately show ?thesis by simp
qed

text \<open>The batches acknowledged are among the first ones, as far as the stable prefix of the file reaches.\<close>

lemma acknowledged_first:
  assumes inv: "node_inv d l n" and t: "taken_inv d l cs n" and f: "flight_inv (s2_msgs (acker_new Sync) d l cs) n"
  defines "ms \<equiv> s2_msgs (acker_new Sync) d l cs"
  shows "\<exists>m q. stable (ring n) = region 0 (take m (concat (encs n))) \<and> q \<le> length (encs n) \<and>
    length (concat (take q (encs n))) \<le> m \<and>
    mset (oks (owed_to (finished (srv_eng (sv (svc n)))))) \<subseteq># mset (concat (map batch_oks (take q ms)))"
proof -
  let ?e = "srv_eng (sv (svc n))"
  have g: "list_all group_ok cs" "list_all req_fits (concat cs)" "unat l + puts (concat cs) < 2 ^ 64"
    using t by (simp_all add: taken_inv_def)
  obtain k where k: "k \<le> length ms" "encs n = map encoded (take k ms)" "stock ?e = mset (map stamped (take k ms))"
    using f by (auto simp: flight_inv_def ms_def)
  have "\<forall>bs \<in> set (encs n). bs \<noteq> []"
    using msgs_log_ne [of "acker_new Sync" d l cs] encoded_ne
    by (auto simp: k(2) ms_def list_all_iff dest!: in_set_takeD)
  moreover have "wal_inv (wal_of n)" "order_inv (wal_of n)" using inv by (simp_all add: node_inv_def disk_inv_def)
  ultimately obtain m where m: "stable (ring n) = region 0 (take m (concat (encs n)))"
    and fin: "\<forall>b \<in> set (finished ?e). \<exists>i < length (encs n). out b = encs n ! i \<and> length (concat (take (Suc i) (encs n))) \<le> m"
    using finished_prefix [of "wal_of n"] by (auto simp: wal_of_def)
  let ?P = "\<lambda>q. q \<le> length (encs n) \<and> length (concat (take q (encs n))) \<le> m"
  obtain q where q: "?P q" "\<forall>j. ?P j \<longrightarrow> j \<le> q"
    using ex_has_greatest_nat [of ?P 0 id "Suc (length (encs n))"] by auto
  have out: "map out (map stamped (take k ms)) = encs n" by (simp add: k(2) stamped_def)
  have "distinct (encs n)" using encoded_distinct [OF g(3,2), of d] by (simp add: k(2) ms_def take_map [symmetric])
  then have d: "distinct (map stamped (take k ms))" using out by (metis distinct_map)
  have le: "mset (finished ?e) \<subseteq># mset (map stamped (take k ms))" unfolding k(3) [symmetric] stock_def by simp
  have "distinct (finished ?e)"
  proof -
    have "count (mset (finished ?e)) x \<le> count (mset (map stamped (take k ms))) x" for x
      using le by (rule mset_subset_eq_count)
    then have c: "count (mset (finished ?e)) x \<le> 1" for x
      using d unfolding distinct_count_atmost_1 by (metis le_zero_eq nat_le_linear)
    then have "count (mset (finished ?e)) x = (if x \<in> set (finished ?e) then 1 else 0)" for x
      using c [of x] by (auto simp: count_mset_0_iff le_Suc_eq)
    then show ?thesis by (simp add: distinct_count_atmost_1)
  qed
  moreover have "set (finished ?e) \<subseteq> set (map stamped (take q ms))"
  proof
    fix b assume b: "b \<in> set (finished ?e)"
    then have "b \<in> set (map stamped (take k ms))" using set_mset_mono [OF le] by auto
    then obtain j where j: "j < length (encs n)" "b = map stamped (take k ms) ! j" using k(2) by (auto simp: in_set_conv_nth)
    obtain i where i: "i < length (encs n)" "out b = encs n ! i" "length (concat (take (Suc i) (encs n))) \<le> m"
      using fin b by blast
    have "out b = encs n ! j" using j out by (metis length_map nth_map)
    then have "i = j" using i(1,2) j(1) \<open>distinct (encs n)\<close> by (simp add: nth_eq_iff_index_eq)
    then have "j < q" using q(2) i(1,3) by (metis Suc_le_eq)
    then have "b = map stamped (take q ms) ! j" "j < length (map stamped (take q ms))" using j k(1,2) q(1) by simp_all
    then show "b \<in> set (map stamped (take q ms))" using nth_mem by metis
  qed
  ultimately have "mset (finished ?e) \<subseteq># mset (map stamped (take q ms))" by (rule distinct_mset_le)
  from concat_mset_le [OF this, of batch_oks] have
    "mset (oks (owed_to (finished ?e))) \<subseteq># mset (concat (map batch_oks (take q ms)))"
    by (simp add: oks_owed o_def)
  then show ?thesis using m q(1) by blast
qed

section \<open>A run\<close>

text \<open>From an empty directory: four clients connect and the last one sends a PUT, which reaches stage 3.\<close>

definition put_sent :: "wal_engine \<Rightarrow> dir_state \<Rightarrow> service \<Rightarrow> bool" where
  "put_sent e dir s \<longleftrightarrow>
     srv_eng (sv s) = e \<and> srv_dir (sv s) = dir \<and> srv_s23 (sv s) = [WalWrite (put_batch 1)] \<and> taken s = [put_req] \<and> sends s = [] \<and>
     s3_todo s = [] \<and> s3_free s = [] \<and> length (conns s) = 4 \<and> c_writing (conns s ! 3) \<and> c_chan (conns s ! 3) = []"

lemma node_reach_trans: "node_reach kstep n' n'' \<Longrightarrow> node_reach kstep n n' \<Longrightarrow> node_reach kstep n n''"
  by (induction rule: node_reach.induct) (auto intro: node_reach.next_step)

lemma node_reach_front: "node_reach kstep n n' \<Longrightarrow> front_step (svc n') s \<Longrightarrow> node_reach kstep n (n'\<lparr>svc := s\<rparr>)"
  by (blast intro: node_reach.next_step node_step.front)

lemma put_arrives:
  assumes s0: "s0 = \<lparr>srv_mode = Sync, srv_items = [], srv_s2 = stage2_new db_new 1, srv_pool = replicate N_BUFFERS batch_new,
                 srv_s23 = [], srv_eng = e, srv_dir = dir, srv_replies = []\<rparr>"
  shows "\<exists>s. node_reach kstep (node_new s0) ((node_new s0)\<lparr>svc := s\<rparr>) \<and> put_sent e dir s"
proof -
  let ?n = "node_new s0" and ?c = connection_new and ?f = "frame_bytes (req_body Put [1] [7])"
  let ?s = "\<lambda>cs. (service_new s0)\<lparr>conns := cs\<rparr>"
  have acc: "front_step (?s cs) (?s (cs @ [?c]))" for cs using front_step.accept [of "?s cs"] by simp
  have svc: "svc ?n = ?s []" by (simp add: node_new_def service_new_def)
  have n0: "node_reach kstep ?n (?n\<lparr>svc := ?s []\<rparr>)" using node_reach.start [of kstep ?n] svc by (simp add: node_new_def service_new_def)
  have step: "node_reach kstep ?n (?n\<lparr>svc := t\<rparr>)" if "node_reach kstep ?n (?n\<lparr>svc := s\<rparr>)" "front_step s t" for s t
    using node_reach_front [OF that(1)] that(2) by simp
  have r4: "node_reach kstep ?n (?n\<lparr>svc := ?s [?c, ?c, ?c, ?c]\<rparr>)"
    using step [OF step [OF step [OF step [OF n0 acc] acc] acc] acc] by simp
  let ?s4 = "?s [?c, ?c, ?c, ?c]" and ?body = "req_body Put [1] [7]"
  let ?a = "conn_arrive ?f ?c" and ?h = "?c\<lparr>c_arrived := ?f, c_handed := [?body]\<rparr>"
  let ?s5 = "?s [?c, ?c, ?c, ?a]"
  have s5: "front_step ?s4 ?s5" using front_step.arrive [of 3 ?s4 ?f] by (simp add: connection_new_def)
  have "body_ok ?body" by (simp add: body_ok_def MAX_FRAME_def req_body_def)
  then have read: "reader_step ?a = ReaderHas ?body ?h" using frame_arrives [of ?c ?body] by (simp add: connection_new_def)
  have req: "request_of 3 ?body = put_req" by (simp add: request_of_def put_req_def)
  let ?s6 = "?s5\<lparr>sv := s0\<lparr>srv_items := [put_req]\<rparr>, conns := [?c, ?c, ?c, ?h], requests := [put_req]\<rparr>"
  have s6: "front_step ?s5 ?s6"
    using front_step.read [of 3 ?s5 ?body ?h] read req
    by (simp add: service_new_def s0 REQ_BOUND_def conn_arrive_def connection_new_def)
  let ?x = "(stage2_new db_new 1)\<lparr>s2_db := serve db_new put_req, s2_lsn := 2, recycled_batch := None\<rparr>"
  have "obtain_batch (stage2_new db_new 1) (replicate N_BUFFERS batch_new) = Some (batch_new, replicate 31 batch_new)"
    by (simp add: obtain_batch_def stage2_new_def N_BUFFERS_def numeral_eq_Suc)
  from put_turn [OF this] have turn: "stage2_turn (acker_new (srv_mode (sv ?s6))) (srv_s2 (sv ?s6)) (srv_pool (sv ?s6)) (srv_items (sv ?s6)) =
      Inr (S2Next ?x (replicate 31 batch_new) [] [] [WalWrite (put_batch 1)])"
    by (simp add: s0 stage2_new_def)
  let ?s7 = "?s6\<lparr>sv := (sv ?s6)\<lparr>srv_s2 := ?x, srv_pool := replicate 31 batch_new, srv_items := [], srv_replies := []\<rparr>,
      s2_held := [WalWrite (put_batch 1)], taken := [put_req]\<rparr>"
  have s7: "front_step ?s6 ?s7"
    using front_step.table [OF _ _ _ turn] by (simp add: service_new_def s0 stage2_new_def MAX_BATCH_def)
  let ?s8 = "?s7\<lparr>sv := (sv ?s7)\<lparr>srv_s23 := [WalWrite (put_batch 1)]\<rparr>, s2_held := []\<rparr>"
  have s8: "front_step ?s7 ?s8" using front_step.hand_over [of ?s7] by (simp add: service_new_def s0)
  have "node_reach kstep ?n (?n\<lparr>svc := ?s8\<rparr>)" by (rule step [OF step [OF step [OF step [OF r4 s5] s6] s7] s8])
  moreover have "put_sent e dir ?s8" by (simp add: put_sent_def service_new_def s0 connection_new_def)
  ultimately show ?thesis by blast
qed

text \<open>Stage 3 writes and syncs it, then the client is sent its response.\<close>

lemma sync_acks:
  assumes b: "awaits_durable b" and rt: "e = engine_with_one n sg b buf"
  shows "\<exists>e' pk. wal_turn next_key 128 [(1, int (length buf)), (2, 0)] [] True True dir e [] = Inr (Some (e', dir, [], [], pk)) \<and>
    replies e = [] \<and> replies e' = owed_to [b\<lparr>out := buf\<rparr>]"
proof -
  let ?e1 = "e\<lparr>spin_budget := spin_budget e - 1\<rparr>"
  have np: "\<not> should_park e" by (simp add: rt should_park_def engine_with_one_def)
  have "plan_fsync ?e1 = ?e1" by (simp add: rt plan_fsync_def should_fsync_def engine_with_one_def)
  then have hp: "handle_pending next_key 128 (plan_fsync ?e1) = Inr (?e1, [], False)"
    by (simp add: handle_pending_def rt engine_with_one_def)
  obtain e' where reap: "reap_cqes ?e1 [(1, int (length buf)), (2, 0)] = Inr e'" and e': "replies e' = owed_to [b\<lparr>out := buf\<rparr>]"
    using b unfolding rt by (simp add: reap_whole_write reap_sync engine_with_one_def)
  have "wal_turn next_key 128 [(1, int (length buf)), (2, 0)] [] True True dir e [] = Inr (Some (e', dir, [], [], park_decision e' False))"
    unfolding wal_turn_idle [OF np] hp obind_Inr prod.case reap by (rule refl)
  then show ?thesis using e' by (auto simp: rt engine_with_one_def)
qed

text \<open>The write and the fsync of the batch have completed and are not reaped yet.\<close>

definition put_written :: "segment \<Rightarrow> node \<Rightarrow> bool" where
  "put_written sg n \<longleftrightarrow>
     (let buf = record_bytes (2, req_body Put [1] [7]); s = svc n in
      srv_eng (sv s) = engine_with_one 128 sg (put_batch 1) buf \<and> srv_s23 (sv s) = [] \<and>
      ring_cq (ring n) = [(1, int (length buf)), (2, 0)] \<and> encs n = [buf] \<and> taken s = [put_req] \<and> sends s = [] \<and>
      s3_todo s = [] \<and> s3_free s = [] \<and> length (conns s) = 4 \<and> c_writing (conns s ! 3) \<and> c_chan (conns s ! 3) = [])"

lemma put_logged:
  assumes new: "wal_engine_new ring_ok open_ok 128 dir0 1 Sync (acker_new Sync) = Inr (e, dir)"
    and n: "put_sent e dir (svc n)" "ring n = \<lparr>ring_sq = [], ring_cq = [], cache = Map.empty, stable = Map.empty\<rparr>" "encs n = []"
  shows "\<exists>n'. node_reach whole_ring n n' \<and> put_written (seg e) n'"
proof -
  let ?b = "put_batch 1" and ?buf = "record_bytes (2, req_body Put [1] [7])"
  let ?fd = "seg_fd (seg e)" and ?o = "seg_offset (seg e)" and ?e1 = "engine_with_one 128 (seg e) ?b ?buf"
  let ?ss = "[(1, SqeWrite ?fd ?buf ?o), (2, SqeFsyncDrain ?fd)]"
  have b: "lsn_low ?b = 1" "out ?b = []" by (simp_all add: put_batch_def)
  have enc: "encode_items (out ?b) 1 (items ?b) = Inr (?buf, 2)" using put_batch_facts(2) [of 1] b by simp
  have len: "length ?buf = 27" by (rule record_27)
  then have ne: "?buf \<noteq> []" "length ?buf < 2 ^ 31" by auto
  have p: "srv_eng (sv (svc n)) = e" "srv_dir (sv (svc n)) = dir" "srv_s23 (sv (svc n)) = [WalWrite ?b]"
    "s3_todo (svc n) = []" "s3_free (svc n) = []" using n(1) by (simp_all add: put_sent_def)
  have rcv: "received [WalWrite ?b] = [?buf]"
    unfolding received_def using encoded_s2_batch [of "acker_new Sync" db_new 1 "[put_req]"] by (simp add: put_batch_s2)
  let ?k1 = "\<lparr>ring_sq = ?ss, ring_cq = [], cache = Map.empty, stable = Map.empty\<rparr>"
  let ?n1 = "n\<lparr>svc := after_log ?e1 dir [] (svc n), ring := ?k1, encs := [?buf]\<rparr>"
  have t1: "wal_turn next_key 128 (ring_cq (ring n)) [] True True (srv_dir (sv (svc n))) (srv_eng (sv (svc n))) (srv_s23 (sv (svc n))) =
      Inr (Some (?e1, dir, [], ?ss, park_decision ?e1 True))"
    using first_turn [OF new _ b(1) enc ne, of "[]" True True] n(2) p by simp
  from node_step.log [OF p(4,5) next_key_slab t1 finish_turn_ok, of whole_ring]
  have s1: "node_step whole_ring n ?n1" using n(2,3) p(3) rcv by - (cases n, simp)
  let ?k2 = "\<lparr>ring_sq = [(2, SqeFsyncDrain ?fd)], ring_cq = [(1, int (length ?buf))], cache = region (unat ?o) ?buf, stable = Map.empty\<rparr>"
  let ?k3 = "\<lparr>ring_sq = [], ring_cq = [(1, int (length ?buf)), (2, 0)], cache = region (unat ?o) ?buf, stable = region (unat ?o) ?buf\<rparr>"
  have "completes 0 (int (length ?buf)) ?k1 ?k2" "completes 0 0 ?k2 ?k3" by (simp_all add: completes_def)
  then have "whole_ring ?k1 ?k2" "whole_ring ?k2 ?k3" by (fastforce simp: whole_ring_def)+
  then have "node_step whole_ring ?n1 (?n1\<lparr>ring := ?k2\<rparr>)" "node_step whole_ring (?n1\<lparr>ring := ?k2\<rparr>) (?n1\<lparr>ring := ?k3\<rparr>)"
    using node_step.kernel [of whole_ring ?n1 ?k2] node_step.kernel [of whole_ring "?n1\<lparr>ring := ?k2\<rparr>" ?k3] by simp_all
  then have "node_reach whole_ring n (?n1\<lparr>ring := ?k3\<rparr>)" using s1 by (meson node_reach.intros)
  moreover have "put_written (seg e) (?n1\<lparr>ring := ?k3\<rparr>)"
    using n(1) wal_engine_new_fields [OF new] by (simp add: put_written_def put_sent_def after_log_def engine_with_one_def)
  ultimately show ?thesis by blast
qed

lemma put_acknowledged:
  assumes "put_written sg n"
  shows "\<exists>n'. node_reach whole_ring n n' \<and> sends (svc n') = [(3, Ok)] \<and> taken (svc n') = [put_req] \<and>
    encs n' = [record_bytes (2, req_body Put [1] [7])]"
proof -
  let ?b = "put_batch 1" and ?buf = "record_bytes (2, req_body Put [1] [7])" and ?dir = "srv_dir (sv (svc n))"
  let ?e1 = "engine_with_one 128 sg ?b ?buf"
  have q: "s3_todo (svc n) = []" "s3_free (svc n) = []" "srv_eng (sv (svc n)) = ?e1" "srv_s23 (sv (svc n)) = []"
    "taken (svc n) = [put_req]" "sends (svc n) = []" "length (conns (svc n)) = 4" "c_writing (conns (svc n) ! 3)"
    "c_chan (conns (svc n) ! 3) = []" "ring_cq (ring n) = [(1, int (length ?buf)), (2, 0)]" "encs n = [?buf]"
    using assms unfolding put_written_def Let_def by blast+
  obtain e' pk where e': "wal_turn next_key 128 [(1, int (length ?buf)), (2, 0)] [] True True ?dir ?e1 [] = Inr (Some (e', ?dir, [], [], pk))"
    "replies e' = owed_to [?b\<lparr>out := ?buf\<rparr>]"
    using sync_acks [OF put_batch_facts(1) refl] by blast
  have ok: "owed_to [?b\<lparr>out := ?buf\<rparr>] = [(3, Ok)]" by (simp add: owed_to_def put_batch_def response_of_def)
  have t: "wal_turn next_key 128 (ring_cq (ring n)) [] True True ?dir (srv_eng (sv (svc n))) (srv_s23 (sv (svc n))) =
      Inr (Some (e', ?dir, [], [], pk))" unfolding q using e'(1) .
  let ?s = "after_log e' ?dir [] (svc n)"
  let ?n = "n\<lparr>svc := ?s, ring := (ring n)\<lparr>ring_sq := ring_sq (ring n) @ [], ring_cq := []\<rparr>,
      encs := encs n @ received (srv_s23 (sv (svc n)))\<rparr>"
  have s1: "node_step whole_ring n ?n" using node_step.log [OF q(1,2) next_key_slab t finish_turn_ok] .
  let ?c = "(conns (svc n) ! 3)\<lparr>c_chan := [Ok], c_accepted := c_accepted (conns (svc n) ! 3) @ [Ok]\<rparr>"
  let ?s' = "?s\<lparr>conns := (conns ?s)[3 := ?c], s3_todo := [], sends := sends ?s @ [(3, Ok)]\<rparr>"
  have todo: "s3_todo ?s = [(3, Ok)]" unfolding after_log_def using e'(2) ok q(3) by (simp add: engine_with_one_def)
  have same: "conns ?s = conns (svc n)" "sends ?s = []" "taken ?s = [put_req]" unfolding after_log_def using q by simp_all
  then have "front_step ?s ?s'"
    using front_step.send3 [OF todo, of ?c] q(7-9) by (simp add: blocking_send_def RESP_BOUND_def)
  then have "node_step whole_ring ?n (?n\<lparr>svc := ?s'\<rparr>)" using node_step.front [of ?n ?s'] by simp
  then have "node_reach whole_ring n (?n\<lparr>svc := ?s'\<rparr>)" using s1 by (meson node_reach.intros)
  moreover have "sends ?s' = [(3, Ok)]" "taken ?s' = [put_req]" "encs ?n = [?buf]"
    using same q(4,11) by (simp_all add: received_def)
  ultimately show ?thesis by (intro exI [of _ "?n\<lparr>svc := ?s'\<rparr>"]) simp
qed

section \<open>Property\<close>

text \<open>The PUTs of a connection that were acknowledged, and the PUTs of a connection among some requests.\<close>

definition acks_on :: "nat \<Rightarrow> (nat \<times> resp) list \<Rightarrow> nat" where
  "acks_on c ps = length (filter (\<lambda>r. r = Ok) (replies_on c ps))"

definition puts_on :: "nat \<Rightarrow> request list \<Rightarrow> nat" where
  "puts_on c rs = length (filter (\<lambda>r. is_put r \<and> reply r = c) rs)"

lemma acks_on_count: "acks_on c ps = count (mset (oks ps)) c"
  by (induction ps) (auto simp: acks_on_def replies_on_def oks_def)

lemma puts_on_count: "puts_on c rs = count (mset (put_conns rs)) c"
  by (induction rs) (auto simp: puts_on_def)

lemma take_count_le: "q \<le> p \<Longrightarrow> count (mset (take q xs)) x \<le> count (mset (take p xs)) x"
  by (metis append_take_drop_id count_union le_add1 min.absorb1 mset_append take_take)

text \<open>Every acknowledgement sent was produced by a batch that stage 3 finished.\<close>

lemma acks_finished:
  assumes "node_inv d l n"
  shows "acks_on c (sends (svc n)) \<le> count (mset (oks (owed_to (finished (srv_eng (sv (svc n))))))) c"
proof -
  let ?s = "svc n"
  have flow: "mset (sends ?s) + mset (s2_todo ?s) + mset (s3_todo ?s) = mset (srv_replies (sv ?s)) + mset (replies (srv_eng (sv ?s)))"
    and quiet: "\<forall>p \<in> set (srv_replies (sv ?s)). snd p \<noteq> Ok"
    and rep: "replies (srv_eng (sv ?s)) = owed_to (finished (srv_eng (sv ?s)))"
    using assms by (simp_all add: node_inv_def service_inv_def flow_inv_def disk_inv_def wal_inv_def ack_inv_def wal_of_def)
  have oks: "mset (oks ps) = image_mset fst (filter_mset (\<lambda>p. snd p = Ok) (mset ps))" for ps by (simp add: oks_def)
  have "oks (srv_replies (sv ?s)) = []" using quiet by (simp add: oks_def filter_empty_conv)
  moreover have "mset (oks (sends ?s)) + mset (oks (s2_todo ?s)) + mset (oks (s3_todo ?s)) =
      mset (oks (srv_replies (sv ?s))) + mset (oks (replies (srv_eng (sv ?s))))"
    using arg_cong [OF flow, of "\<lambda>A. image_mset fst (filter_mset (\<lambda>p. snd p = Ok) A)"] by (simp only: oks filter_union_mset image_mset_union)
  ultimately have "count (mset (oks (sends ?s))) c + (count (mset (oks (s2_todo ?s))) c + count (mset (oks (s3_todo ?s))) c) =
      count (mset (oks (owed_to (finished (srv_eng (sv ?s)))))) c"
    unfolding rep by (metis add.assoc add.left_neutral count_union mset.simps(1))
  then show ?thesis unfolding acks_on_count by linarith
qed

text \<open>
  C1. The whole server survives a power loss in mode \<open>Sync\<close>, if no write is cut short or interrupted
  (otherwise a batch can be acknowledged behind a hole in the file). Start it from a directory without
  torn segments and let it run in any way: clients connect, send bytes, hang up; stages 1, 2 and 3
  take their turns in any order, sends wait for full channels, and the ring completes what was
  submitted to it, in any order that the drain flag allows. Cut the power in any state. The
  directory entry of the segment survives, which the code does not sync, and of its bytes the
  stable ones do; the others may be missing or damaged, as long as the first damaged record fails
  its checksum (a file cut at any byte behind the stable ones is such a case). Recovery then
  returns, the table is the one after serving the first \<open>i\<close> of the requests that stage 2 took, and
  the next sequence number is theirs; and every connection had been sent at most as many \<open>Ok\<close>s as
  it has PUTs among those, so that no acknowledged PUT is lost. Encoded batches are below 4 GiB
  and the segment below \<open>2 ^ 64\<close> bytes.
\<close>

theorem service_crash_recovery:
  assumes good: "good_dir dir d l" and new: "server_start ring_ok open_ok Sync dir = Inr s0"
    and full: "full_writes kstep" and run: "node_reach kstep (node_new s0) n" and ok: "sizes_ok n"
  shows "(\<exists>m. stable (ring n) = region 0 (take m (concat (encs n))) \<and>
       (\<forall>k \<ge> m. crash_leaves (stable (ring n)) (concat (encs n)) (take k (concat (encs n))))) \<and>
     (\<forall>f. crash_leaves (stable (ring n)) (concat (encs n)) f \<longrightarrow>
       (\<exists>i \<le> length (taken (svc n)).
          recover (dir_write (segment_path l) f dir) =
            Inr (foldl serve d (take i (taken (svc n))), next_lsn l (take i (taken (svc n)))) \<and>
          (\<forall>c. acks_on c (sends (svc n)) \<le> puts_on c (take i (taken (svc n))))))"
proof -
  have inv: "node_inv d l n" using node_inv_reach [OF run full node_inv_start [OF good new] ok] .
  then obtain cs where t: "taken_inv d l cs n" and fl: "flight_inv (s2_msgs (acker_new Sync) d l cs) n"
    by (auto simp: node_inv_def)
  let ?ms = "s2_msgs (acker_new Sync) d l cs" and ?rs = "taken (svc n)" and ?e = "srv_eng (sv (svc n))"
  let ?log = "log_of l ?rs"
  have g: "concat cs = ?rs" "list_all req_fits ?rs" "unat l + puts ?rs < 2 ^ 64" using t by (simp_all add: taken_inv_def)
  obtain j where j: "encs n = map encoded (take j ?ms)" using fl by (auto simp: flight_inv_def)
  obtain m q where m: "stable (ring n) = region 0 (take m (concat (encs n)))" and q: "q \<le> length (encs n)"
    "length (concat (take q (encs n))) \<le> m" "mset (oks (owed_to (finished ?e))) \<subseteq># mset (concat (map batch_oks (take q ?ms)))"
    using acknowledged_first [OF inv t fl] by blast
  have split: "?log = concat (map batch_log (take k ?ms)) @ concat (map batch_log (drop k ?ms))" for k
    unfolding g(1) [symmetric] s2_msgs_log [of "acker_new Sync" d, symmetric] by (simp flip: concat_append map_append)
  let ?p = "length (concat (map batch_log (take q ?ms)))"
  have first: "take ?p ?log = concat (map batch_log (take q ?ms))" unfolding split [of q] by simp
  have le: "?p \<le> puts ?rs" using length_log_of [of l ?rs] unfolding split [of q] by simp
  have tq: "take q (encs n) = map encoded (take q ?ms)" using q(1) by (simp add: j take_map min_absorb1)
  let ?es = "concat (map batch_log (take j ?ms))"
  have bytes: "concat (encs n) = concat (map record_bytes ?es)" unfolding j encoded_concat ..
  have pre: "prefix ?es ?log" unfolding split [of j] by simp
  have "list_all record_fits ?log" using log_of_entry_ok [OF g(2)] by (auto simp: list_all_iff entry_ok_def)
  then have fits: "list_all record_fits ?es" using set_mono_prefix [OF pre] by (auto simp: list_all_iff)
  have whole: "concat (map record_bytes ?log) = concat (encs n) @ concat (map record_bytes (concat (map batch_log (drop j ?ms))))"
    unfolding bytes split [of j] by simp
  have "\<exists>i \<le> length ?rs. recover (dir_write (segment_path l) f dir) = Inr (foldl serve d (take i ?rs), next_lsn l (take i ?rs)) \<and>
        (\<forall>c. acks_on c (sends (svc n)) \<le> puts_on c (take i ?rs))" if crash: "crash_leaves (stable (ring n)) (concat (encs n)) f" for f
  proof -
    let ?k = "min m (length (concat (encs n)))"
    obtain xs t where f: "f = concat (map record_bytes xs) @ t" "prefix xs ?es" "t = [] \<or> torn_tail t"
      using crash wal.frames_encoded [OF fits] unfolding crash_leaves_def bytes by auto
    have kept: "take ?k f = take ?k (concat (map record_bytes ?log))" using crash unfolding m whole by (rule crash_leaves_kept)
    obtain i where i: "i \<le> length ?rs"
      "recover (dir_write (segment_path l) f dir) = Inr (foldl serve d (take i ?rs), next_lsn l (take i ?rs))"
      "\<forall>q \<le> puts ?rs. length (concat (map record_bytes (take q ?log))) \<le> ?k \<longrightarrow> q \<le> puts (take i ?rs)"
      using recover_crash [OF good g(2,3) f(1) prefix_order.trans [OF f(2) pre] f(3) kept] by blast
    have "length (concat (take q (encs n))) \<le> length (concat (encs n))"
      by (metis append_take_drop_id concat_append le_add1 length_append)
    then have "length (concat (map record_bytes (take ?p ?log))) \<le> ?k"
      using q(2) unfolding first encoded_concat [symmetric] tq [symmetric] by simp
    then have p: "?p \<le> puts (take i ?rs)" using i(3) le by blast
    have "acks_on c (sends (svc n)) \<le> puts_on c (take i ?rs)" for c
    proof -
      have "acks_on c (sends (svc n)) \<le> count (mset (concat (map batch_oks (take q ?ms)))) c"
        using acks_finished [OF inv, of c] mset_subset_eq_count [OF q(3), of c] by linarith
      also have "\<dots> = count (mset (take ?p (put_conns ?rs))) c" by (simp only: first_oks g(1))
      also have "\<dots> \<le> puts_on c (take i ?rs)"
        unfolding puts_on_count put_conns_take [of i ?rs] using p by (rule take_count_le)
      finally show ?thesis .
    qed
    then show ?thesis using i(1,2) by blast
  qed
  moreover have "crash_leaves (stable (ring n)) (concat (encs n)) (take k (concat (encs n)))" if "m \<le> k" for k
    using crash_leaves_cut [OF fits bytes that] by (simp add: m)
  ultimately show ?thesis using m by blast
qed

theorem service_crash_recovery_witness:
  "\<exists>s0 n m. server_start True True Sync empty_dir = Inr s0 \<and> node_reach whole_ring (node_new s0) n \<and>
     sends (svc n) = [(3, Ok)] \<and> stable (ring n) = region 0 (take m (concat (encs n))) \<and>
     recover (dir_write (segment_path 1) (take m (concat (encs n))) empty_dir) = Inr (serve db_new put_req, 3)"
proof -
  have rec: "recover empty_dir = Inr (db_new, 1)" using empty_dir_good by (simp add: good_dir_def)
  have "empty_dir\<lparr>dir_exists := True\<rparr> = empty_dir" by (simp add: empty_dir_def)
  then obtain e dir' where new: "wal_engine_new True True 128 empty_dir 1 Sync (acker_new Sync) = Inr (e, dir')"
    and s0: "server_start True True Sync empty_dir = Inr \<lparr>srv_mode = Sync, srv_items = [], srv_s2 = stage2_new db_new 1,
        srv_pool = replicate N_BUFFERS batch_new, srv_s23 = [], srv_eng = e, srv_dir = dir', srv_replies = []\<rparr>"
      (is "_ = Inr ?s0")
    using rec by (auto simp: server_start_def wal_engine_new_def segment_open_def Let_def RING_DEPTH_def)
  obtain s where s: "node_reach whole_ring (node_new ?s0) ((node_new ?s0)\<lparr>svc := s\<rparr>)" "put_sent e dir' s"
    using put_arrives [OF refl] by blast
  obtain n1 where n1: "node_reach whole_ring ((node_new ?s0)\<lparr>svc := s\<rparr>) n1" "put_written (seg e) n1"
    using put_logged [OF new, of "(node_new ?s0)\<lparr>svc := s\<rparr>"] s(2) by (auto simp: node_new_def)
  obtain n where n: "node_reach whole_ring n1 n" "sends (svc n) = [(3, Ok)]" "taken (svc n) = [put_req]"
    "encs n = [record_bytes (2, req_body Put [1] [7])]"
    using put_acknowledged [OF n1(2)] by blast
  have run: "node_reach whole_ring (node_new ?s0) n" using node_reach_trans [OF n(1) node_reach_trans [OF n1(1) s(1)]] .
  have "sizes_ok n" using record_27 by (simp add: sizes_ok_def n(4))
  note safe = service_crash_recovery [OF empty_dir_good s0 whole_ring_contract(2) run this]
  from conjunct1 [OF safe] obtain m where m: "stable (ring n) = region 0 (take m (concat (encs n)))"
    "crash_leaves (stable (ring n)) (concat (encs n)) (take m (concat (encs n)))" by blast
  from mp [OF spec [OF conjunct2 [OF safe]] m(2)] obtain i where i0: "i \<le> length (taken (svc n))"
    "recover (dir_write (segment_path 1) (take m (concat (encs n))) empty_dir) =
       Inr (foldl serve db_new (take i (taken (svc n))), next_lsn 1 (take i (taken (svc n))))"
    "\<forall>c. acks_on c (sends (svc n)) \<le> puts_on c (take i (taken (svc n)))"
    by (elim exE conjE)
  then have i: "i \<le> 1"
    "recover (dir_write (segment_path 1) (take m (concat (encs n))) empty_dir) =
       Inr (foldl serve db_new (take i [put_req]), next_lsn 1 (take i [put_req]))"
    "acks_on 3 (sends (svc n)) \<le> puts_on 3 (take i [put_req])"
    by (simp_all only: n(3) list.size(3,4) add_0 One_nat_def)
  have "acks_on 3 (sends (svc n)) = 1" by (simp add: acks_on_def replies_on_def n(2))
  then have "i = 1" using i(1,3) by (cases i) (simp_all add: puts_on_def)
  then show ?thesis using s0 run n(2) m(1) i(2) by (auto simp: next_lsn_def)
qed

end
