(* ===== verification/Restart.thy ===== *)
theory Restart
  imports Pipeline "HOL-Library.Multiset"
begin

text \<open>
  Stopping the server after everything was written and starting it again: the file that the writes
  of stage 3 make up, in whatever order the kernel carries them out, and what recovery reads from
  it.
\<close>

section \<open>The file that queued writes make up\<close>

text \<open>Where an operation writes what, by the entry that stage 3 submits for it.\<close>

definition write_region :: "string \<Rightarrow> io_work \<Rightarrow> image" where
  "write_region fd work = (case sqe_of work fd of Inr (SqeWrite f bs off) \<Rightarrow> region (unat off) bs | _ \<Rightarrow> Map.empty)"

definition file_image :: "string \<Rightarrow> io_work list \<Rightarrow> image" where
  "file_image fd ws = foldl (\<lambda>img w. img ++ write_region fd w) Map.empty ws"

lemma file_image_snoc [simp]:
  "file_image fd [] = Map.empty" "file_image fd (ws @ [w]) = file_image fd ws ++ write_region fd w"
  by (simp_all add: file_image_def)

lemma dom_file_image: "dom (file_image fd ws) = (\<Union>w \<in> set ws. dom (write_region fd w))"
  by (induction ws rule: rev_induct) auto

lemma file_image_le: "\<forall>w \<in> set ws. write_region fd w \<subseteq>\<^sub>m img \<Longrightarrow> file_image fd ws \<subseteq>\<^sub>m img"
proof (induction ws rule: rev_induct)
  case (snoc w ws)
  then have "file_image fd ws \<subseteq>\<^sub>m img" "write_region fd w \<subseteq>\<^sub>m img" by simp_all
  then show ?case by (simp add: map_add_le_mapI)
qed simp

text \<open>Writes that agree with an image and cover it make it up, in any order.\<close>

lemma file_image_eq:
  assumes "\<forall>w \<in> set ws. write_region fd w \<subseteq>\<^sub>m img" and "dom img \<subseteq> (\<Union>w \<in> set ws. dom (write_region fd w))"
  shows "file_image fd ws = img"
proof (rule map_le_antisym)
  show le: "file_image fd ws \<subseteq>\<^sub>m img" using file_image_le [OF assms(1)] .
  show "img \<subseteq>\<^sub>m file_image fd ws"
    using assms(2) le by (auto simp: map_le_def dom_file_image [symmetric]) (metis domI subsetD)
qed

lemma file_bytes_region: "file_bytes (length bs) (region 0 bs) = bs"
  by (intro nth_equalityI) (simp_all add: file_bytes_def region_def)

section \<open>The writes of a list of batches\<close>

lemma writes_for_regions:
  assumes "list_all (\<lambda>b. length (encoded b) < 2 ^ 32) bs" and "unat off + length (concat (map encoded bs)) < 2 ^ 64"
  shows "(\<forall>w \<in> set (writes_for off bs). write_region fd w \<subseteq>\<^sub>m region (unat off) (concat (map encoded bs))) \<and>
    dom (region (unat off) (concat (map encoded bs))) \<subseteq> (\<Union>w \<in> set (writes_for off bs). dom (write_region fd w))"
  using assms
proof (induction bs arbitrary: off)
  case Nil
  then show ?case by simp
next
  case (Cons b bs)
  let ?x = "encoded b" and ?y = "concat (map encoded bs)"
  have off: "unat (off + of_nat (length ?x)) = unat off + length ?x"
    using Cons.prems(2) by (simp add: unat_word_ariths unat_of_nat)
  have "unat (off + of_nat (length ?x)) + length ?y < 2 ^ 64" using Cons.prems(2) off by simp
  note IH = Cons.IH [OF _ this, unfolded off]
  have w: "write_region fd (io_write (b\<lparr>out := ?x\<rparr>) off) = region (unat off) ?x"
    using Cons.prems(1) by (simp add: write_region_def sqe_of_def io_write_def slice_from_ok unat_as_u32)
  have first: "region (unat off) ?x \<subseteq>\<^sub>m region (unat off) (?x @ ?y)"
    by (auto simp: map_le_def region_def nth_append)
  have second: "region (unat off + length ?x) ?y \<subseteq>\<^sub>m region (unat off) (?x @ ?y)"
    unfolding region_append by (rule map_le_map_add)
  have ws: "writes_for off (b # bs) = io_write (b\<lparr>out := ?x\<rparr>) off # writes_for (off + of_nat (length ?x)) bs"
    by (simp add: encoded_def Let_def)
  have le: "\<forall>w \<in> set (writes_for (off + of_nat (length ?x)) bs). write_region fd w \<subseteq>\<^sub>m region (unat off) (?x @ ?y)"
    using IH Cons.prems(1) map_le_trans [OF _ second] by auto
  moreover have "dom (region (unat off) (?x @ ?y)) \<subseteq>
      dom (region (unat off) ?x) \<union> (\<Union>w \<in> set (writes_for (off + of_nat (length ?x)) bs). dom (write_region fd w))"
    using IH Cons.prems(1) unfolding region_append by auto
  ultimately show ?case unfolding ws using first by (simp add: w)
qed

section \<open>Property\<close>

text \<open>
  C13. A restart after everything was written loses nothing. In every mode, let stage 2 serve any
  groups of requests from a recovered directory without torn segments, and hand its batches to a
  new engine: the engine accepts them all. When the writes that it queued have been carried out, in
  any order, the file they make up is read back by recovery as exactly the table that stage 2 had
  in memory, and the next sequence number is one more than the last one stage 2 assigned (or the
  one it started with, if it assigned none). Batches are below 4 GiB and the log below \<open>2 ^ 64\<close> bytes.
\<close>

theorem restart_recovers_table:
  assumes good: "good_dir dir d l" and reqs: "list_all group_ok cs" "list_all req_fits (concat cs)"
    and nw: "unat l + puts (concat cs) < 2 ^ 64" and run: "stage2_run a (stage2_new d l) cs = Inr (s, sent, map WalWrite bs)"
    and new: "wal_engine_new ring_ok open_ok n dir l m a' = Inr (e, dir')"
    and sizes: "list_all (\<lambda>b. length (encoded b) < 2 ^ 32) bs" "length (concat (map encoded bs)) < 2 ^ 64"
  shows "\<exists>e'. handle_all e bs = Inr e' \<and>
    (\<forall>ws. mset ws = mset (pending e') \<longrightarrow>
       recover (dir_write (segment_path l) (file_bytes (unat (seg_offset (seg e'))) (file_image (seg_fd (seg e')) ws)) dir) =
         Inr (s2_db s, if s2_lsn s = l then l else s2_lsn s + 1))"
proof -
  have "clean (stage2_new d l)" "s2_db (stage2_new d l) = d" "s2_lsn (stage2_new d l) = l"
    by (simp_all add: stage2_new_def clean_def)
  with stage2_run_eq [OF reqs(1), of "stage2_new d l" a] nw run have
    bs: "map WalWrite bs = map WalWrite (s2_msgs a d l cs)" and s2: "s2_db s = foldl serve d (concat cs)"
      "s2_lsn s = l + of_nat (puts (concat cs))" by auto
  have bs: "bs = s2_msgs a d l cs" using bs by (metis injI list.inj_map_strong wal_msg.inject(1))
  have off: "seg_offset (seg e) = 0" using new_engine_base [OF new] good by (simp add: good_dir_def)
  have e: "last_ingested_lsn e = l" "pending e = []" using wal_engine_new_fields [OF new] by simp_all
  let ?log = "concat (map encoded bs)"
  obtain e' where e': "handle_all e bs = Inr e'" "pending e' = writes_for 0 bs" "seg_offset (seg e') = of_nat (length ?log)"
    using handle_all_msgs [OF reqs(1) e(1), of a d] unfolding bs by (auto simp: e(2) off encoded_def cong: map_cong)
  have "recover (dir_write (segment_path l) (file_bytes (unat (seg_offset (seg e'))) (file_image (seg_fd (seg e')) ws)) dir) =
      Inr (s2_db s, if s2_lsn s = l then l else s2_lsn s + 1)" if ws: "mset ws = mset (pending e')" for ws
  proof -
    have "set ws = set (writes_for 0 bs)" using ws e'(2) by (metis set_mset_mset)
    with writes_for_regions [OF sizes(1), of 0] sizes(2) have "file_image (seg_fd (seg e')) ws = region 0 ?log"
      by (intro file_image_eq) simp_all
    moreover have "unat (seg_offset (seg e')) = length ?log" using sizes(2) by (simp add: e'(3) unat_of_nat)
    ultimately have "file_bytes (unat (seg_offset (seg e'))) (file_image (seg_fd (seg e')) ws) =
        concat (map record_bytes (log_of l (concat cs))) @ []"
      by (simp add: file_bytes_region) (simp add: bs concat_map_encoded)
    then have "recover (dir_write (segment_path l) (file_bytes (unat (seg_offset (seg e'))) (file_image (seg_fd (seg e')) ws)) dir) =
        Inr (s2_db s, next_lsn l (concat cs))"
      using recover_requests [OF good reqs(2) nw, of "[]"] s2(1) by simp
    moreover have "s2_lsn s = l \<longleftrightarrow> puts (concat cs) = 0"
      using nw by (auto simp: s2(2) word_unat_eq_iff unat_word_ariths unat_of_nat)
    ultimately show ?thesis by (simp add: next_lsn_def s2(2))
  qed
  then show ?thesis using e'(1) by blast
qed

text \<open>Two PUTs in two turns, the writes carried out in reverse order.\<close>

theorem restart_recovers_table_witness:
  "\<exists>s sent bs e dir' e'. stage2_run (acker_new NoFsync) (stage2_new db_new 1) [[put_req], [put_req]] = Inr (s, sent, map WalWrite bs) \<and>
     wal_engine_new True True 128 empty_dir 1 NoFsync (acker_new NoFsync) = Inr (e, dir') \<and> handle_all e bs = Inr e' \<and>
     recover (dir_write (segment_path 1) (file_bytes (unat (seg_offset (seg e'))) (file_image (seg_fd (seg e')) (rev (pending e')))) empty_dir) =
       Inr (s2_db s, 4)"
proof -
  let ?cs = "[[put_req], [put_req]]"
  have gk: "list_all group_ok ?cs" "list_all req_fits (concat ?cs)" "unat (1 :: u64) + puts (concat ?cs) < 2 ^ 64" by simp_all
  have "clean (stage2_new db_new 1)" "s2_lsn (stage2_new db_new 1) = 1" by (simp_all add: stage2_new_def clean_def)
  with stage2_run_eq [OF gk(1), of "stage2_new db_new 1" "acker_new NoFsync"] gk(3) obtain s sent bs where
    r: "stage2_run (acker_new NoFsync) (stage2_new db_new 1) ?cs = Inr (s, sent, map WalWrite bs)"
      "bs = s2_msgs (acker_new NoFsync) (s2_db (stage2_new db_new 1)) 1 ?cs" and lsn: "s2_lsn s = 3" by auto
  obtain e dir' where new: "wal_engine_new True True 128 empty_dir 1 NoFsync (acker_new NoFsync) = Inr (e, dir')"
    by (simp add: wal_engine_new_def segment_open_def Let_def)
  have "length (encoded b) = 27" if "b \<in> set bs" for b
    using that r(2) by (auto simp: encoded_s2_batch req_body_def)
  then have sizes: "list_all (\<lambda>b. length (encoded b) < 2 ^ 32) bs" "length (concat (map encoded bs)) < 2 ^ 64"
    using r(2) by (auto simp: list_all_iff encoded_s2_batch)
  from restart_recovers_table [OF empty_dir_good gk r(1) new sizes] obtain e' where e': "handle_all e bs = Inr e'"
    "recover (dir_write (segment_path 1) (file_bytes (unat (seg_offset (seg e'))) (file_image (seg_fd (seg e')) (rev (pending e')))) empty_dir) =
       Inr (s2_db s, if s2_lsn s = 1 then 1 else s2_lsn s + 1)"
    by (metis mset_rev)
  then show ?thesis using r(1) new lsn by auto
qed

end
