(* ===== verification/Backpressure.thy ===== *)
theory Backpressure
  imports Delivery
begin

text \<open>
  A client that sends requests and does not read its responses. Its reply channel holds
  \<open>RESP_BOUND\<close> responses; the next \<open>blocking_send\<close> (\<open>crates/server/src/acker.rs\<close>) is done by the
  thread of stage 2 and waits, and with it wait all other clients.
\<close>

section \<open>Without a reader\<close>

text \<open>Runs in which the client of connection \<open>i\<close> takes no byte and the connection does not break.\<close>

inductive unread_reach :: "nat \<Rightarrow> service \<Rightarrow> service \<Rightarrow> bool" for i :: nat where
  start: "unread_reach i s s"
| next_step: "unread_reach i s s' \<Longrightarrow> service_step s' s'' \<Longrightarrow>
    c_out (conns s'' ! i) = c_out (conns s' ! i) \<Longrightarrow> c_writing (conns s'' ! i) \<Longrightarrow> unread_reach i s s''"

text \<open>Stage 2 waits to send to a connection whose channel is full and whose writer is writing.\<close>

definition stalled :: "nat \<Rightarrow> service \<Rightarrow> bool" where
  "stalled i s \<longleftrightarrow>
     i < length (conns s) \<and> c_writing (conns s ! i) \<and> length (c_chan (conns s ! i)) = RESP_BOUND \<and>
     c_buf (conns s ! i) \<noteq> [] \<and> (\<exists>r todo. s2_todo s = (i, r) # todo)"

lemma stalled_front:
  "front_step s s' \<Longrightarrow> stalled i s \<Longrightarrow> c_out (conns s' ! i) = c_out (conns s ! i) \<Longrightarrow> c_writing (conns s' ! i) \<Longrightarrow>
   stalled i s' \<and> taken s' = taken s \<and> s2_todo s' = s2_todo s \<and> srv_s2 (sv s') = srv_s2 (sv s) \<and>
   srv_replies (sv s') = srv_replies (sv s)"
proof (induction rule: front_step.induct)
  case (read j s body c)
  then show ?case using reader_step_has [OF read.hyps(3)]
    by (cases "j = i"; cases c; cases "conns s ! i") (auto simp: stalled_def)
next
  case (send2 s j r todo c)
  then show ?case by (auto simp: stalled_def blocking_send_def split: if_splits)
next
  case (send3 s j r todo c)
  then show ?case by (cases "j = i") (auto simp: stalled_def blocking_send_def split: if_splits)
next
  case (encode j s n c)
  then show ?case by (cases "j = i") (auto simp: stalled_def)
next
  case (wrote j s k)
  then show ?case by (cases "j = i") (auto simp: stalled_def conn_write_def)
qed (auto simp: stalled_def nth_append nth_list_update conn_arrive_def conn_write_failed_def)

lemma stalled_step:
  "service_step s s' \<Longrightarrow> stalled i s \<Longrightarrow> c_out (conns s' ! i) = c_out (conns s ! i) \<Longrightarrow> c_writing (conns s' ! i) \<Longrightarrow>
   stalled i s' \<and> taken s' = taken s \<and> s2_todo s' = s2_todo s \<and> srv_s2 (sv s') = srv_s2 (sv s) \<and>
   srv_replies (sv s') = srv_replies (sv s)"
proof (induction rule: service_step.induct)
  case (front s s')
  then show ?case by (rule stalled_front)
next
  case (log s vacant room cqes rounds fsync_ok open_ok e dir msgs ss p err)
  then show ?case by (simp add: stalled_def after_log_def)
qed

lemma stalled_reach:
  "unread_reach i s s' \<Longrightarrow> stalled i s \<Longrightarrow>
   stalled i s' \<and> taken s' = taken s \<and> s2_todo s' = s2_todo s \<and> srv_s2 (sv s') = srv_s2 (sv s) \<and>
   srv_replies (sv s') = srv_replies (sv s)"
proof (induction rule: unread_reach.induct)
  case (start s)
  then show ?case by simp
next
  case (next_step s s' s'')
  then show ?case using stalled_step [OF next_step.hyps(2) _ next_step.hyps(3,4)] by metis
qed

lemma stalled_reachable:
  assumes "server_start True True m empty_dir = Inr s0"
  shows "\<exists>s. service_reach (service_new s0) s \<and> length (conns s) = 1 \<and> stalled 0 s"
proof -
  obtain s1 where s1: "service_reach (service_new s0) s1" "idle_service [] 0 0 s1" using first_connection [OF assms] by blast
  obtain s2 where s2: "service_reach s1 s2" "idle_service [] 1 1 s2" using get_answered [OF s1(2)] by (auto simp: RESP_BOUND_def)
  obtain s3 where s3: "service_reach s2 s3" "idle_service (resp_bytes Miss) 0 1 s3" using writer_starts [OF s2(2)] by blast
  obtain s4 where s4: "service_reach s3 s4" "idle_service (resp_bytes Miss) RESP_BOUND (1 + RESP_BOUND) s4"
    using gets_answered [OF s3(2), of RESP_BOUND] by auto
  from get_served [OF s4(2)] obtain s5 c where s5: "service_reach s4 s5" "s2_todo s5 = [(0, Miss)]"
    "conns s5 = [c]" "idle_conn (resp_bytes Miss) RESP_BOUND c" by blast
  then have "stalled 0 s5" by (simp add: stalled_def idle_conn_def resp_bytes_def resp_payload_def)
  moreover have "service_reach (service_new s0) s5"
    using s1(1) s2(1) s3(1) s4(1) s5(1) by (metis service_reach_trans)
  ultimately show ?thesis using s5(3) by auto
qed

section \<open>Properties\<close>

text \<open>
  C29. One client that does not read stops the server for all. In every mode, a client that keeps
  sending GETs without reading brings the server into a state from which, as long as it takes no
  byte and its connection stays up, stage 2 serves no request of any connection: whatever else
  happens (other clients connect and send, stage 3 runs), stage 2 stays in the same send.
\<close>

theorem slow_client_stops_server:
  assumes "server_start True True m empty_dir = Inr s0"
  shows "\<exists>s. service_reach (service_new s0) s \<and> length (conns s) = 1 \<and> c_writing (conns s ! 0) \<and>
    (\<forall>s'. unread_reach 0 s s' \<longrightarrow>
       taken s' = taken s \<and> s2_todo s' = s2_todo s \<and> s2_todo s \<noteq> [] \<and> srv_s2 (sv s') = srv_s2 (sv s) \<and>
       srv_replies (sv s') = srv_replies (sv s))"
proof -
  obtain s where s: "service_reach (service_new s0) s" "length (conns s) = 1" "stalled 0 s"
    using stalled_reachable [OF assms] by blast
  moreover have "s2_todo s \<noteq> []" "c_writing (conns s ! 0)" using s(3) by (auto simp: stalled_def)
  ultimately show ?thesis using stalled_reach by (intro exI [of _ s]) blast
qed

theorem slow_client_stops_server_witness:
  "\<exists>s0 s s'. server_start True True Sync empty_dir = Inr s0 \<and> service_reach (service_new s0) s \<and>
     unread_reach 0 s s' \<and> length (conns s') = 2 \<and> c_in (conns s' ! 1) = frame_bytes get_body \<and>
     taken s' = taken s \<and> s2_todo s' \<noteq> []"
proof -
  obtain s0 where s0: "server_start True True Sync empty_dir = Inr s0" using server_starts_empty by blast
  from slow_client_stops_server [OF s0] obtain s where s: "service_reach (service_new s0) s" "length (conns s) = 1"
    "c_writing (conns s ! 0)" and stuck: "\<And>s'. unread_reach 0 s s' \<Longrightarrow> taken s' = taken s \<and> s2_todo s' = s2_todo s \<and> s2_todo s \<noteq> []"
    by blast
  let ?s1 = "s\<lparr>conns := conns s @ [connection_new]\<rparr>"
  let ?s2 = "?s1\<lparr>conns := (conns ?s1)[1 := conn_arrive (frame_bytes get_body) (conns ?s1 ! 1)]\<rparr>"
  have n: "conns ?s1 ! 1 = connection_new" "conns ?s1 ! 0 = conns s ! 0" using s(2) by (simp_all add: nth_append)
  have u1: "unread_reach 0 s ?s1" using unread_reach.next_step [OF unread_reach.start front_step.accept [THEN service_step.front]] n s(3) by simp
  have st: "service_step ?s1 ?s2"
    using front_step.arrive [THEN service_step.front, of 1 ?s1 "frame_bytes get_body"] s(2) n(1) by (simp add: connection_new_def)
  have u: "unread_reach 0 s ?s2" using unread_reach.next_step [OF u1 st] n s(3) by simp
  moreover have "length (conns ?s2) = 2" "c_in (conns ?s2 ! 1) = frame_bytes get_body"
    using s(2) n(1) by (simp_all add: conn_arrive_def connection_new_def)
  ultimately show ?thesis using s0 s(1) stuck [OF u] by metis
qed

end
