(* ===== verification/Example_Programs.thy ===== *)
theory Example_Programs
  imports Client_Server "HOL-Library.Multiset"
begin

text \<open>
  The two example programs of the client crate (\<open>examples/sync_client.rs\<close>, \<open>async_client.rs\<close>)
  and what they print when their calls get the answers due to them; \<open>Example_Runs\<close> runs the clients
  and the server that give these answers. A program is a list of calls and a function from their
  results to the lines it prints; the texts of the lines are constructors. What other clients do
  meanwhile matters only where they write to the keys of the program.
\<close>

section \<open>Sessions on keys of one's own\<close>

lemma positions_snoc [simp]:
  "positions conn [] = []"
  "positions conn (rs @ [r]) = positions conn rs @ (if reply r = conn then [length rs] else [])"
proof -
  have "filter (\<lambda>i. reply ((rs @ [r]) ! i) = conn) [0..<length rs] = positions conn rs"
    unfolding positions_def by (intro filter_cong) (auto simp: nth_append)
  then show "positions conn (rs @ [r]) = positions conn rs @ (if reply r = conn then [length rs] else [])"
    by (simp add: positions_def)
qed (simp add: positions_def)

lemma positions_less: "p \<in> set (positions conn rs) \<Longrightarrow> p < length rs"
  by (simp add: positions_def)

lemma length_positions: "length (positions conn rs) = length (filter (\<lambda>r. reply r = conn) rs)"
  by (simp add: filter_positions)

lemma filter_before:
  "i < length (positions conn rs) \<Longrightarrow>
   filter (\<lambda>r. reply r = conn) (take (positions conn rs ! i) rs) = take i (filter (\<lambda>r. reply r = conn) rs)"
proof (induction rs rule: rev_induct)
  case Nil
  then show ?case by simp
next
  case (snoc r rs)
  show ?case
  proof (cases "i < length (positions conn rs)")
    case True
    then have "positions conn rs ! i < length rs" using positions_less nth_mem by metis
    then show ?thesis using snoc.IH True by (simp add: nth_append length_positions)
  next
    case False
    then have r: "reply r = conn" and i: "i = length (positions conn rs)" using snoc.prems by (auto split: if_splits)
    then have "positions conn (rs @ [r]) ! i = length rs" by simp
    moreover have "length (filter (\<lambda>r. reply r = conn) rs) = i" using i by (simp add: length_positions)
    ultimately show ?thesis using r by simp
  qed
qed

definition leaves_alone :: "nat \<Rightarrow> bytes \<Rightarrow> request list \<Rightarrow> bool" where
  "leaves_alone conn key rs \<longleftrightarrow> list_all (\<lambda>r. reply r = conn \<or> \<not> is_put r \<or> fst (kv_of (data r)) \<noteq> key) rs"

lemma last_put_own:
  "leaves_alone conn key rs \<Longrightarrow>
   map_of (rev (put_kvs rs)) key = map_of (rev (put_kvs (filter (\<lambda>r. reply r = conn) rs))) key"
  by (induction rs rule: rev_induct) (auto simp: leaves_alone_def put_kvs_def prod_eq_iff map_add_def split: option.splits)

lemma own_history:
  assumes i: "i < length (positions conn rs)"
    and alone: "leaves_alone conn (fst (kv_of (data (filter (\<lambda>r. reply r = conn) rs ! i)))) rs"
  shows "history_answer d rs (positions conn rs ! i) = history_answer d (filter (\<lambda>r. reply r = conn) rs) i"
proof -
  let ?p = "positions conn rs ! i" and ?own = "filter (\<lambda>r. reply r = conn) rs"
  have at: "?own ! i = rs ! ?p" using i by (simp add: filter_positions)
  have "leaves_alone conn (fst (kv_of (data (rs ! ?p)))) (take ?p rs)"
    using alone by (auto simp: at leaves_alone_def list_all_iff dest: in_set_takeD)
  from last_put_own [OF this] show ?thesis
    unfolding history_answer_def at filter_before [OF i] by (rule arg_cong)
qed

text \<open>The answers to a list of calls served alone.\<close>

definition call_puts :: "call list \<Rightarrow> (bytes \<times> bytes) list" where
  "call_puts ks = map (\<lambda>k. (call_key k, opt_bytes (call_value k))) (filter (\<lambda>k. call_op k = Put) ks)"

definition call_answer :: "db \<Rightarrow> call list \<Rightarrow> nat \<Rightarrow> resp" where
  "call_answer d ks i =
     (if call_op (ks ! i) = Put then Ok
      else case map_of (rev (call_puts (take i ks))) (call_key (ks ! i)) of
        Some v \<Rightarrow> Value v
      | None \<Rightarrow> (case db_get d (call_key (ks ! i)) of Some v \<Rightarrow> Value v | None \<Rightarrow> Miss))"

lemma request_of_call:
  assumes "call_fits k"
  shows "kind (request_of conn (call_body k)) = call_op k" "call_op k \<in> {Get, Put}"
    "kv_of (data (request_of conn (call_body k))) = (call_key k, opt_bytes (call_value k))"
proof -
  have ok: "call_ok k" "length (call_key k) < 2 ^ 32"
    using assms by (simp_all add: call_fits_def call_body_def MAX_FRAME_def)
  then show "call_op k \<in> {Get, Put}" "kind (request_of conn (call_body k)) = call_op k"
    by (auto simp: call_ok_def client_get_def client_put_def request_of_def kind_def call_body_def req_body_def)
  show "kv_of (data (request_of conn (call_body k))) = (call_key k, opt_bytes (call_value k))"
    using ok(2) by (simp add: request_of_def call_body_def)
qed

lemma put_kvs_calls:
  "list_all call_fits ks \<Longrightarrow> put_kvs (map (\<lambda>k. request_of conn (call_body k)) ks) = call_puts ks"
  by (induction ks) (auto simp: put_kvs_def call_puts_def is_put_def request_of_call)

lemma history_calls:
  assumes "list_all call_fits ks" and "i < length ks"
  shows "history_answer d (map (\<lambda>k. request_of conn (call_body k)) ks) i = call_answer d ks i"
proof -
  have k: "call_fits (ks ! i)" using assms by (simp add: list_all_length)
  have "list_all call_fits (take i ks)" using assms(1) by (auto simp: list_all_iff dest: in_set_takeD)
  from put_kvs_calls [OF this] show ?thesis
    using request_of_call(1,3) [OF k] request_of_call(2) [OF k] assms(2) by (auto simp: history_answer_def call_answer_def take_map split: option.splits)
qed

section \<open>Printing\<close>

definition ascii :: "string \<Rightarrow> bytes" where
  "ascii s = map of_char s"

datatype line =
    Connecting
  | Connected
  | Blank
  | FiringGets
  | PutLine bytes bytes resp
  | PutDone bytes resp
  | GotValue bytes bytes
  | GotOther bytes resp
  | ExpectedMiss resp

text \<open>
  A program is what it prints and whether \<open>main\<close> returns \<open>Ok\<close>; the \<open>?\<close> operator ends it at the
  first error.
\<close>

type_synonym program = "line list \<times> bool"

definition and_then :: "program \<Rightarrow> program \<Rightarrow> program" where
  "and_then p q = (if snd p then (fst p @ fst q, snd q) else p)"

definition print_line :: "line \<Rightarrow> program" where
  "print_line l = ([l], True)"

definition with_answer :: "call_result \<Rightarrow> (resp \<Rightarrow> line) \<Rightarrow> program" where
  "with_answer r f = (case r of Answer a \<Rightarrow> ([f a], True) | _ \<Rightarrow> ([], False))"

fun get_line :: "bytes \<Rightarrow> resp \<Rightarrow> line" where
  "get_line k (Value v) = GotValue k v"
| "get_line k r = GotOther k r"

fun for_each :: "('a \<Rightarrow> program) \<Rightarrow> 'a list \<Rightarrow> program" where
  "for_each f [] = ([], True)"
| "for_each f (x # xs) = and_then (f x) (for_each f xs)"

section \<open>The blocking example\<close>

definition sync_pairs :: "(bytes \<times> bytes) list" where
  "sync_pairs =
     [(ascii ''name'', ascii ''lavashik''), (ascii ''project'', ascii ''in-memory-poc''),
      (ascii ''lang'', ascii ''rust''), (ascii ''mood'', ascii ''hype'')]"

definition sync_missing :: bytes where
  "sync_missing = ascii ''does_not_exist''"

text \<open>Reply channels are numbered in the order of the calls.\<close>

definition sync_calls :: "call list" where
  "sync_calls =
     map (\<lambda>(tx, k, v). client_put k v tx) (enumerate 0 sync_pairs) @
     map (\<lambda>(tx, k, v). client_get k tx) (enumerate 4 sync_pairs) @ [client_get sync_missing 8]"

definition sync_main :: "bool \<Rightarrow> (nat \<Rightarrow> call_result) \<Rightarrow> program" where
  "sync_main connect_ok res =
     and_then (print_line Connecting) (and_then ([], connect_ok) (and_then (print_line Connected)
     (and_then (for_each (\<lambda>(tx, k, v). with_answer (res tx) (PutLine k v)) (enumerate 0 sync_pairs))
     (and_then (print_line Blank)
     (and_then (for_each (\<lambda>(tx, k, v). with_answer (res tx) (get_line k)) (enumerate 4 sync_pairs))
     (and_then (print_line Blank) (with_answer (res 8) ExpectedMiss)))))))"

section \<open>The tokio example\<close>

definition async_pairs :: "(bytes \<times> bytes) list" where
  "async_pairs =
     [(ascii ''async_key_1'', ascii ''hello from async''), (ascii ''async_key_2'', ascii ''tokio is cool''),
      (ascii ''async_key_3'', ascii ''rust ftw'')]"

definition async_missing :: bytes where
  "async_missing = ascii ''nope''"

text \<open>
  The GETs are calls of tasks of their own, so their order in the client's channel is any
  order of the tasks; each has its own reply channel.
\<close>

definition async_gets :: "call list" where
  "async_gets = map (\<lambda>(tx, k, v). client_get k tx) (enumerate 3 async_pairs)"

definition async_calls :: "call list \<Rightarrow> call list" where
  "async_calls gets =
     map (\<lambda>(tx, k, v). client_put k v tx) (enumerate 0 async_pairs) @ gets @ [client_get async_missing 6]"

definition async_main :: "bool \<Rightarrow> (nat \<Rightarrow> call_result) \<Rightarrow> program" where
  "async_main connect_ok res =
     and_then (print_line Connecting) (and_then ([], connect_ok) (and_then (print_line Connected)
     (and_then (for_each (\<lambda>(tx, k, v). with_answer (res tx) (PutDone k)) (enumerate 0 async_pairs))
     (and_then (print_line Blank) (and_then (print_line FiringGets)
     (and_then (for_each (\<lambda>(tx, k, v). with_answer (res tx) (get_line k)) (enumerate 3 async_pairs))
     (and_then (print_line Blank) (with_answer (res 6) ExpectedMiss))))))))"

section \<open>Answers of a session\<close>

text \<open>The result for a caller, by its reply channel.\<close>

definition result_on :: "(nat \<times> call_result) list \<Rightarrow> nat \<Rightarrow> call_result" where
  "result_on rs tx = (case map_of rs tx of Some r \<Rightarrow> r | None \<Rightarrow> DriverIsDead)"

definition answers :: "(nat \<Rightarrow> resp) \<Rightarrow> call list \<Rightarrow> (nat \<times> call_result) list" where
  "answers f ks = map (\<lambda>i. (call_tx (ks ! i), Answer (f i))) [0..<length ks]"

lemma result_on_answers:
  assumes "distinct (map call_tx ks)" and "i < length ks"
  shows "result_on (answers f ks) (call_tx (ks ! i)) = Answer (f i)"
proof -
  have "map fst (answers f ks) = map call_tx ks" by (intro nth_equalityI) (simp_all add: answers_def)
  then have "distinct (map fst (answers f ks))" using assms(1) by simp
  moreover have "(call_tx (ks ! i), Answer (f i)) \<in> set (answers f ks)" using assms(2) by (auto simp: answers_def)
  ultimately show ?thesis by (simp add: result_on_def)
qed

lemma session_answers:
  assumes own: "filter (\<lambda>r. reply r = conn) rs = map (\<lambda>k. request_of conn (call_body k)) ks"
    and alone: "list_all (\<lambda>k. leaves_alone conn (call_key k) rs) ks" and fits: "list_all call_fits ks"
  shows "answers (\<lambda>i. history_answer d rs (positions conn rs ! i)) ks = answers (call_answer d ks) ks"
proof -
  have "history_answer d rs (positions conn rs ! i) = call_answer d ks i" if i: "i < length ks" for i
  proof -
    have "call_fits (ks ! i)" "leaves_alone conn (call_key (ks ! i)) rs" using fits alone i by (simp_all add: list_all_length)
    then have alone: "leaves_alone conn (fst (kv_of (data (filter (\<lambda>r. reply r = conn) rs ! i)))) rs"
      using request_of_call(3) i by (simp add: own)
    have "i < length (positions conn rs)" using i own by (simp add: length_positions)
    from own_history [OF this alone] show ?thesis unfolding own history_calls [OF fits i] .
  qed
  then show ?thesis by (simp add: answers_def)
qed

text \<open>PUTs followed by GETs: every GET sees the PUTs.\<close>

lemma call_puts_gets: "list_all (\<lambda>k. call_op k = Get) gs \<Longrightarrow> call_puts gs = []"
  by (induction gs) (auto simp: call_puts_def)

lemma answer_after_puts:
  assumes "list_all (\<lambda>k. call_op k = Get) gs" and "k \<in> set gs" and "distinct (map call_tx (ps @ gs))"
  shows "result_on (answers (call_answer d (ps @ gs)) (ps @ gs)) (call_tx k) =
    Answer (case map_of (rev (call_puts ps)) (call_key k) of
        Some v \<Rightarrow> Value v
      | None \<Rightarrow> (case db_get d (call_key k) of Some v \<Rightarrow> Value v | None \<Rightarrow> Miss))"
proof -
  obtain j where j: "j < length gs" "gs ! j = k" using assms(2) by (metis in_set_conv_nth)
  have "list_all (\<lambda>k. call_op k = Get) (take j gs)" using assms(1) by (auto simp: list_all_iff dest: in_set_takeD)
  then have "call_puts (take (length ps + j) (ps @ gs)) = call_puts ps"
    using call_puts_gets by (simp add: call_puts_def)
  moreover have "(ps @ gs) ! (length ps + j) = k" "call_op k = Get" using j assms(1) by (auto simp: list_all_iff)
  ultimately show ?thesis
    using result_on_answers [OF assms(3), of "length ps + j" "call_answer d (ps @ gs)"] j(1)
    by (simp add: call_answer_def cong: option.case_cong)
qed

lemma answer_to_put:
  assumes "k \<in> set ps" and "call_op k = Put" and "distinct (map call_tx (ps @ gs))"
  shows "result_on (answers (call_answer d (ps @ gs)) (ps @ gs)) (call_tx k) = Answer Ok"
proof -
  obtain j where j: "j < length ps" "ps ! j = k" using assms(1) by (metis in_set_conv_nth)
  then have "(ps @ gs) ! j = k" "j < length (ps @ gs)" by (simp_all add: nth_append)
  then show ?thesis using result_on_answers [OF assms(3), of j "call_answer d (ps @ gs)"] assms(2) by (simp add: call_answer_def)
qed

lemma for_each_lines:
  "\<forall>x \<in> set xs. f x = ([g x], True) \<Longrightarrow> for_each f xs = (map g xs, True)"
  by (induction xs) (auto simp: and_then_def)

text \<open>Both examples: PUTs of the pairs, GETs of the same keys in any order, one GET of another key.\<close>

definition put_calls :: "(bytes \<times> bytes) list \<Rightarrow> call list" where
  "put_calls ps = map (\<lambda>(tx, k, v). client_put k v tx) (enumerate 0 ps)"

definition get_calls :: "(bytes \<times> bytes) list \<Rightarrow> call list" where
  "get_calls ps = map (\<lambda>(tx, k, v). client_get k tx) (enumerate (length ps) ps)"

lemma call_puts_put_calls: "call_puts (put_calls ps) = ps"
proof -
  have "call_puts (map (\<lambda>(tx, k, v). client_put k v tx) (enumerate n ps)) = ps" for n
    by (induction ps arbitrary: n) (auto simp: call_puts_def client_put_def opt_bytes_def)
  then show ?thesis by (simp add: put_calls_def)
qed

lemma pairs_answers:
  assumes perm: "mset gs = mset (get_calls ps)" and keys: "distinct (map fst ps)" "miss \<notin> set (map fst ps)" "db_get d miss = None"
  defines "ks \<equiv> put_calls ps @ gs @ [client_get miss (2 * length ps)]"
  shows "\<forall>(tx, k, v) \<in> set (enumerate 0 ps). result_on (answers (call_answer d ks) ks) tx = Answer Ok"
    and "\<forall>(tx, k, v) \<in> set (enumerate (length ps) ps). result_on (answers (call_answer d ks) ks) tx = Answer (Value v)"
    and "result_on (answers (call_answer d ks) ks) (2 * length ps) = Answer Miss"
proof -
  let ?gs = "gs @ [client_get miss (2 * length ps)]"
  have txs: "map call_tx (put_calls ps) = [0..<length ps]" "map call_tx (get_calls ps) = [length ps..<2 * length ps]"
    by (auto intro!: nth_equalityI simp: put_calls_def get_calls_def nth_enumerate_eq client_put_def client_get_def split: prod.splits)
  have set_gs: "set gs = set (get_calls ps)" using perm by (metis set_mset_mset)
  have "mset (map call_tx gs) = mset (map call_tx (get_calls ps))" using perm by simp
  then have "distinct (map call_tx gs)" "set (map call_tx gs) = {length ps..<2 * length ps}"
    unfolding txs by (metis distinct_upt mset_eq_imp_distinct_iff, metis set_mset_mset set_upt)
  then have dist: "distinct (map call_tx (put_calls ps @ ?gs))"
    using txs(1) by (auto simp: client_get_def)
  have gets: "list_all (\<lambda>k. call_op k = Get) ?gs"
    using set_gs by (auto simp: list_all_iff get_calls_def client_get_def)
  have ks: "ks = put_calls ps @ ?gs" by (simp add: ks_def)
  show "\<forall>(tx, k, v) \<in> set (enumerate 0 ps). result_on (answers (call_answer d ks) ks) tx = Answer Ok"
  proof (clarify)
    fix tx k v
    assume "(tx, k, v) \<in> set (enumerate 0 ps)"
    then have "client_put k v tx \<in> set (put_calls ps)" by (force simp: put_calls_def)
    from answer_to_put [OF this _ dist] show "result_on (answers (call_answer d ks) ks) tx = Answer Ok"
      unfolding ks by (simp add: client_put_def)
  qed
  show "\<forall>(tx, k, v) \<in> set (enumerate (length ps) ps). result_on (answers (call_answer d ks) ks) tx = Answer (Value v)"
  proof (clarify)
    fix tx k v
    assume a: "(tx, k, v) \<in> set (enumerate (length ps) ps)"
    then have "client_get k tx \<in> set ?gs" using set_gs by (force simp: get_calls_def)
    moreover have "(k, v) \<in> set (rev ps)" using a by (auto simp: in_set_enumerate_eq) (metis add.commute add_diff_inverse_nat add_less_cancel_left leD nth_mem)
    then have "map_of (rev ps) k = Some v" using keys(1) by (intro map_of_is_SomeI) (simp_all flip: rev_map)
    ultimately show "result_on (answers (call_answer d ks) ks) tx = Answer (Value v)"
      using answer_after_puts [OF gets _ dist, of "client_get k tx"] unfolding ks by (simp add: client_get_def call_puts_put_calls)
  qed
  have "map_of (rev ps) miss = None" using keys(2) by (simp add: map_of_eq_None_iff)
  then show "result_on (answers (call_answer d ks) ks) (2 * length ps) = Answer Miss"
    using answer_after_puts [OF gets _ dist, of "client_get miss (2 * length ps)" d] keys(3) unfolding ks
    by (simp add: client_get_def call_puts_put_calls)
qed

lemma length_pairs: "length sync_pairs = 4" "length async_pairs = 3"
  by (simp_all add: sync_pairs_def async_pairs_def)

lemma sync_calls_pairs: "sync_calls = put_calls sync_pairs @ get_calls sync_pairs @ [client_get sync_missing (2 * length sync_pairs)]"
  by (simp add: sync_calls_def put_calls_def get_calls_def length_pairs)

lemma async_calls_pairs:
  "async_gets = get_calls async_pairs"
  "async_calls gs = put_calls async_pairs @ gs @ [client_get async_missing (2 * length async_pairs)]"
  by (simp_all add: async_calls_def async_gets_def put_calls_def get_calls_def length_pairs)

lemma example_keys:
  "distinct (map fst sync_pairs)" "sync_missing \<notin> set (map fst sync_pairs)"
  "distinct (map fst async_pairs)" "async_missing \<notin> set (map fst async_pairs)"
  by (simp_all add: sync_pairs_def sync_missing_def async_pairs_def async_missing_def ascii_def)

lemma example_calls_fit: "list_all call_fits sync_calls" "list_all call_fits async_gets" "list_all call_fits (async_calls [])"
  by (auto simp: sync_calls_def async_gets_def async_calls_def sync_pairs_def async_pairs_def sync_missing_def async_missing_def
      ascii_def call_fits_def call_ok_def call_body_def client_get_def client_put_def MAX_FRAME_def opt_bytes_def)

lemma async_calls_fit:
  assumes "mset gets = mset async_gets"
  shows "list_all call_fits (async_calls gets)"
proof -
  have "set gets = set async_gets" using assms by (metis set_mset_mset)
  then show ?thesis using example_calls_fit(2,3) by (auto simp: list_all_iff async_calls_def)
qed

section \<open>What they print\<close>

text \<open>
  The blocking example prints what its comments say. When the server's history contains its
  calls in order, among requests of others that leave its keys alone, and the last key is not in
  the table, the answers due make it print every PUT with \<open>Ok\<close>, every GET with the value put
  before, and \<open>Miss\<close> for the missing key, and return without an error.
\<close>

lemma sync_answers_print:
  assumes "filter (\<lambda>r. reply r = conn) rs = map (\<lambda>k. request_of conn (call_body k)) sync_calls"
    and "list_all (\<lambda>k. leaves_alone conn (call_key k) rs) sync_calls" and miss: "db_get d sync_missing = None"
  shows "sync_main True (result_on (answers (\<lambda>i. history_answer d rs (positions conn rs ! i)) sync_calls)) =
    ([Connecting, Connected] @ map (\<lambda>(k, v). PutLine k v Ok) sync_pairs @ [Blank] @
     map (\<lambda>(k, v). GotValue k v) sync_pairs @ [Blank, ExpectedMiss Miss], True)"
proof -
  let ?res = "result_on (answers (call_answer d sync_calls) sync_calls)"
  note a = pairs_answers [OF refl example_keys(1,2) miss, folded sync_calls_pairs]
  have "for_each (\<lambda>(tx, k, v). with_answer (?res tx) (PutLine k v)) (enumerate 0 sync_pairs) =
      (map (\<lambda>(tx, k, v). PutLine k v Ok) (enumerate 0 sync_pairs), True)"
    using a(1) by (intro for_each_lines) (auto simp: with_answer_def)
  moreover have "for_each (\<lambda>(tx, k, v). with_answer (?res tx) (get_line k)) (enumerate 4 sync_pairs) =
      (map (\<lambda>(tx, k, v). GotValue k v) (enumerate 4 sync_pairs), True)"
    using a(2) by (intro for_each_lines) (auto simp: with_answer_def length_pairs)
  moreover have "with_answer (?res 8) ExpectedMiss = ([ExpectedMiss Miss], True)"
    using a(3) by (simp add: with_answer_def length_pairs)
  ultimately show ?thesis
    unfolding session_answers [OF assms(1,2) example_calls_fit(1)]
    by (simp add: sync_main_def and_then_def print_line_def sync_pairs_def)
qed

text \<open>
  The tokio example prints its answers in the order of its keys, in whatever order its
  concurrent GETs are in the server's history.
\<close>

lemma async_answers_print:
  assumes perm: "mset gets = mset async_gets"
    and "filter (\<lambda>r. reply r = conn) rs = map (\<lambda>k. request_of conn (call_body k)) (async_calls gets)"
    and "list_all (\<lambda>k. leaves_alone conn (call_key k) rs) (async_calls gets)" and miss: "db_get d async_missing = None"
  shows "async_main True (result_on (answers (\<lambda>i. history_answer d rs (positions conn rs ! i)) (async_calls gets))) =
    ([Connecting, Connected] @ map (\<lambda>(k, v). PutDone k Ok) async_pairs @ [Blank, FiringGets] @
     map (\<lambda>(k, v). GotValue k v) async_pairs @ [Blank, ExpectedMiss Miss], True)"
proof -
  let ?ks = "async_calls gets"
  let ?res = "result_on (answers (call_answer d ?ks) ?ks)"
  note fits = async_calls_fit [OF perm]
  note a = pairs_answers [OF perm [unfolded async_calls_pairs] example_keys(3,4) miss, folded async_calls_pairs]
  have "for_each (\<lambda>(tx, k, v). with_answer (?res tx) (PutDone k)) (enumerate 0 async_pairs) =
      (map (\<lambda>(tx, k, v). PutDone k Ok) (enumerate 0 async_pairs), True)"
    using a(1) by (intro for_each_lines) (auto simp: with_answer_def)
  moreover have "for_each (\<lambda>(tx, k, v). with_answer (?res tx) (get_line k)) (enumerate 3 async_pairs) =
      (map (\<lambda>(tx, k, v). GotValue k v) (enumerate 3 async_pairs), True)"
    using a(2) by (intro for_each_lines) (auto simp: with_answer_def length_pairs)
  moreover have "with_answer (?res 6) ExpectedMiss = ([ExpectedMiss Miss], True)"
    using a(3) by (simp add: with_answer_def length_pairs)
  ultimately show ?thesis
    unfolding session_answers [OF assms(2,3) fits]
    by (simp add: async_main_def and_then_def print_line_def async_pairs_def)
qed

end
