(* ===== verification/Example_Runs.thy ===== *)
theory Example_Runs
  imports Example_Programs Async_Client
begin

text \<open>
  The example programs run: the calls go through the client, over the connection to stage 1 and
  stage 2 of a server in mode \<open>NoFsync\<close>, and the responses come back through the connection's writer
  and the client's reader to the callers.
\<close>

section \<open>Results of complete sessions\<close>

text \<open>
  When all calls of a client have reached the server and all responses have come back, what the
  frames of the stream answer is the history of the server.
\<close>

lemma session_frames:
  assumes "list_all call_fits ks" "filter (\<lambda>r. reply r = cn) (concat cs) = read_conn (\<lambda>_. True) cn 0 (encode_calls ks)"
    and "list_all group_ok cs" "list_all req_fits (concat cs)" "db_inv d" "values_fit d" "unat l + puts (concat cs) < 2 ^ 64"
      "stage2_run (acker_new NoFsync) (stage2_new d l) cs = Inr (s, sent, msgs)"
    and "writer sched (replies_on cn sent) = Inr w" "list_all (\<lambda>t. snd t = None) sched" "length ks \<le> length sched"
  shows "zip (map call_tx ks) (map Answer (fst (frames resp_dec w))) =
    answers (\<lambda>i. history_answer d (concat cs) (positions cn (concat cs) ! i)) ks"
proof -
  from server_session [OF assms(1) prefix_order.refl assms(2-9) prefix_order.refl] assms(10,11)
  have "fst (frames resp_dec w) = map (\<lambda>i. history_answer d (concat cs) (positions cn (concat cs) ! i)) [0..<length ks]" by blast
  then show ?thesis by (intro nth_equalityI) (simp_all add: answers_def)
qed

section \<open>The programs\<close>

text \<open>
  The blocking example. On a connection that stays up, with all its calls written and all responses
  read, it prints every PUT with \<open>Ok\<close>, every GET with the value put before and \<open>Miss\<close> for the
  missing key, and returns without an error.
\<close>

lemma sync_example_prints:
  assumes client: "client_run client_connect evs c" "list_all keeps_up evs" "calls_of evs = sync_calls" "chan c = []"
    and arrived: "filter (\<lambda>r. reply r = cn) (concat cs) = read_conn (\<lambda>_. True) cn 0 (sock_out c)"
    and server: "list_all group_ok cs" "list_all req_fits (concat cs)" "db_inv d" "values_fit d" "unat l + puts (concat cs) < 2 ^ 64"
      "stage2_run (acker_new NoFsync) (stage2_new d l) cs = Inr (s, sent, msgs)"
    and returned: "writer sched (replies_on cn sent) = Inr (read_of evs)" "list_all (\<lambda>t. snd t = None) sched" "length sync_calls \<le> length sched"
    and alone: "list_all (\<lambda>k. leaves_alone cn (call_key k) (concat cs)) sync_calls" "db_get d sync_missing = None"
  shows "sync_main True (result_on (results c)) =
    ([Connecting, Connected] @ map (\<lambda>(k, v). PutLine k v Ok) sync_pairs @ [Blank] @
     map (\<lambda>(k, v). GotValue k v) sync_pairs @ [Blank, ExpectedMiss Miss], True)"
proof -
  have out: "sock_out c = encode_calls sync_calls"
    and res: "results c = zip (map call_tx sync_calls) (map Answer (fst (frames resp_dec (read_of evs))))"
    using client_results [OF client(1,2)] client(3,4) by auto
  note arrived = arrived [unfolded out]
  have "filter (\<lambda>r. reply r = cn) (concat cs) = map (\<lambda>k. request_of cn (call_body k)) sync_calls"
    unfolding arrived by (rule read_calls [OF example_calls_fit(1)])
  from sync_answers_print [OF this alone] show ?thesis
    unfolding res session_frames [OF example_calls_fit(1) arrived server returned] .
qed

text \<open>
  C37. The tokio example prints its answers in the order of its keys, in whatever order its
  concurrent GETs are made, under any schedule of the tokio client and in any grouping of the
  server's turns. Let the client run on a connection that stays up until all calls of the program
  are written and the responses read are handed over; let stage 1 and stage 2 of a server in mode
  \<open>NoFsync\<close> serve them among the requests of others, who leave its keys alone, and the
  connection's writer send all responses back. Then the program prints every PUT with \<open>Ok\<close>, then for
  each key in turn the value put before, then \<open>Miss\<close> for the key that is not in the table, and
  returns without an error.
\<close>

theorem async_example_prints:
  assumes gets: "mset gets = mset async_gets"
    and client: "async_run async_connect aevs a" "list_all akeeps_up aevs" "acalls_of aevs = async_calls gets"
      "chan (conn a) = []" "unwritten a = None" "waiting (conn a) = None \<or> fifo (conn a) = []"
    and arrived: "filter (\<lambda>r. reply r = cn) (concat cs) = read_conn (\<lambda>_. True) cn 0 (sock_out (conn a))"
    and server: "list_all group_ok cs" "list_all req_fits (concat cs)" "db_inv d" "values_fit d" "unat l + puts (concat cs) < 2 ^ 64"
      "stage2_run (acker_new NoFsync) (stage2_new d l) cs = Inr (s, sent, msgs)"
    and returned: "writer sched (replies_on cn sent) = Inr (aread_of aevs)" "list_all (\<lambda>t. snd t = None) sched"
      "length (async_calls gets) \<le> length sched"
    and alone: "list_all (\<lambda>k. leaves_alone cn (call_key k) (concat cs)) (async_calls gets)" "db_get d async_missing = None"
  shows "async_main True (result_on (results (conn a))) =
    ([Connecting, Connected] @ map (\<lambda>(k, v). PutDone k Ok) async_pairs @ [Blank, FiringGets] @
     map (\<lambda>(k, v). GotValue k v) async_pairs @ [Blank, ExpectedMiss Miss], True)"
proof -
  note fits = async_calls_fit [OF gets]
  have out: "sock_out (conn a) = encode_calls (async_calls gets)"
    and res: "results (conn a) = zip (map call_tx (async_calls gets)) (map Answer (fst (frames resp_dec (aread_of aevs))))"
    using async_results [OF client(1,2,5,6)] client(3,4) by auto
  note arrived = arrived [unfolded out]
  have "filter (\<lambda>r. reply r = cn) (concat cs) = map (\<lambda>k. request_of cn (call_body k)) (async_calls gets)"
    unfolding arrived by (rule read_calls [OF fits])
  from async_answers_print [OF gets this alone] show ?thesis
    unfolding res session_frames [OF fits arrived server returned] .
qed

section \<open>A concrete run\<close>

text \<open>Requests of one turn of a server that serves one client alone.\<close>

lemma own_requests:
  assumes "list_all call_fits ks"
  shows "list_all req_fits (map (\<lambda>k. request_of cn (call_body k)) ks)"
proof -
  have "req_fits (request_of cn (call_body k))" if "call_fits k" for k
  proof -
    have len: "length (call_body k) \<le> MAX_FRAME" using that by (simp add: call_fits_def)
    then have "length (call_key k) < 2 ^ 32" by (simp add: call_body_def MAX_FRAME_def)
    then have "wf_body (call_body k)" by (simp add: call_body_def)
    then show ?thesis using len wf_body_nonempty by (simp add: req_fits_def request_of_def wf_req_def)
  qed
  then show ?thesis using assms by (auto simp: list_all_iff)
qed

text \<open>The GETs are made in reverse order, and everything is served in one turn.\<close>

theorem async_example_prints_witness:
  "\<exists>aevs a. async_run async_connect aevs a \<and> acalls_of aevs = async_calls (rev async_gets) \<and>
     async_main True (result_on (results (conn a))) =
      ([Connecting, Connected] @ map (\<lambda>(k, v). PutDone k Ok) async_pairs @ [Blank, FiringGets] @
       map (\<lambda>(k, v). GotValue k v) async_pairs @ [Blank, ExpectedMiss Miss], True)"
proof -
  let ?ks = "async_calls (rev async_gets)"
  let ?rs = "map (\<lambda>k. request_of 3 (call_body k)) ?ks"
  have gets: "mset (rev async_gets) = mset async_gets" by simp
  note fits = async_calls_fit [OF gets]
  have seven: "length ?ks = 7" by (simp add: async_calls_def async_gets_def async_pairs_def)
  have rf: "list_all req_fits ?rs" by (rule own_requests [OF fits])
  then have g: "list_all group_ok [?rs]" using seven by (auto simp: group_ok_def MAX_BATCH_def list_all_iff req_fits_def)
  have d: "db_inv []" "values_fit []" by (simp_all add: db_inv_def values_fit_def)
  have "puts ?rs \<le> 7" using seven length_filter_le [of is_put ?rs] by (simp add: puts_def)
  then have nw: "unat (1 :: u64) + puts (concat [?rs]) < 2 ^ 64" by simp
  obtain s sent msgs where run: "stage2_run (acker_new NoFsync) (stage2_new [] 1) [?rs] = Inr (s, sent, msgs)"
    and q: "sent = map (\<lambda>i. (reply (concat [?rs] ! i), history_answer [] (concat [?rs]) i)) [0..<length (concat [?rs])]"
    using nofsync_run [OF g d(1) nw] by auto
  let ?sched = "replicate 7 (0, None)"
  have "UnknownResp \<notin> set (replies_on 3 sent)"
    using history_resp_ok [OF d(2), of "concat [?rs]"] rf by (fastforce simp: q replies_on_def resp_ok_def)
  then obtain w where w: "writer ?sched (replies_on 3 sent) = Inr w" using writer_prefix [of "replies_on 3 sent" ?sched] by auto
  let ?evs = "map AvCall ?ks @ [AvTake, AvWrite (length (encode_calls ?ks)), AvFlushed, AvRead w]"
  obtain a where a: "async_run async_connect ?evs a" "chan (conn a) = []" "unwritten a = None" "waiting (conn a) = None \<or> fifo (conn a) = []"
    using async_group [of ?ks w] seven by (metis length_0_conv numeral_eq_iff zero_neq_numeral)
  have "acalls_of (map AvCall ks) = ks" "aread_of (map AvCall ks) = []" for ks by (induction ks) simp_all
  then have ev: "acalls_of ?evs = ?ks" "aread_of ?evs = w" "list_all akeeps_up ?evs" by (simp_all add: list_all_iff)
  have "sock_out (conn a) = encode_calls ?ks" using async_results [OF a(1) ev(3) a(3,4)] ev(1) a(2) by auto
  then have arrived: "filter (\<lambda>r. reply r = 3) (concat [?rs]) = read_conn (\<lambda>_. True) 3 0 (sock_out (conn a))"
    using read_calls [OF fits, of 3] by (simp add: filter_id_conv request_of_def)
  have sched: "list_all (\<lambda>t. snd t = None) ?sched" "length ?ks \<le> length ?sched" using seven by (simp_all add: list_all_iff)
  have alone: "list_all (\<lambda>k. leaves_alone 3 (call_key k) (concat [?rs])) ?ks" "db_get [] async_missing = None"
    by (simp_all add: leaves_alone_def list_all_iff request_of_def db_get_def)
  have rf1: "list_all req_fits (concat [?rs])" using rf by simp
  from async_example_prints [OF gets a(1) ev(3,1) a(2-4) arrived g rf1 d nw run _ sched alone] w ev(1,2) a(1)
  show ?thesis by (intro exI [of _ ?evs] exI [of _ a]) simp
qed

end
