(* ===== verification/Bench.thy ===== *)
theory Bench
  imports Example_Programs Wal_Format
begin

text \<open>
  The throughput benchmark of the client crate (\<open>examples/bench.rs\<close>): its configuration, the keys
  that the warm-up writes, and the keys that the tasks of the PUT and GET phases ask for, with the
  number of successful calls. Time is a parameter: a task makes as many calls as its list of
  results has, which ends at the deadline. \<open>bench_main\<close> puts the parts together, with the errors and
  panics that end the program. The texts it prints and the division of counts by seconds are left
  out.
\<close>

section \<open>Configuration\<close>

text \<open>The environment gives the variables that are set and Unicode.\<close>

definition bench_cfg :: "(string \<Rightarrow> string option) \<Rightarrow> string \<Rightarrow> string \<Rightarrow> string" where
  "bench_cfg env key dflt = (case env key of Some v \<Rightarrow> v | None \<Rightarrow> dflt)"

record bench_config =
  bench_addr :: string
  bench_secs :: nat
  bench_conc :: nat
  bench_val_size :: nat

definition bench_args :: "(string \<Rightarrow> string option) \<Rightarrow> bench_config option" where
  "bench_args env =
     (case parse_u64 (bench_cfg env ''BENCH_SECS'' ''5'') of
        None \<Rightarrow> None
      | Some secs \<Rightarrow>
          case parse_u64 (bench_cfg env ''BENCH_CONC'' ''32'') of
            None \<Rightarrow> None
          | Some conc \<Rightarrow>
              case parse_u64 (bench_cfg env ''BENCH_VAL_SIZE'' ''64'') of
                None \<Rightarrow> None
              | Some sz \<Rightarrow>
                  Some \<lparr>bench_addr = bench_cfg env ''BENCH_ADDR'' ''127.0.0.1:9000'', bench_secs = unat secs,
                        bench_conc = unat conc, bench_val_size = unat sz\<rparr>)"

section \<open>Keys\<close>

definition KEY_COUNT :: nat where
  "KEY_COUNT = 10000"

text \<open>\<open>format!("bench:{i:08}")\<close>.\<close>

definition pad8 :: "string \<Rightarrow> string" where
  "pad8 s = replicate (8 - length s) (CHR ''0'') @ s"

definition bench_key :: "nat \<Rightarrow> bytes" where
  "bench_key i = ascii (''bench:'' @ pad8 (show_nat i))"

text \<open>The division panics when the concurrency is 0.\<close>

definition keys_per_task :: "nat \<Rightarrow> nat outcome" where
  "keys_per_task conc = (if conc = 0 then Inl ExplicitPanic else Inr (KEY_COUNT div conc))"

section \<open>The phases\<close>

text \<open>The PUTs of each task of the warm-up.\<close>

definition warmup :: "nat \<Rightarrow> bytes \<Rightarrow> (bytes \<times> bytes) list list outcome" where
  "warmup conc v =
     obind (keys_per_task conc) (\<lambda>n.
       Inr (map (\<lambda>t. map (\<lambda>i. (bench_key i, v)) [t * n..<t * n + n]) [0..<conc]))"

text \<open>
  The loop of a task, with the call it makes for a key: its calls and the number of those that
  succeeded, given their results. An error ends it. The counter \<open>i\<close> is a \<open>u64\<close>.
\<close>

fun bench_task :: "(bytes \<Rightarrow> 'c) \<Rightarrow> nat \<Rightarrow> u64 \<Rightarrow> call_result list \<Rightarrow> 'c list \<times> nat" where
  "bench_task mk base_key i [] = ([], 0)"
| "bench_task mk base_key i (r # rs) =
     (let c = mk (bench_key (unat ((of_nat base_key + i) mod of_nat KEY_COUNT))) in
      case r of
        Answer a \<Rightarrow> (let (cs, n) = bench_task mk base_key (i + 1) rs in (c # cs, Suc n))
      | _ \<Rightarrow> ([c], 0))"

text \<open>The two phases: the calls of each task and the total of the shared counter.\<close>

definition put_phase :: "nat \<Rightarrow> bytes \<Rightarrow> (nat \<Rightarrow> call_result list) \<Rightarrow> ((bytes \<times> bytes) list list \<times> nat) outcome" where
  "put_phase conc v res =
     obind (keys_per_task conc) (\<lambda>n.
       let tasks = map (\<lambda>t. bench_task (\<lambda>key. (key, v)) ((t * n) mod KEY_COUNT) 0 (res t)) [0..<conc]
       in Inr (map fst tasks, sum_list (map snd tasks)))"

definition get_phase :: "nat \<Rightarrow> (nat \<Rightarrow> call_result list) \<Rightarrow> (bytes list list \<times> nat) outcome" where
  "get_phase conc res =
     obind (keys_per_task conc) (\<lambda>n.
       let tasks = map (\<lambda>t. bench_task (\<lambda>key. key) ((t * n) mod KEY_COUNT) 0 (res t)) [0..<conc]
       in Inr (map fst tasks, sum_list (map snd tasks)))"

section \<open>The program\<close>

text \<open>
  A task of the warm-up ends at the first error, given the result of each of its calls: the PUTs it
  made and whether it returned \<open>Ok\<close>.
\<close>

fun warmup_task :: "(bytes \<times> bytes) list \<Rightarrow> (nat \<Rightarrow> call_result) \<Rightarrow> nat \<Rightarrow> (bytes \<times> bytes) list \<times> bool" where
  "warmup_task [] res i = ([], True)"
| "warmup_task (p # ps) res i =
     (case res i of
        Answer a \<Rightarrow> (let (cs, good) = warmup_task ps res (Suc i) in (p # cs, good))
      | _ \<Rightarrow> ([p], False))"

text \<open>\<open>Instant::now() + duration\<close> in seconds of a signed 64-bit clock; the addition panics on overflow.\<close>

definition deadline :: "nat \<Rightarrow> nat \<Rightarrow> nat outcome" where
  "deadline now secs = (if now + secs < 2 ^ 63 then Inr (now + secs) else Inl ExplicitPanic)"

definition bench_value :: "nat \<Rightarrow> bytes" where
  "bench_value n = replicate n (of_char (CHR ''x''))"

text \<open>How \<open>main\<close> ends: by the error of a \<open>?\<close>, or with the two totals.\<close>

datatype bench_end = BadArgument | NotConnected | WarmupError | Totals nat nat

text \<open>
  \<open>wres\<close>, \<open>pres\<close> and \<open>gres\<close> are the results of the calls of each task in the warm-up and in the two
  phases, \<open>now1\<close> and \<open>now2\<close> the times at which the phases start.
\<close>

definition bench_main ::
  "(string \<Rightarrow> string option) \<Rightarrow> bool \<Rightarrow> (nat \<Rightarrow> nat \<Rightarrow> call_result) \<Rightarrow> nat \<Rightarrow> (nat \<Rightarrow> call_result list) \<Rightarrow>
     nat \<Rightarrow> (nat \<Rightarrow> call_result list) \<Rightarrow> bench_end outcome" where
  "bench_main env connected wres now1 pres now2 gres =
     (case bench_args env of
        None \<Rightarrow> Inr BadArgument
      | Some c \<Rightarrow>
          (let v = bench_value (bench_val_size c) in
           if \<not> connected then Inr NotConnected
           else
             obind (warmup (bench_conc c) v) (\<lambda>tasks.
               if \<not> list_all (\<lambda>t. snd (warmup_task (tasks ! t) (wres t) 0)) [0..<length tasks] then Inr WarmupError
               else
                 obind (deadline now1 (bench_secs c)) (\<lambda>_.
                 obind (put_phase (bench_conc c) v pres) (\<lambda>(puts, put_ops).
                 obind (deadline now2 (bench_secs c)) (\<lambda>_.
                 obind (get_phase (bench_conc c) gres) (\<lambda>(gets, get_ops).
                   Inr (Totals put_ops get_ops))))))))"

section \<open>Facts\<close>

lemma pad8_inject: "n < 2 ^ 64 \<Longrightarrow> m < 2 ^ 64 \<Longrightarrow> pad8 (show_nat n) = pad8 (show_nat m) \<Longrightarrow> n = m"
  using parse_zeros parse_show_nat unfolding pad8_def by (metis option.inject)

lemma ascii_inject: "ascii s = ascii t \<Longrightarrow> s = t"
proof -
  have "inj (of_char :: char \<Rightarrow> u8)"
  proof (rule injI)
    fix c d :: char
    assume "(of_char c :: u8) = of_char d"
    then have "unat (of_nat (of_char c) :: u8) = unat (of_nat (of_char d) :: u8)" by (simp add: of_nat_of_char)
    then show "c = d" by (simp add: unat_of_nat)
  qed
  then show "ascii s = ascii t \<Longrightarrow> s = t" by (simp add: ascii_def inj_map_eq_map)
qed

lemma bench_key_inject: "n < 2 ^ 64 \<Longrightarrow> m < 2 ^ 64 \<Longrightarrow> bench_key n = bench_key m \<Longrightarrow> n = m"
  using ascii_inject pad8_inject unfolding bench_key_def by (metis same_append_eq)

lemma bench_key_inj: "inj_on bench_key {..<KEY_COUNT}"
  by (intro inj_onI bench_key_inject) (auto simp: KEY_COUNT_def)

lemma concat_slices: "concat (map (\<lambda>t. [t * n..<t * n + n]) [0..<c]) = [0..<c * n]"
proof (induction c)
  case 0
  then show ?case by simp
next
  case (Suc c)
  then have "concat (map (\<lambda>t. [t * n..<t * n + n]) [0..<Suc c]) = [0..<c * n] @ [c * n..<c * n + n]" by simp
  also have "\<dots> = [0..<c * n + n]" using upt_add_eq_append [of 0 "c * n" n] by simp
  finally show ?case by (simp add: add.commute)
qed

lemma concat_map_map: "concat (map (\<lambda>t. map f (g t)) ts) = map f (concat (map g ts))"
  by (simp add: map_concat o_def)

text \<open>A task whose calls all succeed, started at iteration \<open>i\<close>.\<close>

lemma bench_task_keys:
  assumes "list_all (\<lambda>r. \<exists>a. r = Answer a) rs" and "b < KEY_COUNT" and "b + i + length rs < 2 ^ 64"
  shows "bench_task mk b (of_nat i) rs = (map (\<lambda>j. mk (bench_key ((b + j) mod KEY_COUNT))) [i..<i + length rs], length rs)"
  using assms
proof (induction rs arbitrary: i)
  case Nil
  then show ?case by simp
next
  case (Cons r rs)
  then obtain a where r: "r = Answer a" by auto
  have "unat (of_nat (b + i) mod of_nat KEY_COUNT :: u64) = (b + i) mod KEY_COUNT"
    using Cons.prems(3) by (simp add: unat_mod_distrib unat_of_nat KEY_COUNT_def del: of_nat_add)
  then have key: "unat ((of_nat b + of_nat i) mod of_nat KEY_COUNT :: u64) = (b + i) mod KEY_COUNT" by simp
  have "bench_task mk b (of_nat (Suc i)) rs = (map (\<lambda>j. mk (bench_key ((b + j) mod KEY_COUNT))) [Suc i..<Suc i + length rs], length rs)"
    using Cons.prems by (intro Cons.IH) simp_all
  moreover have "[i..<i + length (r # rs)] = i # [Suc i..<Suc i + length rs]"
    using upt_conv_Cons [of i "i + length (r # rs)"] by (simp del: upt_Suc)
  ultimately show ?case using key by (simp add: r add.commute del: upt_Suc)
qed

lemma mod_cycle: "0 < n \<Longrightarrow> (\<lambda>j. (b + j) mod n) ` {0..<n} = {..<n}" for n :: nat
proof
  assume n: "0 < n"
  show "(\<lambda>j. (b + j) mod n) ` {0..<n} \<subseteq> {..<n}" using n by auto
  show "{..<n} \<subseteq> (\<lambda>j. (b + j) mod n) ` {0..<n}"
  proof
    fix k
    assume "k \<in> {..<n}"
    then have k: "k < n" by simp
    have "(b + (k + (n - b mod n)) mod n) mod n = (b mod n + (k + (n - b mod n))) mod n" by (simp add: mod_add_left_eq mod_add_right_eq)
    also have "b mod n + (k + (n - b mod n)) = k + n" using n mod_less_divisor [of n b] by linarith
    finally have "(b + (k + (n - b mod n)) mod n) mod n = k" using k by simp
    then show "k \<in> (\<lambda>j. (b + j) mod n) ` {0..<n}" using n by (intro image_eqI [of _ _ "(k + (n - b mod n)) mod n"]) simp_all
  qed
qed

section \<open>Which keys are used\<close>

text \<open>
  The warm-up with a positive concurrency writes the keys from 0 below
  \<open>conc * (KEY_COUNT div conc)\<close>, each once, so it fills the whole pool exactly when the concurrency
  divides \<open>KEY_COUNT\<close>.
\<close>

lemma warmup_keys:
  assumes conc: "0 < conc"
  shows "\<exists>ps. warmup conc v = Inr ps \<and>
    concat ps = map (\<lambda>i. (bench_key i, v)) [0..<conc * (KEY_COUNT div conc)] \<and> distinct (map fst (concat ps)) \<and>
    (set (map fst (concat ps)) = bench_key ` {..<KEY_COUNT} \<longleftrightarrow> conc dvd KEY_COUNT)"
proof -
  let ?n = "KEY_COUNT div conc"
  let ?ps = "map (\<lambda>t. map (\<lambda>i. (bench_key i, v)) [t * ?n..<t * ?n + ?n]) [0..<conc]"
  have w: "warmup conc v = Inr ?ps" using conc by (simp add: warmup_def keys_per_task_def)
  have all: "concat ?ps = map (\<lambda>i. (bench_key i, v)) [0..<conc * ?n]" unfolding concat_map_map concat_slices ..
  then have keys: "map fst (concat ?ps) = map bench_key [0..<conc * ?n]" by simp
  have le: "conc * ?n \<le> KEY_COUNT" by simp
  have sub: "{0..<conc * ?n} \<subseteq> {..<KEY_COUNT}" using less_le_trans [OF _ le] by auto
  have inj: "inj_on bench_key {0..<conc * ?n}" by (rule inj_on_subset [OF bench_key_inj sub])
  then have dist: "distinct (map fst (concat ?ps))" unfolding keys by (simp add: distinct_map)
  have "bench_key ` {0..<conc * ?n} = bench_key ` {..<KEY_COUNT} \<longleftrightarrow> {0..<conc * ?n} = {..<KEY_COUNT}"
    by (rule inj_on_image_eq_iff [OF bench_key_inj sub subset_refl])
  also have "\<dots> \<longleftrightarrow> conc * ?n = KEY_COUNT" by (metis card_atLeastLessThan card_lessThan diff_zero lessThan_atLeast0)
  also have "\<dots> \<longleftrightarrow> conc dvd KEY_COUNT" by (metis dvd_triv_left dvd_mult_div_cancel)
  finally have "set (map fst (concat ?ps)) = bench_key ` {..<KEY_COUNT} \<longleftrightarrow> conc dvd KEY_COUNT" unfolding keys by simp
  then show ?thesis using w all dist by blast
qed

text \<open>The default concurrency of 32 leaves the last 16 keys of the pool unwritten.\<close>

lemma warmup_default: "\<exists>ps. warmup 32 v = Inr ps \<and> length (concat ps) = 9984 \<and> set (map fst (concat ps)) \<noteq> bench_key ` {..<KEY_COUNT}"
proof -
  have "(0 :: nat) < 32" by simp
  from warmup_keys [OF this, of v] obtain ps where ps: "warmup 32 v = Inr ps" "concat ps = map (\<lambda>i. (bench_key i, v)) [0..<32 * (KEY_COUNT div 32)]"
    "set (map fst (concat ps)) = bench_key ` {..<KEY_COUNT} \<longleftrightarrow> 32 dvd KEY_COUNT"
    by blast
  moreover have "length (concat ps) = 9984" unfolding ps(2) by (simp add: KEY_COUNT_def)
  moreover have "\<not> 32 dvd KEY_COUNT" by (simp add: KEY_COUNT_def)
  ultimately show ?thesis by blast
qed

text \<open>
  A task of the GET phase whose calls all succeed starts at its slice but goes on beyond it,
  around the whole pool: after \<open>KEY_COUNT\<close> calls it has asked for every key.
\<close>

lemma get_phase_keys:
  assumes "get_phase conc res = Inr (tasks, n)" and t: "t < conc"
    and task: "list_all (\<lambda>r. \<exists>a. r = Answer a) (res t)" "length (res t) + KEY_COUNT < 2 ^ 64" "KEY_COUNT \<le> length (res t)"
  shows "set (tasks ! t) = bench_key ` {..<KEY_COUNT}"
proof -
  let ?b = "(t * (KEY_COUNT div conc)) mod KEY_COUNT" and ?n = "length (res t)"
  have pos: "0 < KEY_COUNT" by (simp add: KEY_COUNT_def)
  have at: "tasks ! t = fst (bench_task (\<lambda>key. key) ?b 0 (res t))"
    using assms(1) t by (auto simp: get_phase_def obind_eq_Inr keys_per_task_def Let_def split: if_splits)
  have b: "?b < KEY_COUNT" using pos by simp
  from bench_task_keys [OF task(1) b, of 0 "\<lambda>key. key"] task(2) b
  have keys: "tasks ! t = map (\<lambda>j. bench_key ((?b + j) mod KEY_COUNT)) [0..<?n]" by (simp add: at)
  have "{..<KEY_COUNT} \<subseteq> (\<lambda>j. (?b + j) mod KEY_COUNT) ` {0..<?n}"
    unfolding mod_cycle [OF pos, of ?b, symmetric] using task(3) by (intro image_mono) simp
  then have "(\<lambda>j. (?b + j) mod KEY_COUNT) ` {0..<?n} = {..<KEY_COUNT}" using pos by auto
  then have "bench_key ` (\<lambda>j. (?b + j) mod KEY_COUNT) ` {0..<?n} = bench_key ` {..<KEY_COUNT}" by (rule arg_cong)
  then show ?thesis unfolding keys by (simp add: image_image)
qed

text \<open>The totals are the numbers of successful calls when no call fails.\<close>

lemma phase_total:
  assumes "\<forall>t < conc. list_all (\<lambda>r. \<exists>a. r = Answer a) (res t) \<and> length (res t) + KEY_COUNT < 2 ^ 64"
  shows "(\<Sum>t\<leftarrow>[0..<conc]. snd (bench_task mk ((t * (KEY_COUNT div conc)) mod KEY_COUNT) 0 (res t))) = (\<Sum>t\<leftarrow>[0..<conc]. length (res t))"
proof -
  have "snd (bench_task mk ((t * (KEY_COUNT div conc)) mod KEY_COUNT) 0 (res t)) = length (res t)" if "t < conc" for t
  proof -
    let ?b = "(t * (KEY_COUNT div conc)) mod KEY_COUNT"
    have b: "?b < KEY_COUNT" by (simp add: KEY_COUNT_def)
    moreover have "?b + 0 + length (res t) < 2 ^ 64" using b assms that by fastforce
    ultimately show ?thesis using bench_task_keys [of "res t" ?b 0 mk] assms that by simp
  qed
  then show ?thesis by (intro arg_cong [where f = sum_list] map_cong) simp_all
qed

lemma phase_totals:
  assumes "0 < conc" and "\<forall>t < conc. list_all (\<lambda>r. \<exists>a. r = Answer a) (res t) \<and> length (res t) + KEY_COUNT < 2 ^ 64"
  shows "\<exists>tasks. put_phase conc v res = Inr (tasks, \<Sum>t\<leftarrow>[0..<conc]. length (res t))"
    and "\<exists>tasks. get_phase conc res = Inr (tasks, \<Sum>t\<leftarrow>[0..<conc]. length (res t))"
  using assms(1) phase_total [OF assms(2)] by (simp_all add: put_phase_def get_phase_def keys_per_task_def Let_def o_def)

lemma warmup_task_all: "(\<And>j. \<exists>a. res j = Answer a) \<Longrightarrow> warmup_task ps res i = (ps, True)"
proof (induction ps arbitrary: i)
  case (Cons p ps)
  then obtain a where "res i = Answer a" by blast
  then show ?case using Cons by simp
qed simp

text \<open>
  The whole program: when every call is answered and the clock does not overflow, it ends with the
  numbers of calls of its two phases.
\<close>

lemma bench_main_totals:
  assumes args: "bench_args env = Some c" "0 < bench_conc c" and warm: "\<And>t j. \<exists>a. wres t j = Answer a"
    and clock: "now1 + bench_secs c < 2 ^ 63" "now2 + bench_secs c < 2 ^ 63"
    and put: "\<forall>t < bench_conc c. list_all (\<lambda>r. \<exists>a. r = Answer a) (pres t) \<and> length (pres t) + KEY_COUNT < 2 ^ 64"
    and get: "\<forall>t < bench_conc c. list_all (\<lambda>r. \<exists>a. r = Answer a) (gres t) \<and> length (gres t) + KEY_COUNT < 2 ^ 64"
  shows "bench_main env True wres now1 pres now2 gres =
    Inr (Totals (\<Sum>t\<leftarrow>[0..<bench_conc c]. length (pres t)) (\<Sum>t\<leftarrow>[0..<bench_conc c]. length (gres t)))"
proof -
  obtain tasks where "warmup (bench_conc c) (bench_value (bench_val_size c)) = Inr tasks"
    using warmup_keys [OF args(2)] by blast
  moreover have "list_all (\<lambda>t. snd (warmup_task (tasks ! t) (wres t) 0)) [0..<length tasks]"
    using warmup_task_all [OF warm] by (simp add: list_all_iff)
  moreover obtain puts gets where "put_phase (bench_conc c) (bench_value (bench_val_size c)) pres = Inr (puts, \<Sum>t\<leftarrow>[0..<bench_conc c]. length (pres t))"
    "get_phase (bench_conc c) gres = Inr (gets, \<Sum>t\<leftarrow>[0..<bench_conc c]. length (gres t))"
    using phase_totals(1) [OF args(2) put] phase_totals(2) [OF args(2) get] by blast
  ultimately show ?thesis using args(1) clock by (simp add: bench_main_def deadline_def)
qed

text \<open>It panics only without tasks or when the end of a phase is beyond the clock.\<close>

lemma bench_main_panics:
  assumes "bench_main env connected wres now1 pres now2 gres = Inl e"
  obtains c where "bench_args env = Some c" "connected"
    "bench_conc c = 0 \<or> 2 ^ 63 \<le> now1 + bench_secs c \<or> 2 ^ 63 \<le> now2 + bench_secs c"
proof -
  obtain c where c: "bench_args env = Some c" "connected"
    using assms by (auto simp: bench_main_def Let_def split: option.splits if_splits)
  moreover have "bench_conc c = 0 \<or> 2 ^ 63 \<le> now1 + bench_secs c \<or> 2 ^ 63 \<le> now2 + bench_secs c"
    using assms c by (auto simp: bench_main_def warmup_def put_phase_def get_phase_def keys_per_task_def deadline_def Let_def split: if_splits)
  ultimately show thesis using that by blast
qed

lemma bench_without_tasks:
  "warmup 0 v = Inl ExplicitPanic" "put_phase 0 v res = Inl ExplicitPanic" "get_phase 0 res = Inl ExplicitPanic"
  by (simp_all add: warmup_def put_phase_def get_phase_def keys_per_task_def)

lemma bench_defaults: "bench_args Map.empty = Some \<lparr>bench_addr = ''127.0.0.1:9000'', bench_secs = 5, bench_conc = 32, bench_val_size = 64\<rparr>"
  by (simp add: bench_args_def bench_cfg_def parse_u64_def char_digit_def)

end
