(* ===== verification/Loadgen.thy ===== *)
theory Loadgen
  imports Frame_Reader Bench
begin

unbundle bit_operations_syntax

text \<open>
  The load generator of the server (\<open>crates/server/benches/loadgen.rs\<close>): it has its own encoder
  of requests, its own random numbers and its own reader of responses, with a buffer that is
  compacted and doubled. Every connection first writes its share of the key space and then asks
  for random keys of it. What the socket delivers to a read is an input, as are the flags of the
  main thread and the times measured; the report in floating point is left out.
\<close>

section \<open>Requests\<close>

definition KEYSPACE :: u64 where
  "KEYSPACE = 100000"

definition KEY_LEN :: nat where
  "KEY_LEN = 9"

record load_cfg =
  ld_addr :: string
  ld_conns :: nat
  ld_pipeline :: nat
  ld_secs :: u64
  ld_put_pct :: u32
  ld_val_size :: nat

text \<open>
  The digits are written from the last one on; the first byte of the buffer stays. As all digits
  are overwritten, a round may start from a fresh buffer where the code keeps the last key in it.
\<close>

fun write_digits :: "nat \<Rightarrow> bytes \<Rightarrow> u64 \<Rightarrow> bytes" where
  "write_digits 0 buf n = buf"
| "write_digits (Suc i) buf n = write_digits i (buf[Suc i := 48 + ucast (n mod 10)]) (n div 10)"

definition write_key :: "bytes \<Rightarrow> u64 \<Rightarrow> bytes" where
  "write_key buf n = write_digits (KEY_LEN - 1) buf n"

definition key_buf :: bytes where
  "key_buf = ascii ''k00000000''"

definition push_req :: "bytes \<Rightarrow> u8 \<Rightarrow> bytes \<Rightarrow> bytes \<Rightarrow> bytes" where
  "push_req buf oper key val =
     (let body = 1 + 4 + length key + length val in
      buf @ le32 (as_u32 body) @ [oper] @ le32 (as_u32 (length key)) @ key @ val)"

definition xorshift :: "u64 \<Rightarrow> u64" where
  "xorshift r =
     (let r = r XOR push_bit 13 r; r = r XOR drop_bit 7 r; r = r XOR push_bit 17 r in r)"



section \<open>The reader of responses\<close>

text \<open>Bytes from \<open>ld_pos\<close> to \<open>ld_have\<close> of the buffer are received and not read yet.\<close>

record load_reader =
  ld_buf :: bytes
  ld_have :: nat
  ld_pos :: nat
  ld_misses :: u64

definition load_reader_new :: load_reader where
  "load_reader_new = \<lparr>ld_buf = replicate (2 ^ 20) 0, ld_have = 0, ld_pos = 0, ld_misses = 0\<rparr>"

text \<open>The frame at the front, if all of it has been received.\<close>

definition take_frame :: "load_reader \<Rightarrow> load_reader option outcome" where
  "take_frame r =
     (if 4 \<le> ld_have r - ld_pos r
      then
        obind (slice (ld_buf r) (ld_pos r) (ld_pos r + 4)) (\<lambda>hdr.
        obind (rd_u32 hdr) (\<lambda>len.
          if 4 + len \<le> ld_have r - ld_pos r
          then
            obind (if 1 \<le> len then obind (index_at (ld_buf r) (ld_pos r + 4)) (\<lambda>b. Inr (b = 2)) else Inr False) (\<lambda>miss.
              Inr (Some (r\<lparr>ld_misses := ld_misses r + (if miss then 1 else 0), ld_pos := ld_pos r + (4 + len)\<rparr>)))
          else Inr None))
      else Inr None)"

definition make_room :: "load_reader \<Rightarrow> load_reader" where
  "make_room r =
     (let r = (if 0 < ld_pos r
               then r\<lparr>ld_buf := take (ld_have r - ld_pos r) (drop (ld_pos r) (ld_buf r)) @ drop (ld_have r - ld_pos r) (ld_buf r),
                      ld_have := ld_have r - ld_pos r, ld_pos := 0\<rparr>
               else r)
      in if ld_have r = length (ld_buf r) then r\<lparr>ld_buf := ld_buf r @ replicate (length (ld_buf r)) 0\<rparr> else r)"

definition received_into :: "bytes \<Rightarrow> load_reader \<Rightarrow> load_reader" where
  "received_into bs r =
     r\<lparr>ld_buf := take (ld_have r) (ld_buf r) @ bs @ drop (ld_have r + length bs) (ld_buf r), ld_have := ld_have r + length bs\<rparr>"

text \<open>
  The loop. \<open>st\<close> is what the server still has to deliver; each read is \<open>None\<close> when it fails, or
  the most bytes the kernel gives at once, \<open>0\<close> at the end of the stream. Without a read left the
  loop waits.
\<close>

datatype load_result = LdOk load_reader u64 bytes "nat option list" | LdFailed load_reader | LdWaits

function read_frames :: "load_reader \<Rightarrow> bytes \<Rightarrow> nat option list \<Rightarrow> nat \<Rightarrow> u64 \<Rightarrow> load_result outcome" where
  "read_frames r st ks left rx =
     (if left = 0 then Inr (LdOk r rx st ks)
      else
        obind (take_frame r) (\<lambda>x.
          case x of
            Some r' \<Rightarrow> read_frames r' st ks (left - 1) rx
          | None \<Rightarrow>
              (let r1 = make_room r in
               case ks of
                 [] \<Rightarrow> Inr LdWaits
               | None # ks' \<Rightarrow> Inr (LdFailed r1)
               | Some k # ks' \<Rightarrow>
                   (let bs = take (min k (length (ld_buf r1) - ld_have r1)) st in
                    if bs = [] then Inr (LdFailed r1)
                    else read_frames (received_into bs r1) (drop (length bs) st) ks' left (rx + of_nat (length bs))))))"
  by pat_completeness auto
termination
  by (relation "measure (\<lambda>(r, st, ks, left, rx). length ks + left)") auto

declare read_frames.simps [simp del]

section \<open>A connection\<close>

text \<open>The share of a connection, and the rounds in which it is written.\<close>

definition share_start :: "nat \<Rightarrow> nat \<Rightarrow> u64" where
  "share_start conns tid = of_nat tid * KEYSPACE div of_nat conns"

partial_function (option) prefill_from :: "nat \<Rightarrow> u64 \<Rightarrow> u64 \<Rightarrow> u64 list list option" where
  "prefill_from pipeline stop i =
     (if i < stop
      then
        (let n = min (stop - i) (of_nat pipeline) in
         Option.bind (prefill_from pipeline stop (i + n)) (\<lambda>rounds.
           Some (map (\<lambda>j. i + of_nat j) [0..<unat n] # rounds)))
      else Some [])"

definition prefill :: "load_cfg \<Rightarrow> nat \<Rightarrow> u64 list list option" where
  "prefill cfg tid =
     prefill_from (ld_pipeline cfg) (share_start (ld_conns cfg) (tid + 1)) (share_start (ld_conns cfg) tid)"

definition load_value :: "load_cfg \<Rightarrow> bytes" where
  "load_value cfg = replicate (ld_val_size cfg) (of_char (CHR ''v''))"

fun put_keys :: "bytes \<Rightarrow> bytes \<Rightarrow> u64 list \<Rightarrow> bytes \<Rightarrow> bytes" where
  "put_keys val keybuf [] buf = buf"
| "put_keys val keybuf (n # ns) buf =
     (let keybuf = write_key keybuf n in put_keys val keybuf ns (push_req buf OP_PUT keybuf val))"

text \<open>
  The setup of a connection sends a round and reads its responses before the next one. \<open>connected\<close>
  and \<open>wrote\<close> say whether connecting and the writes succeed; the buffers sent are part of the
  result. A round without end, for a pipeline of \<open>0\<close>, is \<open>None\<close>.
\<close>

datatype load_setup = SetupDone load_reader "bytes list" bytes "nat option list" | SetupFailed | SetupWaits

fun setup_rounds ::
  "bytes \<Rightarrow> bytes \<Rightarrow> u64 list list \<Rightarrow> (nat \<Rightarrow> bool) \<Rightarrow> load_reader \<Rightarrow> bytes \<Rightarrow> nat option list \<Rightarrow> bytes list \<Rightarrow> load_setup outcome"
where
  "setup_rounds val keybuf [] wrote r st ks sent = Inr (SetupDone r sent st ks)"
| "setup_rounds val keybuf (ns # rounds) wrote r st ks sent =
     (let sendbuf = put_keys val keybuf ns [] in
      if \<not> wrote (length sent) then Inr SetupFailed
      else
        obind (read_frames r st ks (length ns) 0) (\<lambda>x.
          case x of
            LdOk r' got st' ks' \<Rightarrow> setup_rounds val keybuf rounds wrote r' st' ks' (sent @ [sendbuf])
          | LdFailed r' \<Rightarrow> Inr SetupFailed
          | LdWaits \<Rightarrow> Inr SetupWaits))"

definition setup_conn :: "load_cfg \<Rightarrow> nat \<Rightarrow> bool \<Rightarrow> (nat \<Rightarrow> bool) \<Rightarrow> bytes \<Rightarrow> nat option list \<Rightarrow> load_setup outcome option" where
  "setup_conn cfg tid connected wrote st ks =
     (if connected
      then map_option (\<lambda>rounds. setup_rounds (load_value cfg) key_buf rounds wrote load_reader_new st ks []) (prefill cfg tid)
      else Some (Inr SetupFailed))"


definition load_seed :: "nat \<Rightarrow> u64" where
  "load_seed tid = 0x9e3779b97f4a7c15 XOR ((of_nat tid + 1) * 0xd1b54a32d192ed03)"

fun random_reqs :: "nat \<Rightarrow> u32 \<Rightarrow> bytes \<Rightarrow> bytes \<Rightarrow> u64 \<Rightarrow> bytes \<Rightarrow> bytes \<times> u64" where
  "random_reqs 0 pct val keybuf rng buf = (buf, rng)"
| "random_reqs (Suc n) pct val keybuf rng buf =
     (let r = xorshift rng; keybuf = write_key keybuf (r mod KEYSPACE) in
      random_reqs n pct val keybuf r
        (if (ucast (drop_bit 32 r) :: u32) mod 100 < pct then push_req buf OP_PUT keybuf val
         else push_req buf OP_GET keybuf []))"

record load_worker =
  wk_frames :: load_reader
  wk_rng :: u64
  wk_lats :: "u64 list"
  wk_ops :: u64
  wk_tx :: u64
  wk_rx :: u64

definition worker_start :: "nat \<Rightarrow> load_reader \<Rightarrow> load_worker" where
  "worker_start tid r = \<lparr>wk_frames = r, wk_rng = load_seed tid, wk_lats = [], wk_ops = 0, wk_tx = 0, wk_rx = 0\<rparr>"

text \<open>
  A round of the worker, with the bytes it sends; it may break out of its loop or wait for the
  server. \<open>recorded\<close> is the flag read at its start, \<open>wrote\<close> the outcome of \<open>write_all\<close>, \<open>dt\<close> the
  time measured.
\<close>

datatype load_round = WkNext load_worker bytes bytes "nat option list" | WkBreaks load_worker | WkWaits

definition worker_round ::
  "load_cfg \<Rightarrow> bool \<Rightarrow> bool \<Rightarrow> u64 \<Rightarrow> bytes \<Rightarrow> nat option list \<Rightarrow> load_worker \<Rightarrow> load_round outcome" where
  "worker_round cfg recorded wrote dt st ks w =
     (let (buf, rng) = random_reqs (ld_pipeline cfg) (ld_put_pct cfg) (load_value cfg) key_buf (wk_rng w) [] in
      if \<not> wrote then Inr (WkBreaks (w\<lparr>wk_rng := rng\<rparr>))
      else
        obind (read_frames (wk_frames w) st ks (ld_pipeline cfg) 0) (\<lambda>x.
          case x of
            LdOk r got st' ks' \<Rightarrow>
              (let w = w\<lparr>wk_frames := r, wk_rng := rng\<rparr> in
               Inr (WkNext (if recorded
                          then w\<lparr>wk_lats := wk_lats w @ [dt], wk_ops := wk_ops w + of_nat (ld_pipeline cfg),
                                 wk_tx := wk_tx w + of_nat (length buf), wk_rx := wk_rx w + got\<rparr>
                          else w) buf st' ks'))
          | LdFailed r \<Rightarrow> Inr (WkBreaks (w\<lparr>wk_frames := r, wk_rng := rng\<rparr>))
          | LdWaits \<Rightarrow> Inr WkWaits))"

text \<open>
  The rounds until the worker sees the flag \<open>stop\<close>: for each round the flag \<open>recording\<close>, the
  outcome of \<open>write_all\<close> and the time. A break ends them early. The buffers of complete rounds are
  part of the result.
\<close>

datatype load_run = WkDone load_worker "bytes list" | WkStuck

fun worker_rounds :: "load_cfg \<Rightarrow> (bool \<times> bool \<times> u64) list \<Rightarrow> bytes \<Rightarrow> nat option list \<Rightarrow> load_worker \<Rightarrow> bytes list \<Rightarrow> load_run outcome"
where
  "worker_rounds cfg [] st ks w sent = Inr (WkDone w sent)"
| "worker_rounds cfg ((recorded, wrote, dt) # rounds) st ks w sent =
     obind (worker_round cfg recorded wrote dt st ks w) (\<lambda>x.
       case x of
         WkNext w' buf st' ks' \<Rightarrow> worker_rounds cfg rounds st' ks' w' (sent @ [buf])
       | WkBreaks w' \<Rightarrow> Inr (WkDone w' sent)
       | WkWaits \<Rightarrow> Inr WkStuck)"

text \<open>The totals that all workers share.\<close>

record load_totals =
  total_ops :: u64
  total_tx :: u64
  total_rx :: u64
  total_miss :: u64

definition add_totals :: "load_worker \<Rightarrow> load_totals \<Rightarrow> load_totals" where
  "add_totals w sh =
     sh\<lparr>total_ops := total_ops sh + wk_ops w, total_tx := total_tx sh + wk_tx w,
        total_rx := total_rx sh + wk_rx w, total_miss := total_miss sh + ld_misses (wk_frames w)\<rparr>"

text \<open>
  A worker: the totals and its times, with the buffers it sent; \<open>Inr None\<close> while it waits for the
  server. When its setup fails it returns no times and leaves the totals.
\<close>

definition worker ::
  "load_cfg \<Rightarrow> nat \<Rightarrow> bool \<Rightarrow> (nat \<Rightarrow> bool) \<Rightarrow> (bool \<times> bool \<times> u64) list \<Rightarrow> bytes \<Rightarrow> nat option list \<Rightarrow> load_totals \<Rightarrow>
     (load_totals \<times> u64 list \<times> bytes list) option outcome option" where
  "worker cfg tid connected wrote rounds st ks sh =
     map_option (\<lambda>res.
       obind res (\<lambda>x.
         case x of
           SetupDone r sent st' ks' \<Rightarrow>
             obind (worker_rounds cfg rounds st' ks' (worker_start tid r) []) (\<lambda>y.
               case y of
                 WkDone w bufs \<Rightarrow> Inr (Some (add_totals w sh, wk_lats w, sent @ bufs))
               | WkStuck \<Rightarrow> Inr None)
         | SetupFailed \<Rightarrow> Inr (Some (sh, [], []))
         | SetupWaits \<Rightarrow> Inr None)) (setup_conn cfg tid connected wrote st ks)"

section \<open>Facts about requests\<close>

fun digits :: "nat \<Rightarrow> u64 \<Rightarrow> bytes" where
  "digits 0 n = []"
| "digits (Suc i) n = digits i (n div 10) @ [48 + ucast (n mod 10)]"

lemma length_digits [simp]: "length (digits i n) = i"
  by (induction i arbitrary: n) simp_all

lemma write_digits_eq: "i < length buf \<Longrightarrow> write_digits i buf n = take 1 buf @ digits i n @ drop (Suc i) buf"
proof (induction i arbitrary: buf n)
  case 0
  then show ?case by (cases buf) simp_all
next
  case (Suc i)
  let ?buf = "buf[Suc i := 48 + ucast (n mod 10)]"
  have "drop (Suc i) ?buf = (48 + ucast (n mod 10)) # drop (Suc (Suc i)) buf"
    using Suc.prems by (simp add: Cons_nth_drop_Suc [symmetric])
  then show ?case using Suc.IH [of ?buf "n div 10"] Suc.prems by simp
qed

lemma write_key_eq: "length buf = KEY_LEN \<Longrightarrow> write_key buf n = take 1 buf @ digits 8 n"
  by (simp add: write_key_def write_digits_eq KEY_LEN_def)

lemma length_write_key [simp]: "length buf = KEY_LEN \<Longrightarrow> length (write_key buf n) = KEY_LEN"
  by (simp add: write_key_eq KEY_LEN_def)

lemma write_key_again: "length buf = KEY_LEN \<Longrightarrow> write_key (write_key buf n) m = write_key buf m"
proof -
  assume "length buf = KEY_LEN"
  then have "length (write_key buf n) = KEY_LEN" "take 1 (write_key buf n) = take 1 buf"
    by (simp_all add: write_key_eq KEY_LEN_def)
  then show ?thesis using \<open>length buf = KEY_LEN\<close> by (simp add: write_key_eq)
qed

lemma length_key_buf [simp]: "length key_buf = KEY_LEN"
  by (simp add: key_buf_def ascii_def KEY_LEN_def)

lemma digit_inject:
  assumes "(48 :: u8) + ucast (n mod 10 :: u64) = 48 + ucast (m mod 10 :: u64)"
  shows "n mod 10 = m mod 10"
proof -
  have small: "unat (x mod 10) < 10" for x :: u64 by (simp add: unat_mod)
  have "(ucast (n mod 10) :: u8) = ucast (m mod 10)" using assms by simp
  then have "unat (ucast (n mod 10) :: u8) = unat (ucast (m mod 10) :: u8)" by simp
  then have "unat (n mod 10) mod 256 = unat (m mod 10) mod 256" by (simp add: unsigned_ucast_eq take_bit_eq_mod)
  then have "unat (n mod 10) = unat (m mod 10)" using small [of n] small [of m] by simp
  then show ?thesis by (simp add: word_unat_eq_iff)
qed

lemma digits_inject: "digits i n = digits i m \<Longrightarrow> unat n < 10 ^ i \<Longrightarrow> unat m < 10 ^ i \<Longrightarrow> n = m"
proof (induction i arbitrary: n m)
  case 0
  then show ?case by (simp add: word_unat_eq_iff)
next
  case (Suc i)
  have "unat (n div 10) < 10 ^ i" "unat (m div 10) < 10 ^ i" using Suc.prems by (simp_all add: unat_div)
  then have "n div 10 = m div 10" using Suc.IH [of "n div 10" "m div 10"] Suc.prems(1) by simp
  moreover have "n mod 10 = m mod 10" using Suc.prems(1) digit_inject by simp
  ultimately show ?case by (metis word_mod_div_equality)
qed

lemma push_req_eq:
  "push_req buf OP_PUT key val = buf @ frame_bytes (req_body Put key val)"
  "push_req buf OP_GET key [] = buf @ frame_bytes (req_body Get key [])"
  by (simp_all add: push_req_def frame_bytes_def req_body_def add.assoc)

text \<open>The requests are those of the client library.\<close>

lemma push_req_encode:
  "encode Put key (Some val) = Some (push_req [] OP_PUT key val)" "encode Get key None = Some (push_req [] OP_GET key [])"
  by (simp_all add: encode_eq push_req_eq frame_bytes_def opt_bytes_def)

lemma put_keys_eq:
  "length keybuf = KEY_LEN \<Longrightarrow>
   put_keys val keybuf ns buf = buf @ concat (map (\<lambda>n. frame_bytes (req_body Put (write_key keybuf n) val)) ns)"
proof (induction ns arbitrary: keybuf buf)
  case (Cons n ns)
  then show ?case by (simp add: Let_def push_req_eq write_key_again)
qed simp

section \<open>Facts about random numbers\<close>

lemma xor_zero_iff: "a XOR b = 0 \<longleftrightarrow> a = (b :: 'a::len word)"
  by (metis xor.assoc xor.left_neutral xor.right_neutral xor_self_eq)

lemma xor_cancel: "a XOR b = a XOR c \<longleftrightarrow> b = (c :: 'a::len word)"
  by (metis xor.assoc xor.left_neutral xor_self_eq)

lemma shift_zero:
  fixes r :: "'a::len word"
  assumes "0 < k"
  shows "r XOR push_bit k r = 0 \<longleftrightarrow> r = 0" "r XOR drop_bit k r = 0 \<longleftrightarrow> r = 0"
proof -
  have "r = 0" if "r = push_bit k r"
  proof (rule bit_eqI)
    fix n
    have "\<not> bit r n"
    proof (induction n rule: less_induct)
      case (less n)
      show ?case
      proof
        assume "bit r n"
        then have "bit (push_bit k r) n" using that by simp
        then have "k \<le> n" "bit r (n - k)" by (simp_all add: bit_simps)
        then show False using less assms by simp
      qed
    qed
    then show "bit r n = bit 0 n" by simp
  qed
  then show "r XOR push_bit k r = 0 \<longleftrightarrow> r = 0" by (auto simp: xor_zero_iff)
  have "r = 0" if "r = drop_bit k r"
  proof -
    have "r = drop_bit (n * k) r" for n
    proof (induction n)
      case (Suc n)
      have "drop_bit (Suc n * k) r = drop_bit k (drop_bit (n * k) r)" by (simp add: drop_bit_drop_bit)
      then show ?case using Suc that by simp
    qed simp
    from this [of "LENGTH('a)"] have "r = drop_bit (LENGTH('a) * k) r" .
    also have "\<dots> = 0" using assms by (intro bit_eqI) (auto simp: bit_simps dest: bit_imp_le_length)
    finally show "r = 0" .
  qed
  then show "r XOR drop_bit k r = 0 \<longleftrightarrow> r = 0" by (auto simp: xor_zero_iff)
qed

lemma xorshift_linear: "xorshift (a XOR b) = xorshift a XOR xorshift b"
  by (simp add: xorshift_def Let_def push_bit_xor drop_bit_xor ac_simps)

lemma xorshift_zero: "xorshift r = 0 \<longleftrightarrow> r = 0"
  by (simp only: xorshift_def Let_def shift_zero zero_less_numeral)

lemma xorshift_inject: "xorshift a = xorshift b \<longleftrightarrow> a = b"
  by (metis xor_zero_iff xorshift_linear xorshift_zero)

text \<open>The seeds differ, and no thread that can exist starts from zero, where the generator would stay.\<close>

lemma seed_factor: "(0x6106ccfa448e5ab :: u64) * (w * 0xd1b54a32d192ed03) = w"
proof -
  have "(0x6106ccfa448e5ab :: u64) * 0xd1b54a32d192ed03 = 1" by simp
  then show ?thesis by (simp only: mult.left_commute [of _ w] mult_1_right)
qed

lemma load_seed_distinct: "i < 2 ^ 64 \<Longrightarrow> j < 2 ^ 64 \<Longrightarrow> load_seed i = load_seed j \<Longrightarrow> i = j"
proof -
  assume ij: "i < 2 ^ 64" "j < 2 ^ 64" and "load_seed i = load_seed j"
  then have "(of_nat i + 1 :: u64) * 0xd1b54a32d192ed03 = (of_nat j + 1) * 0xd1b54a32d192ed03"
    by (simp only: load_seed_def xor_cancel)
  then have "(of_nat i + 1 :: u64) = of_nat j + 1" using seed_factor by metis
  then have "(of_nat i :: u64) = of_nat j" by simp
  then have "unat (of_nat i :: u64) = unat (of_nat j :: u64)" by simp
  then show "i = j" using ij by (simp add: unat_of_nat)
qed

lemma load_seed_nonzero: "tid < 2 ^ 63 \<Longrightarrow> load_seed tid \<noteq> 0"
proof
  assume tid: "tid < 2 ^ 63" and "load_seed tid = 0"
  then have "(of_nat tid + 1 :: u64) * 0xd1b54a32d192ed03 = 0x9e3779b97f4a7c15"
    unfolding load_seed_def xor_zero_iff by simp
  then have "(of_nat tid + 1 :: u64) = 0x6106ccfa448e5ab * 0x9e3779b97f4a7c15" using seed_factor by metis
  then have "(of_nat (tid + 1) :: u64) = 17981733329013549831" by simp
  then have "unat (of_nat (tid + 1) :: u64) = 17981733329013549831" by simp
  moreover have "unat (of_nat (tid + 1) :: u64) = tid + 1" using tid by (simp add: unat_of_nat del: of_nat_add of_nat_Suc)
  ultimately show False using tid by simp
qed

section \<open>Facts about the reader\<close>

definition reader_ok :: "load_reader \<Rightarrow> bool" where
  "reader_ok r \<longleftrightarrow> ld_pos r \<le> ld_have r \<and> ld_have r \<le> length (ld_buf r) \<and> ld_buf r \<noteq> []"

definition unread :: "load_reader \<Rightarrow> bytes" where
  "unread r = take (ld_have r - ld_pos r) (drop (ld_pos r) (ld_buf r))"

lemma length_unread: "reader_ok r \<Longrightarrow> length (unread r) = ld_have r - ld_pos r"
  by (auto simp: unread_def reader_ok_def min_def)

text \<open>The front frame is what the response decoder of the clients finds; its byte 2 is a miss.\<close>

lemma take_frame_eq:
  assumes ok: "reader_ok r"
  shows "take_frame r = Inr (case resp_dec (unread r) of
      None \<Rightarrow> None
    | Some (x, n) \<Rightarrow> Some (r\<lparr>ld_misses := ld_misses r + (if x = Miss then 1 else 0), ld_pos := ld_pos r + n\<rparr>))"
proof (cases "4 \<le> length (unread r)")
  case False
  then show ?thesis by (simp add: take_frame_def resp_dec_def length_unread [OF ok])
next
  case True
  let ?u = "unread r" and ?len = "unat (le_word (take 4 (unread r)) :: u32)"
  have n: "length ?u = ld_have r - ld_pos r" using length_unread [OF ok] .
  have bnd: "ld_pos r + (ld_have r - ld_pos r) \<le> length (ld_buf r)" using ok by (simp add: reader_ok_def)
  have hdr: "slice (ld_buf r) (ld_pos r) (ld_pos r + 4) = Inr (take 4 ?u)"
    using True n bnd by (simp add: slice_def unread_def min_absorb1)
  have len: "rd_u32 (take 4 ?u) = Inr ?len" using True by (simp add: rd_u32_ok)
  show ?thesis
  proof (cases "4 + ?len \<le> length ?u")
    case False
    then show ?thesis using True n hdr len by (simp add: take_frame_def resp_dec_def Let_def)
  next
    case fits: True
    let ?miss = "if 1 \<le> ?len then obind (index_at (ld_buf r) (ld_pos r + 4)) (\<lambda>b. Inr (b = 2)) else Inr False"
    have "?miss = Inr (from_proto_code (take ?len (drop 4 ?u)) = Miss)"
    proof (cases "?len")
      case 0
      then show ?thesis by (simp add: from_proto_code_def)
    next
      case (Suc m)
      have b: "index_at (ld_buf r) (ld_pos r + 4) = Inr (?u ! 4)"
        using fits n bnd Suc by (simp add: index_at_def unread_def)
      have "drop 4 ?u = ?u ! 4 # drop 5 ?u" using fits Suc by (simp add: Cons_nth_drop_Suc [symmetric])
      then show ?thesis using Suc b by (simp add: from_proto_code_def)
    qed
    then show ?thesis using True fits n hdr len by (simp add: take_frame_def resp_dec_def Let_def)
  qed
qed

lemma make_room_ok:
  assumes "reader_ok r"
  shows "reader_ok (make_room r)" "unread (make_room r) = unread r" "ld_misses (make_room r) = ld_misses r"
    "ld_have (make_room r) < length (ld_buf (make_room r))"
proof -
  let ?n = "ld_have r - ld_pos r"
  let ?r = "if 0 < ld_pos r then r\<lparr>ld_buf := take ?n (drop (ld_pos r) (ld_buf r)) @ drop ?n (ld_buf r), ld_have := ?n, ld_pos := 0\<rparr> else r"
  have len: "min (length (ld_buf r) - ld_pos r) ?n = ?n" using assms by (auto simp: reader_ok_def min_def)
  have ok: "reader_ok ?r" "unread ?r = unread r" "ld_misses ?r = ld_misses r" "ld_pos ?r = 0"
    using assms by (auto simp: reader_ok_def unread_def len)
  obtain q where q: "q = ?r" by blast
  have m: "make_room r = (if ld_have q = length (ld_buf q) then q\<lparr>ld_buf := ld_buf q @ replicate (length (ld_buf q)) 0\<rparr> else q)"
    by (simp only: make_room_def Let_def q)
  show "reader_ok (make_room r)" "unread (make_room r) = unread r" "ld_misses (make_room r) = ld_misses r"
    "ld_have (make_room r) < length (ld_buf (make_room r))"
    unfolding m using ok by (auto simp: reader_ok_def unread_def q [symmetric])
qed

lemma received_into_ok:
  assumes "reader_ok r" and "ld_have r + length bs \<le> length (ld_buf r)"
  shows "reader_ok (received_into bs r)" "unread (received_into bs r) = unread r @ bs" "ld_misses (received_into bs r) = ld_misses r"
  using assms by (auto simp: reader_ok_def received_into_def unread_def drop_take)

text \<open>One iteration: a frame is taken, or more bytes are received.\<close>

lemma read_frames_take:
  assumes ok: "reader_ok r" and dec: "resp_dec (unread r) = Some (x, n)"
  defines "r' \<equiv> r\<lparr>ld_misses := ld_misses r + (if x = Miss then 1 else 0), ld_pos := ld_pos r + n\<rparr>"
  shows "read_frames r st ks (Suc m) rx = read_frames r' st ks m rx" "reader_ok r'" "unread r' = drop n (unread r)"
proof -
  show "read_frames r st ks (Suc m) rx = read_frames r' st ks m rx"
    using take_frame_eq [OF ok] dec by (simp add: read_frames.simps [of r st ks "Suc m"] r'_def)
  have "n \<le> length (unread r)" using respf.dec_bounds [OF dec] by simp
  then show "reader_ok r'" using ok length_unread [OF ok] by (auto simp: reader_ok_def r'_def)
  show "unread r' = drop n (unread r)" by (simp add: unread_def r'_def drop_take add.commute)
qed

lemma read_frames_receive:
  assumes ok: "reader_ok r" and dec: "resp_dec (unread r) = None" and st: "st \<noteq> []" and k: "0 < k"
  shows "\<exists>bs r'. st = bs @ drop (length bs) st \<and> bs \<noteq> [] \<and>
    read_frames r st (Some k # ks) (Suc m) rx = read_frames r' (drop (length bs) st) ks (Suc m) (rx + of_nat (length bs)) \<and>
    reader_ok r' \<and> unread r' = unread r @ bs \<and> ld_misses r' = ld_misses r"
proof -
  let ?r1 = "make_room r"
  let ?bs = "take (min k (length (ld_buf ?r1) - ld_have ?r1)) st"
  note room = make_room_ok [OF ok]
  have bs: "?bs \<noteq> []" "length ?bs \<le> length (ld_buf ?r1) - ld_have ?r1" using st k room(4) by auto
  have "ld_have ?r1 + length ?bs \<le> length (ld_buf ?r1)" using bs(2) room(4) by linarith
  note got = received_into_ok [OF room(1) this]
  have split: "st = ?bs @ drop (length ?bs) st" by (simp add: min_def)
  have step: "read_frames r st (Some k # ks) (Suc m) rx =
      read_frames (received_into ?bs ?r1) (drop (length ?bs) st) ks (Suc m) (rx + of_nat (length ?bs))"
    using take_frame_eq [OF ok] dec bs(1)
    by (simp add: read_frames.simps [of r st "Some k # ks" "Suc m"] Let_def)
      (use k room(4) in linarith)
  show ?thesis using got room(2,3) bs(1) split step
    by (intro exI [of _ ?bs] exI [of _ "received_into ?bs ?r1"] conjI) simp_all
qed

lemma read_frames_exact:
  assumes "reader_ok r" and "list_all resp_ok rs" and "unread r @ st = concat (map resp_bytes rs) @ rest"
    and "list_all (\<lambda>k. k \<noteq> None \<and> k \<noteq> Some 0) ks" and "length st \<le> length ks"
  shows "\<exists>r' st' ks'. read_frames r st ks (length rs) rx = Inr (LdOk r' (rx + of_nat (length st - length st')) st' ks') \<and>
    reader_ok r' \<and> unread r' @ st' = rest \<and> ld_misses r' = ld_misses r + of_nat (length (filter (\<lambda>x. x = Miss) rs)) \<and>
    length st' \<le> length st \<and> list_all (\<lambda>k. k \<noteq> None \<and> k \<noteq> Some 0) ks' \<and> length st' \<le> length ks'"
  using assms
proof (induction "length ks + length rs" arbitrary: r st ks rs rx rule: less_induct)
  case less
  show ?case
  proof (cases rs)
    case Nil
    then show ?thesis using less.prems by (auto simp: read_frames.simps [of r st ks 0])
  next
    case (Cons x xs)
    have bytes: "unread r @ st = resp_bytes x @ concat (map resp_bytes xs) @ rest" and x: "resp_ok x"
      using less.prems(2,3) Cons by simp_all
    have front: "resp_dec (unread r @ st) = Some (x, length (resp_bytes x))"
      unfolding bytes using respf.dec_enc_append [OF x] .
    show ?thesis
    proof (cases "resp_dec (unread r)")
      case (Some y)
      let ?n = "length (resp_bytes x)"
      have "y = (x, ?n)" using respf.dec_extend [OF Some, of st] front by simp
      then have dec: "resp_dec (unread r) = Some (x, ?n)" using Some by simp
      note t = read_frames_take [OF less.prems(1) dec]
      have "?n \<le> length (unread r)" using respf.dec_bounds [OF dec] by simp
      then have "drop ?n (unread r) @ st = concat (map resp_bytes xs) @ rest"
        using arg_cong [OF bytes, of "drop ?n"] by simp
      from less.hyps [OF _ t(2) _ _ less.prems(4,5), of xs rx] this less.prems(2) Cons show ?thesis
        unfolding t(3) by (fastforce simp: t(1) add.commute)
    next
      case None
      then have st: "st \<noteq> []" using front by auto
      then obtain k ks1 where ks: "ks = Some k # ks1" "0 < k" using less.prems(4,5) by (cases ks) auto
      obtain bs r1 where r1: "st = bs @ drop (length bs) st" "bs \<noteq> []"
        "read_frames r st ks (length rs) rx = read_frames r1 (drop (length bs) st) ks1 (length rs) (rx + of_nat (length bs))"
        "reader_ok r1" "unread r1 = unread r @ bs" "ld_misses r1 = ld_misses r"
        using read_frames_receive [OF less.prems(1) None st ks(2), of ks1 "length xs" rx] Cons ks(1) by auto
      let ?st = "drop (length bs) st"
      have view: "unread r1 @ ?st = concat (map resp_bytes rs) @ rest"
        using less.prems(3) r1(1) by (simp add: r1(5) flip: append_assoc) (metis append_assoc)
      have "length ?st \<le> length ks1" using r1(2) less.prems(5) ks(1) by (cases bs) auto
      moreover have "list_all (\<lambda>k. k \<noteq> None \<and> k \<noteq> Some 0) ks1" "length ks1 + length rs < length ks + length rs"
        using less.prems(4) ks(1) by simp_all
      ultimately obtain r' st' ks' where
        res: "read_frames r1 ?st ks1 (length rs) (rx + of_nat (length bs)) =
            Inr (LdOk r' (rx + of_nat (length bs) + of_nat (length ?st - length st')) st' ks')"
          "reader_ok r'" "unread r' @ st' = rest" "ld_misses r' = ld_misses r1 + of_nat (length (filter (\<lambda>x. x = Miss) rs))"
          "length st' \<le> length ?st" "list_all (\<lambda>k. k \<noteq> None \<and> k \<noteq> Some 0) ks'" "length st' \<le> length ks'"
        using less.hyps [OF _ r1(4) less.prems(2) view] by blast
      have "length bs + (length ?st - length st') = length st - length st'" using arg_cong [OF r1(1), of length] res(5) by simp
      then have "of_nat (length bs) + of_nat (length ?st - length st') = (of_nat (length st - length st') :: u64)"
        by (metis of_nat_add)
      then show ?thesis using res r1(3,6)
        by (intro exI [of _ r'] exI [of _ st'] exI [of _ ks']) (auto simp: add.assoc)
    qed
  qed
qed

section \<open>Facts about the shares\<close>





section \<open>Properties\<close>

definition load_key :: "u64 \<Rightarrow> bytes" where
  "load_key n = write_key key_buf n"

lemma length_load_key [simp]: "length (load_key n) = 9"
  by (simp add: load_key_def KEY_LEN_def)

lemma load_key_inject: "unat n < 10 ^ 8 \<Longrightarrow> unat m < 10 ^ 8 \<Longrightarrow> load_key n = load_key m \<Longrightarrow> n = m"
  using digits_inject [of 8 n m] by (simp add: load_key_def write_key_eq)

lemma concat_map_concat: "concat (map (\<lambda>xs. concat (map f xs)) xss) = concat (map f (concat xss))"
  by (induction xss) simp_all





lemma load_reader_new_ok: "reader_ok load_reader_new" "unread load_reader_new = []"
  by (simp_all add: reader_ok_def unread_def load_reader_new_def)

lemma setup_rounds_done:
  assumes "reader_ok r" "list_all resp_ok rs" "length rs = length (concat rounds)"
    "unread r @ st = concat (map resp_bytes rs) @ rest" "list_all (\<lambda>k. k \<noteq> None \<and> k \<noteq> Some 0) ks" "length st \<le> length ks"
  shows "\<exists>r' st' ks'. setup_rounds val keybuf rounds (\<lambda>_. True) r st ks sent =
      Inr (SetupDone r' (sent @ map (\<lambda>ns. put_keys val keybuf ns []) rounds) st' ks') \<and>
    reader_ok r' \<and> unread r' @ st' = rest \<and> ld_misses r' = ld_misses r + of_nat (length (filter (\<lambda>x. x = Miss) rs)) \<and>
    list_all (\<lambda>k. k \<noteq> None \<and> k \<noteq> Some 0) ks' \<and> length st' \<le> length ks'"
  using assms
proof (induction rounds arbitrary: r rs st ks sent)
  case Nil
  then show ?case by simp
next
  case (Cons ns rounds)
  let ?xs = "take (length ns) rs" and ?ys = "drop (length ns) rs"
  have xs: "length ?xs = length ns" using Cons.prems(3) by simp
  have split: "rs = ?xs @ ?ys" by simp
  have ok: "list_all resp_ok ?xs" "list_all resp_ok ?ys" using Cons.prems(2) by (metis split list_all_append)+
  have "unread r @ st = concat (map resp_bytes ?xs) @ (concat (map resp_bytes ?ys) @ rest)"
    using Cons.prems(4) by (metis split append_assoc concat_append map_append)
  from read_frames_exact [OF Cons.prems(1) ok(1) this Cons.prems(5,6), of 0] obtain r' st' ks' got where
    f: "read_frames r st ks (length ns) 0 = Inr (LdOk r' got st' ks')" "reader_ok r'"
      "unread r' @ st' = concat (map resp_bytes ?ys) @ rest"
      "ld_misses r' = ld_misses r + of_nat (length (filter (\<lambda>x. x = Miss) ?xs))"
      "list_all (\<lambda>k. k \<noteq> None \<and> k \<noteq> Some 0) ks'" "length st' \<le> length ks'"
    unfolding xs by blast
  have "length ?ys = length (concat rounds)" using Cons.prems(3) by simp
  from Cons.IH [OF f(2) ok(2) this f(3,5,6), of "sent @ [put_keys val keybuf ns []]"] obtain r2 st2 ks2 where
    g: "setup_rounds val keybuf rounds (\<lambda>_. True) r' st' ks' (sent @ [put_keys val keybuf ns []]) =
        Inr (SetupDone r2 ((sent @ [put_keys val keybuf ns []]) @ map (\<lambda>ns. put_keys val keybuf ns []) rounds) st2 ks2)"
      "reader_ok r2" "unread r2 @ st2 = rest" "ld_misses r2 = ld_misses r' + of_nat (length (filter (\<lambda>x. x = Miss) ?ys))"
      "list_all (\<lambda>k. k \<noteq> None \<and> k \<noteq> Some 0) ks2" "length st2 \<le> length ks2"
    by blast
  have "length (filter (\<lambda>x. x = Miss) ?xs) + length (filter (\<lambda>x. x = Miss) ?ys) = length (filter (\<lambda>x. x = Miss) rs)"
    by (metis split filter_append length_append)
  then have "ld_misses r2 = ld_misses r + of_nat (length (filter (\<lambda>x. x = Miss) rs))"
    by (simp add: g(4) f(4) add.assoc flip: of_nat_add)
  then show ?case using f(1) g(1-3,5,6) by (simp add: Let_def)
qed



text \<open>A round of random requests asks for keys of the key space.\<close>

definition load_body :: "load_cfg \<Rightarrow> bytes \<Rightarrow> bool" where
  "load_body cfg body \<longleftrightarrow>
     (\<exists>n < KEYSPACE. body = req_body Put (load_key n) (load_value cfg) \<or> body = req_body Get (load_key n) [])"

lemma random_reqs_eq:
  assumes "length keybuf = KEY_LEN" and "\<And>n. write_key keybuf n = load_key n"
  shows "\<exists>bodies rng'. random_reqs m pct (load_value cfg) keybuf rng buf = (buf @ concat (map frame_bytes bodies), rng') \<and>
    length bodies = m \<and> list_all (load_body cfg) bodies"
  using assms
proof (induction m arbitrary: keybuf rng buf)
  case 0
  then show ?case by simp
next
  case (Suc m)
  let ?r = "xorshift rng"
  let ?n = "?r mod KEYSPACE" and ?kb = "write_key keybuf (?r mod KEYSPACE)"
  let ?body = "if (ucast (drop_bit 32 ?r) :: u32) mod 100 < pct then req_body Put (load_key ?n) (load_value cfg) else req_body Get (load_key ?n) []"
  have "?n < KEYSPACE" by (simp add: KEYSPACE_def word_less_nat_alt unat_mod)
  then have ok: "load_body cfg ?body" unfolding load_body_def by (intro exI [of _ ?n]) simp
  have kb: "length ?kb = KEY_LEN" by (rule length_write_key [OF Suc.prems(1)])
  have again: "\<And>n. write_key ?kb n = load_key n" using write_key_again [OF Suc.prems(1)] Suc.prems(2) by metis
  from Suc.IH [OF kb again, of ?r "buf @ frame_bytes ?body"] obtain bodies rng' where
    "random_reqs m pct (load_value cfg) ?kb ?r (buf @ frame_bytes ?body) = ((buf @ frame_bytes ?body) @ concat (map frame_bytes bodies), rng')"
    "length bodies = m" "list_all (load_body cfg) bodies" by blast
  moreover have "random_reqs (Suc m) pct (load_value cfg) keybuf rng buf = random_reqs m pct (load_value cfg) ?kb ?r (buf @ frame_bytes ?body)"
    by (simp add: Let_def push_req_eq Suc.prems(2))
  ultimately show ?case using ok by (intro exI [of _ "?body # bodies"] exI [of _ rng']) simp
qed

lemma load_body_ok: "14 + ld_val_size cfg \<le> MAX_FRAME \<Longrightarrow> load_body cfg body \<Longrightarrow> body_ok body"
  by (auto simp: load_body_def body_ok_def req_body_def load_value_def)

text \<open>
  A round sends \<open>pipeline\<close> requests and reads exactly as many responses; what it has received
  beyond them stays for the next round.
\<close>

lemma worker_round_exact:
  assumes r: "reader_ok (wk_frames w)" and rs: "list_all resp_ok rs" "length rs = ld_pipeline cfg"
    and bytes: "unread (wk_frames w) @ st = concat (map resp_bytes rs) @ rest"
    and ks: "list_all (\<lambda>k. k \<noteq> None \<and> k \<noteq> Some 0) ks" "length st \<le> length ks"
  shows "\<exists>w' st' ks' bodies.
    worker_round cfg recorded True dt st ks w = Inr (WkNext w' (concat (map frame_bytes bodies)) st' ks') \<and>
    length bodies = ld_pipeline cfg \<and> list_all (load_body cfg) bodies \<and>
    reader_ok (wk_frames w') \<and> unread (wk_frames w') @ st' = rest \<and>
    list_all (\<lambda>k. k \<noteq> None \<and> k \<noteq> Some 0) ks' \<and> length st' \<le> length ks' \<and>
    ld_misses (wk_frames w') = ld_misses (wk_frames w) + of_nat (length (filter (\<lambda>x. x = Miss) rs)) \<and>
    wk_lats w' = wk_lats w @ (if recorded then [dt] else []) \<and>
    wk_ops w' = wk_ops w + (if recorded then of_nat (ld_pipeline cfg) else 0)"
proof -
  obtain bodies rng where b: "random_reqs (ld_pipeline cfg) (ld_put_pct cfg) (load_value cfg) key_buf (wk_rng w) [] =
      (concat (map frame_bytes bodies), rng)" "length bodies = ld_pipeline cfg" "list_all (load_body cfg) bodies"
    using random_reqs_eq [of key_buf "ld_pipeline cfg" "ld_put_pct cfg" cfg "wk_rng w" "[]"] by (auto simp: load_key_def)
  moreover obtain r' got st' ks' where "read_frames (wk_frames w) st ks (ld_pipeline cfg) 0 = Inr (LdOk r' got st' ks')"
    "reader_ok r'" "unread r' @ st' = rest" "ld_misses r' = ld_misses (wk_frames w) + of_nat (length (filter (\<lambda>x. x = Miss) rs))"
    "list_all (\<lambda>k. k \<noteq> None \<and> k \<noteq> Some 0) ks'" "length st' \<le> length ks'"
    using read_frames_exact [OF r rs(1) bytes ks, of 0] rs(2) by auto
  ultimately show ?thesis
    by (cases recorded) (simp_all add: worker_round_def Let_def, (intro exI conjI, rule refl, simp_all)+)
qed

lemma worker_rounds_exact:
  assumes "reader_ok (wk_frames w)" "list_all resp_ok rs" "length rs = ld_pipeline cfg * length rounds"
    "unread (wk_frames w) @ st = concat (map resp_bytes rs) @ rest"
    "list_all (\<lambda>k. k \<noteq> None \<and> k \<noteq> Some 0) ks" "length st \<le> length ks" "list_all (\<lambda>x. fst (snd x)) rounds"
  shows "\<exists>w' bufs bodies. worker_rounds cfg rounds st ks w sent = Inr (WkDone w' (sent @ bufs)) \<and>
    concat bufs = concat (map frame_bytes bodies) \<and>
    length bodies = ld_pipeline cfg * length rounds \<and> list_all (load_body cfg) bodies \<and>
    ld_misses (wk_frames w') = ld_misses (wk_frames w) + of_nat (length (filter (\<lambda>x. x = Miss) rs)) \<and>
    wk_lats w' = wk_lats w @ map (\<lambda>x. snd (snd x)) (filter fst rounds) \<and>
    wk_ops w' = wk_ops w + of_nat (ld_pipeline cfg * length (filter fst rounds))"
  using assms
proof (induction rounds arbitrary: w rs st ks sent)
  case Nil
  then show ?case by (intro exI [of _ w] exI [of _ "[]"] conjI) simp_all
next
  case (Cons x rounds)
  obtain recorded dt where x: "x = (recorded, True, dt)" using Cons.prems(7) by (cases x) auto
  let ?xs = "take (ld_pipeline cfg) rs" and ?ys = "drop (ld_pipeline cfg) rs"
  have split: "rs = ?xs @ ?ys" by simp
  have len: "length ?xs = ld_pipeline cfg" "length ?ys = ld_pipeline cfg * length rounds" using Cons.prems(3) by simp_all
  have ok: "list_all resp_ok ?xs" "list_all resp_ok ?ys" using Cons.prems(2) by (metis split list_all_append)+
  have "unread (wk_frames w) @ st = concat (map resp_bytes ?xs) @ (concat (map resp_bytes ?ys) @ rest)"
    using Cons.prems(4) by (metis split append_assoc concat_append map_append)
  from worker_round_exact [OF Cons.prems(1) ok(1) len(1) this Cons.prems(5,6)] obtain w1 st1 ks1 bodies1 where
    f: "worker_round cfg recorded True dt st ks w = Inr (WkNext w1 (concat (map frame_bytes bodies1)) st1 ks1)"
      "length bodies1 = ld_pipeline cfg" "list_all (load_body cfg) bodies1" "reader_ok (wk_frames w1)"
      "unread (wk_frames w1) @ st1 = concat (map resp_bytes ?ys) @ rest"
      "list_all (\<lambda>k. k \<noteq> None \<and> k \<noteq> Some 0) ks1" "length st1 \<le> length ks1"
      "ld_misses (wk_frames w1) = ld_misses (wk_frames w) + of_nat (length (filter (\<lambda>x. x = Miss) ?xs))"
      "wk_lats w1 = wk_lats w @ (if recorded then [dt] else [])"
      "wk_ops w1 = wk_ops w + (if recorded then of_nat (ld_pipeline cfg) else 0)" by blast
  let ?buf = "concat (map frame_bytes bodies1)"
  have "list_all (\<lambda>x. fst (snd x)) rounds" using Cons.prems(7) by simp
  from Cons.IH [OF f(4) ok(2) len(2) f(5-7) this, of "sent @ [?buf]"] obtain w' bufs bodies where
    g: "worker_rounds cfg rounds st1 ks1 w1 (sent @ [?buf]) = Inr (WkDone w' ((sent @ [?buf]) @ bufs))"
      "concat bufs = concat (map frame_bytes bodies)" "length bodies = ld_pipeline cfg * length rounds" "list_all (load_body cfg) bodies"
      "ld_misses (wk_frames w') = ld_misses (wk_frames w1) + of_nat (length (filter (\<lambda>x. x = Miss) ?ys))"
      "wk_lats w' = wk_lats w1 @ map (\<lambda>x. snd (snd x)) (filter fst rounds)"
      "wk_ops w' = wk_ops w1 + of_nat (ld_pipeline cfg * length (filter fst rounds))" by blast
  have "length (filter (\<lambda>x. x = Miss) ?xs) + length (filter (\<lambda>x. x = Miss) ?ys) = length (filter (\<lambda>x. x = Miss) rs)"
    by (metis split filter_append length_append)
  then have "ld_misses (wk_frames w') = ld_misses (wk_frames w) + of_nat (length (filter (\<lambda>x. x = Miss) rs))"
    by (simp add: g(5) f(8) add.assoc flip: of_nat_add)
  moreover have "wk_ops w' = wk_ops w + of_nat (ld_pipeline cfg * length (filter fst (x # rounds)))"
    unfolding g(7) f(10) x by (simp add: algebra_simps)
  ultimately show ?case using f(1-3,9) g(1-4,6) x
    by (intro exI [of _ w'] exI [of _ "?buf # bufs"] exI [of _ "bodies1 @ bodies"] conjI) simp_all
qed

text \<open>
  C39. A worker does what it reports. Let the server answer every request, the responses
  delivered in pieces of any sizes, and let the worker run any number of rounds. It returns, and
  nothing panics while its buffer is compacted and doubled; on its connection the server reads
  the PUTs of its share and then \<open>pipeline\<close> PUTs and GETs of keys of the key space for every round;
  the times are those of the recorded rounds, in order, the operations added to the total are those
  of the recorded rounds, and the misses added are the responses \<open>Miss\<close>, each counted once.
\<close>

theorem load_worker_exact:
  assumes nss: "prefill cfg tid = Some nss" and size: "14 + ld_val_size cfg \<le> MAX_FRAME"
    and rs: "list_all resp_ok rs" "length rs = length (concat nss) + ld_pipeline cfg * length rounds"
    and rounds: "list_all (\<lambda>x. fst (snd x)) rounds"
    and ks: "list_all (\<lambda>k. k \<noteq> None \<and> k \<noteq> Some 0) ks" "length (concat (map resp_bytes rs) @ rest) \<le> length ks"
  shows "\<exists>sh' lats bufs bodies.
    worker cfg tid True (\<lambda>_. True) rounds (concat (map resp_bytes rs) @ rest) ks sh = Some (Inr (Some (sh', lats, bufs))) \<and>
    read_conn (\<lambda>_. True) conn 0 (concat bufs) =
      map (request_of conn) (map (\<lambda>n. req_body Put (load_key n) (load_value cfg)) (concat nss) @ bodies) \<and>
    length bodies = ld_pipeline cfg * length rounds \<and> list_all (load_body cfg) bodies \<and>
    lats = map (\<lambda>x. snd (snd x)) (filter fst rounds) \<and>
    total_ops sh' = total_ops sh + of_nat (ld_pipeline cfg * length (filter fst rounds)) \<and>
    total_miss sh' = total_miss sh + of_nat (length (filter (\<lambda>x. x = Miss) rs))"
proof -
  let ?m = "length (concat nss)" and ?puts = "map (\<lambda>n. req_body Put (load_key n) (load_value cfg)) (concat nss)"
  let ?xs = "take ?m rs" and ?ys = "drop ?m rs" and ?st = "concat (map resp_bytes rs) @ rest"
  let ?sent = "map (\<lambda>ns. put_keys (load_value cfg) key_buf ns []) nss"
  have split: "rs = ?xs @ ?ys" by simp
  have ok: "list_all resp_ok ?xs" "list_all resp_ok ?ys" using rs(1) by (metis split list_all_append)+
  have len: "length ?xs = ?m" "length ?ys = ld_pipeline cfg * length rounds" using rs(2) by simp_all
  have "unread load_reader_new @ ?st = concat (map resp_bytes ?xs) @ (concat (map resp_bytes ?ys) @ rest)"
    unfolding load_reader_new_ok(2) by (metis split append_Nil append_assoc concat_append map_append)
  from setup_rounds_done [OF load_reader_new_ok(1) ok(1) len(1) this ks, of "load_value cfg" key_buf "[]"] obtain r st1 ks1 where
    r: "setup_conn cfg tid True (\<lambda>_. True) ?st ks = Some (Inr (SetupDone r ?sent st1 ks1))" "reader_ok r"
      "unread r @ st1 = concat (map resp_bytes ?ys) @ rest" "ld_misses r = of_nat (length (filter (\<lambda>x. x = Miss) ?xs))"
      "list_all (\<lambda>k. k \<noteq> None \<and> k \<noteq> Some 0) ks1" "length st1 \<le> length ks1"
    using nss by (auto simp: setup_conn_def load_reader_new_def)
  let ?w = "worker_start tid r"
  have w: "wk_frames ?w = r" "wk_lats ?w = []" "wk_ops ?w = 0" by (simp_all add: worker_start_def)
  from worker_rounds_exact [of ?w, unfolded w, OF r(2) ok(2) len(2) r(3,5,6) rounds, of "[]"] obtain w' bufs bodies where
    g: "worker_rounds cfg rounds st1 ks1 ?w [] = Inr (WkDone w' bufs)" "concat bufs = concat (map frame_bytes bodies)"
      "length bodies = ld_pipeline cfg * length rounds" "list_all (load_body cfg) bodies"
      "ld_misses (wk_frames w') = ld_misses r + of_nat (length (filter (\<lambda>x. x = Miss) ?ys))"
      "wk_lats w' = map (\<lambda>x. snd (snd x)) (filter fst rounds)"
      "wk_ops w' = of_nat (ld_pipeline cfg * length (filter fst rounds))" by auto
  have "length (filter (\<lambda>x. x = Miss) ?xs) + length (filter (\<lambda>x. x = Miss) ?ys) = length (filter (\<lambda>x. x = Miss) rs)"
    by (metis split filter_append length_append)
  then have "ld_misses (wk_frames w') = of_nat (length (filter (\<lambda>x. x = Miss) rs))" by (simp add: g(5) r(4) flip: of_nat_add)
  moreover have "concat (?sent @ bufs) = concat (map frame_bytes (?puts @ bodies))"
    by (simp add: g(2) put_keys_eq concat_map_concat load_key_def o_def)
  moreover have "list_all body_ok (?puts @ bodies)"
    using size load_body_ok [OF size] g(4) by (auto simp: list_all_iff body_ok_def req_body_def load_value_def)
  ultimately show ?thesis
    using g r(1) reqf.frames_encoded [of "?puts @ bodies"]
    by (intro exI [of _ "add_totals w' sh"] exI [of _ "wk_lats w'"] exI [of _ "?sent @ bufs"] exI [of _ bodies])
      (simp add: worker_def add_totals_def read_conn_frames)
qed

theorem load_worker_exact_witness:
  "\<exists>sh' lats bufs.
     worker \<lparr>ld_addr = ''a'', ld_conns = 100000, ld_pipeline = 1, ld_secs = 1, ld_put_pct = 50, ld_val_size = 1\<rparr> 7 True (\<lambda>_. True)
       [(False, True, 4), (True, True, 5)] (resp_bytes Ok @ resp_bytes Miss @ resp_bytes (Value [118])) (replicate 17 (Some 3))
       \<lparr>total_ops = 10, total_tx = 0, total_rx = 0, total_miss = 0\<rparr> = Some (Inr (Some (sh', lats, bufs))) \<and>
     lats = [5] \<and> total_ops sh' = 11 \<and> total_miss sh' = 1"
proof -
  let ?cfg = "\<lparr>ld_addr = ''a'', ld_conns = 100000, ld_pipeline = 1, ld_secs = 1, ld_put_pct = 50, ld_val_size = 1\<rparr>"
  let ?rs = "[Ok, Miss, Value [118]]" and ?rounds = "[(False, True, 4), (True, True, 5)]"
  have "prefill ?cfg 7 = Some [[7]]"
    by (simp add: prefill_def share_start_def KEYSPACE_def prefill_from.simps)
  moreover have "14 + ld_val_size ?cfg \<le> MAX_FRAME" by (simp add: MAX_FRAME_def)
  moreover have "list_all resp_ok ?rs" by (simp add: resp_ok_def resp_payload_def)
  moreover have "length ?rs = length (concat [[7 :: u64]]) + ld_pipeline ?cfg * length ?rounds" by simp
  moreover have "list_all (\<lambda>x. fst (snd x)) ?rounds" by simp
  moreover have "list_all (\<lambda>k. k \<noteq> None \<and> k \<noteq> Some 0) (replicate 17 (Some (3 :: nat)))" by (simp add: list_all_iff)
  moreover have "length (concat (map resp_bytes ?rs) @ []) \<le> length (replicate 17 (Some (3 :: nat)))"
    by (simp add: resp_bytes_def resp_payload_def)
  ultimately show ?thesis
    using load_worker_exact [of ?cfg 7 "[[7]]" ?rs ?rounds "replicate 17 (Some 3)" "[]"
        "\<lparr>total_ops = 10, total_tx = 0, total_rx = 0, total_miss = 0\<rparr>" 7]
    by fastforce
qed

end
