(* ===== verification/Alloc_Stat.thy ===== *)
theory Alloc_Stat
  imports Kv_Prelude
begin

text \<open>
  The counting allocator of the feature \<open>allocator_debug\<close> (\<open>crates/server/src/alloc_stat.rs\<close>) and
  the task that prints its counters every two seconds (\<open>stage1/mod.rs\<close>). The calls of all threads
  form one sequence, since every counter is an atomic; a snapshot reads the four counters one by
  one while calls go on, so each of them may be read at another point of the sequence.
\<close>

section \<open>The counters\<close>

datatype heap_op = Alloc nat | Dealloc | Realloc nat

record stats =
  allocs :: u64
  reallocs :: u64
  frees :: u64
  alloc_bytes :: u64

definition no_stats :: stats where
  "no_stats = \<lparr>allocs = 0, reallocs = 0, frees = 0, alloc_bytes = 0\<rparr>"

fun count_op :: "heap_op \<Rightarrow> stats \<Rightarrow> stats" where
  "count_op (Alloc n) s = s\<lparr>allocs := allocs s + 1, alloc_bytes := alloc_bytes s + of_nat n\<rparr>"
| "count_op Dealloc s = s\<lparr>frees := frees s + 1\<rparr>"
| "count_op (Realloc n) s = s\<lparr>reallocs := reallocs s + 1\<rparr>"

definition counters :: "heap_op list \<Rightarrow> stats" where
  "counters ops = fold count_op ops no_stats"

text \<open>A snapshot that reads the counters after so many of the calls.\<close>

definition snapshot_at :: "heap_op list \<Rightarrow> nat \<Rightarrow> nat \<Rightarrow> nat \<Rightarrow> nat \<Rightarrow> stats" where
  "snapshot_at ops a r f b =
     \<lparr>allocs = allocs (counters (take a ops)), reallocs = reallocs (counters (take r ops)),
      frees = frees (counters (take f ops)), alloc_bytes = alloc_bytes (counters (take b ops))\<rparr>"

section \<open>The report\<close>

record alloc_report =
  allocs_plus :: u64
  reallocs_plus :: u64
  frees_plus :: u64
  live_blocks :: int

definition report_line :: "stats \<Rightarrow> stats \<Rightarrow> alloc_report" where
  "report_line before now =
     \<lparr>allocs_plus = allocs now - allocs before, reallocs_plus = reallocs now - reallocs before,
      frees_plus = frees now - frees before, live_blocks = sint (allocs now - frees now)\<rparr>"

fun report_lines :: "stats \<Rightarrow> stats list \<Rightarrow> alloc_report list" where
  "report_lines before [] = []"
| "report_lines before (now # snaps) = report_line before now # report_lines now snaps"

section \<open>What is counted\<close>

definition n_allocs :: "heap_op list \<Rightarrow> nat" where
  "n_allocs ops = length (filter (\<lambda>x. \<exists>n. x = Alloc n) ops)"

definition n_reallocs :: "heap_op list \<Rightarrow> nat" where
  "n_reallocs ops = length (filter (\<lambda>x. \<exists>n. x = Realloc n) ops)"

definition n_frees :: "heap_op list \<Rightarrow> nat" where
  "n_frees ops = length (filter (\<lambda>x. x = Dealloc) ops)"

definition live_after :: "heap_op list \<Rightarrow> int" where
  "live_after ops = int (n_allocs ops) - int (n_frees ops)"

lemma n_ops_append [simp]:
  "n_allocs (xs @ ys) = n_allocs xs + n_allocs ys" "n_reallocs (xs @ ys) = n_reallocs xs + n_reallocs ys"
  "n_frees (xs @ ys) = n_frees xs + n_frees ys"
  by (simp_all add: n_allocs_def n_reallocs_def n_frees_def)

lemma counters_count:
  "allocs (counters ops) = of_nat (n_allocs ops)" "reallocs (counters ops) = of_nat (n_reallocs ops)"
  "frees (counters ops) = of_nat (n_frees ops)"
proof (induction ops rule: rev_induct)
  case (snoc x ops)
  have step: "counters (ops @ [x]) = count_op x (counters ops)" by (simp add: counters_def)
  { case 1 then show ?case using snoc(1) unfolding step by (cases x) (simp_all add: n_allocs_def) }
  { case 2 then show ?case using snoc(2) unfolding step by (cases x) (simp_all add: n_reallocs_def) }
  { case 3 then show ?case using snoc(3) unfolding step by (cases x) (simp_all add: n_frees_def) }
qed (simp_all add: counters_def no_stats_def n_allocs_def n_reallocs_def n_frees_def)

lemma n_ops_le: "n_allocs ops \<le> length ops" "n_frees ops \<le> length ops" "n_reallocs ops \<le> length ops"
  by (simp_all add: n_allocs_def n_frees_def n_reallocs_def)

text \<open>Reading between two points of the sequence gives a count between the counts at these points.\<close>

lemma take_between:
  assumes "lo \<le> i" and "i \<le> hi"
  shows "\<exists>xs ys. take i ops = take lo ops @ xs \<and> take hi ops = take lo ops @ xs @ ys"
proof -
  have "take i ops = take lo ops @ take (i - lo) (drop lo ops)" using assms by (metis le_add_diff_inverse take_add)
  moreover have "take hi ops = take i ops @ take (hi - i) (drop i ops)" using assms by (metis le_add_diff_inverse take_add)
  ultimately show ?thesis by auto
qed

lemma sint_of_diff:
  assumes "a < 2 ^ 63" and "b < 2 ^ 63"
  shows "sint (of_nat a - of_nat b :: u64) = int a - int b"
proof -
  have "(of_nat a - of_nat b :: u64) = of_int (int a - int b)" by simp
  also have "sint \<dots> = signed_take_bit 63 (int a - int b)" by (simp only: signed_of_int) simp
  also have "\<dots> = int a - int b" using assms by (intro signed_take_bit_int_eq_self) auto
  finally show ?thesis .
qed

lemma count_between:
  assumes "i \<le> j" and "length ops < 2 ^ 63"
  shows "unat (of_nat (n_allocs (take j ops)) - of_nat (n_allocs (take i ops)) :: u64) = n_allocs (drop i (take j ops))"
    "unat (of_nat (n_reallocs (take j ops)) - of_nat (n_reallocs (take i ops)) :: u64) = n_reallocs (drop i (take j ops))"
    "unat (of_nat (n_frees (take j ops)) - of_nat (n_frees (take i ops)) :: u64) = n_frees (drop i (take j ops))"
proof -
  have split: "take j ops = take i ops @ drop i (take j ops)" using assms(1) by (metis append_take_drop_id min.absorb1 take_take)
  have diff: "unat (of_nat (m + n) - of_nat m :: u64) = n" if "n \<le> length ops" for m n
    using that assms(2) by (simp add: unat_of_nat)
  have le: "length (drop i (take j ops)) \<le> length ops" by simp
  note le' = order_trans [OF n_ops_le(1) le] order_trans [OF n_ops_le(2) le] order_trans [OF n_ops_le(3) le]
  show "unat (of_nat (n_allocs (take j ops)) - of_nat (n_allocs (take i ops)) :: u64) = n_allocs (drop i (take j ops))"
    using diff [OF le'(1), of "n_allocs (take i ops)"] arg_cong [OF split, of n_allocs] by simp
  show "unat (of_nat (n_reallocs (take j ops)) - of_nat (n_reallocs (take i ops)) :: u64) = n_reallocs (drop i (take j ops))"
    using diff [OF le'(3), of "n_reallocs (take i ops)"] arg_cong [OF split, of n_reallocs] by simp
  show "unat (of_nat (n_frees (take j ops)) - of_nat (n_frees (take i ops)) :: u64) = n_frees (drop i (take j ops))"
    using diff [OF le'(2), of "n_frees (take i ops)"] arg_cong [OF split, of n_frees] by simp
qed

text \<open>The increases of successive lines add up, whatever the counters did in between.\<close>

lemma report_lines_add_up:
  "sum_list (map allocs_plus (report_lines s0 snaps)) = allocs (last (s0 # snaps)) - allocs s0"
  "sum_list (map frees_plus (report_lines s0 snaps)) = frees (last (s0 # snaps)) - frees s0"
  by (induction snaps arbitrary: s0) (simp_all add: report_line_def)

section \<open>Property\<close>

text \<open>
  C40. What the allocation report says, with fewer than \<open>2 ^ 63\<close> calls so far. Each increase is the
  number of calls between the points at which the two snapshots read that counter. The number of
  live blocks is exact up to the calls made while the snapshot was taken: when it was taken
  between two points of the sequence, the number printed lies between the number of blocks live
  at the first point less the frees in between, and that number plus the allocations in between.
  In particular it is exact when nothing happens meanwhile.
\<close>

theorem alloc_report_bounds:
  assumes ops: "length ops < 2 ^ 63" and reads: "a1 \<le> a2" "r1 \<le> r2" "f1 \<le> f2"
    and now: "lo \<le> a2" "a2 \<le> hi" "lo \<le> f2" "f2 \<le> hi"
    and line: "line = report_line (snapshot_at ops a1 r1 f1 b1) (snapshot_at ops a2 r2 f2 b2)"
  shows "unat (allocs_plus line) = n_allocs (drop a1 (take a2 ops)) \<and>
    unat (reallocs_plus line) = n_reallocs (drop r1 (take r2 ops)) \<and>
    unat (frees_plus line) = n_frees (drop f1 (take f2 ops)) \<and>
    live_after (take lo ops) - int (n_frees (drop lo (take hi ops))) \<le> live_blocks line \<and>
    live_blocks line \<le> live_after (take lo ops) + int (n_allocs (drop lo (take hi ops)))"
proof -
  obtain xs ys where x: "take a2 ops = take lo ops @ xs" "take hi ops = take lo ops @ xs @ ys"
    using take_between [OF now(1,2)] by blast
  obtain us vs where u: "take f2 ops = take lo ops @ us" "take hi ops = take lo ops @ us @ vs"
    using take_between [OF now(3,4)] by blast
  let ?m = "drop lo (take hi ops)"
  have "take hi ops = take lo ops @ ?m" using now(1,2) by (metis append_take_drop_id min.absorb1 order_trans take_take)
  then have mid: "?m = xs @ ys" "?m = us @ vs" using x(2) u(2) by (metis same_append_eq)+
  have small: "n_allocs (take a2 ops) < 2 ^ 63" "n_frees (take f2 ops) < 2 ^ 63"
    using n_ops_le(1) [of "take a2 ops"] n_ops_le(2) [of "take f2 ops"] ops by auto
  have live: "live_blocks line = int (n_allocs (take a2 ops)) - int (n_frees (take f2 ops))"
    unfolding line using sint_of_diff [OF small] by (simp add: report_line_def snapshot_at_def counters_count)
  have a: "n_allocs (take a2 ops) = n_allocs (take lo ops) + n_allocs xs" "n_allocs xs \<le> n_allocs ?m"
    unfolding x(1) mid(1) by simp_all
  have f: "n_frees (take f2 ops) = n_frees (take lo ops) + n_frees us" "n_frees us \<le> n_frees ?m"
    unfolding u(1) mid(2) by simp_all
  have "live_after (take lo ops) - int (n_frees ?m) \<le> live_blocks line"
    "live_blocks line \<le> live_after (take lo ops) + int (n_allocs ?m)"
    unfolding live live_after_def using a f by linarith+
  moreover have "unat (allocs_plus line) = n_allocs (drop a1 (take a2 ops))"
    "unat (reallocs_plus line) = n_reallocs (drop r1 (take r2 ops))" "unat (frees_plus line) = n_frees (drop f1 (take f2 ops))"
    using count_between(1) [OF reads(1) ops] count_between(2) [OF reads(2) ops] count_between(3) [OF reads(3) ops]
    by (simp_all add: line report_line_def snapshot_at_def counters_count)
  ultimately show ?thesis by blast
qed

text \<open>Two blocks allocated and one of them freed between the two snapshots, and nothing during them.\<close>

theorem alloc_report_bounds_witness:
  "live_blocks (report_line (snapshot_at [Alloc 8, Alloc 16, Dealloc] 0 0 0 0)
     (snapshot_at [Alloc 8, Alloc 16, Dealloc] 3 3 3 3)) = 1"
  using alloc_report_bounds [of "[Alloc 8, Alloc 16, Dealloc]" 0 3 0 3 0 3 3 3 _ 0 3]
  by (simp add: live_after_def n_allocs_def n_frees_def)

end
