(* ===== verification/Io_Tests.thy ===== *)
theory Io_Tests
  imports Io_Work
begin

text \<open>
  The unit tests of \<open>crates/server/src/stage3/io_work.rs\<close>, as statements about the model of
  \<open>IoWork\<close>. Each test is a truth value: what its assertions say of the verdict. The one test
  that only prints the size of a type asserts nothing and is left out.
\<close>

definition ENOENT :: int where
  "ENOENT = 2"

definition test_batch :: "nat \<Rightarrow> batch" where
  "test_batch n = batch_new\<lparr>out := replicate n 0xAB\<rparr>"

definition short_write_retries_at_first_unwritten_byte :: bool where
  "short_write_retries_at_first_unwritten_byte \<longleftrightarrow>
     (case complete (io_write (test_batch 100) 0) 60 of
        Retry (WriteWork w) \<Rightarrow> w_done w = 60
      | _ \<Rightarrow> False)"

definition eintr_retries_without_progress :: bool where
  "eintr_retries_without_progress \<longleftrightarrow>
     (case complete (io_write (test_batch 100) 0) (- EINTR) of
        Retry (WriteWork w) \<Rightarrow> w_done w = 0
      | _ \<Rightarrow> False)"

definition remove_tolerates_enoent :: bool where
  "remove_tolerates_enoent \<longleftrightarrow> complete (RemoveWork ''/nope'') (- ENOENT) = VerdictOk None"

lemma io_work_tests_pass:
  "short_write_retries_at_first_unwritten_byte" "eintr_retries_without_progress" "remove_tolerates_enoent"
  by (simp_all add: short_write_retries_at_first_unwritten_byte_def eintr_retries_without_progress_def
      remove_tolerates_enoent_def complete_def io_write_def test_batch_def EINTR_def EAGAIN_def)

end
