(* ===== verification/Spec2Isabelle.thy ===== *)
theory Spec2Isabelle
  imports Async_Client Client_Server Server Compaction Wal_Liveness Wal_Deadlock Durable_Service Restart Backpressure Example_Runs Loadgen
    Alloc_Stat Io_Tests
begin

text \<open>
  Verification of an in-memory key-value database written in Rust (\<open>src/crates\<close>).

  \<^bold>\<open>The program.\<close> A server process keeps a table of byte strings in memory and a write-ahead log on
  disk. Stage 1 (\<open>server/src/stage1\<close>, tokio tasks) cuts the byte stream of each connection into
  requests and writes responses back; stage 2 (\<open>server/src/stage2\<close>, one thread) collects
  requests into batches, applies them to the table and numbers the PUTs; stage 3
  (\<open>server/src/stage3\<close>, one thread on an io_uring) appends the PUTs to a segment file, asks for
  data syncs and releases the responses that wait for durability (\<open>server/src/acker.rs\<close>). Batches
  are buffers from a pool and go round from stage 2 to stage 3 and back. At start the table is
  recovered from a snapshot and the segments (\<open>storage/src\<close>). Two clients
  (\<open>smart_client/src\<close>) pipeline calls over one connection and reconnect.

  \<^bold>\<open>Theories.\<close>
  \<^item> \<open>Kv_Prelude\<close>: outcomes with the error a panic or a failed system call leaves, checked indexing
    and slicing, little-endian words. \<open>Framing\<close>: the contract of length-prefixed formats as the
    locale \<open>frame_codec\<close>, interpreted for request frames (\<open>Stage1\<close>), response frames
    (\<open>Frame_Reader\<close>) and log records (\<open>Wal_Format\<close>).
  \<^item> \<open>Wire\<close> (\<open>wire/src/lib.rs\<close>): requests, responses, accessors; round trips and panics.
  \<^item> \<open>Db\<close> (\<open>storage/src/db.rs\<close>): the table of values, interpreted in a locale of maps, and the
    table of shared cells with reference counts that refines it.
  \<^item> \<open>Wal_Format\<close>, \<open>Snapshot\<close>, \<open>Recover\<close> (\<open>storage/src/wal_format.rs\<close>, \<open>snapshot.rs\<close>, \<open>lib.rs\<close>):
    records and their checksum, segment names, snapshots over the states of a directory, recovery.
  \<^item> \<open>Batches\<close> (\<open>server/src/args.rs\<close>, \<open>types.rs\<close>, \<open>acker.rs\<close>), \<open>Stage1\<close>, \<open>Stage2\<close>: modes, requests,
    batches and acknowledgement; reader and writer of a connection; applying batches, the main
    loop turn by turn.
  \<^item> \<open>Fsync_Planner\<close>, \<open>Io_Work\<close>, \<open>Wal_Engine\<close> (\<open>server/src/stage3\<close>): when to sync, operations in
    flight and their completion, the engine with rotation and retirement. \<open>Wal_Buffers\<close> counts the
    buffers it holds.
  \<^item> \<open>Wal_Durability\<close>, \<open>Wal_Prefix\<close>, \<open>Wal_Loop\<close>: engine and ring as one system, what is on stable
    storage when a batch is acknowledged, and runs of the engine's own loop. \<open>Wal_Liveness\<close>: the
    loop in mode Sync never blocks holding all buffers. \<open>Wal_Deadlock\<close>: unless a write is
    interrupted. \<open>Wal_Stock\<close>: where the batches handed to stage 3 are, turn by turn. \<open>Io_Tests\<close>:
    the unit tests of \<open>io_work.rs\<close>.
  \<^item> \<open>Compaction\<close>: retiring segments and recovery. \<open>Pipeline\<close>: stages 2 and 3 and recovery after
    a crash. \<open>Restart\<close>: the file that the queued writes make up, and recovery from it. \<open>Server\<close> (\<open>server/src/main.rs\<close>): start and the stages side by side, as queues.
  \<^item> \<open>Connections\<close> (\<open>stage1/mod.rs\<close>): a connection in small steps, with its bounded reply channel.
    \<open>Service\<close>: the whole process with any number of connections, bounded channels and sends that
    wait; \<open>Service_Runs\<close> builds runs of it. \<open>Engine_Batches\<close>: the locale \<open>batch_law\<close> of predicates
    on batches that every operation of the engine keeps, interpreted twice in \<open>Delivery\<close>, where the
    process refines \<open>Server\<close>. \<open>Backpressure\<close>: a client that does not read. \<open>Durable_Service\<close>: the
    process together with the ring and the disk, from recovery to a power loss.
  \<^item> \<open>Frame_Reader\<close>, \<open>Sync_Client\<close>, \<open>Async_Client\<close> (\<open>smart_client/src\<close>): the response parser and
    the two clients. \<open>Client_Server\<close>: client and server over a connection. \<open>Example_Programs\<close>,
    \<open>Example_Runs\<close> and \<open>Bench\<close> (\<open>smart_client/examples\<close>): the example programs, their runs through
    client and server, and the benchmark. \<open>Loadgen\<close>
    (\<open>server/benches/loadgen.rs\<close>): the load generator.
  \<^item> \<open>Alloc_Stat\<close> (\<open>server/src/alloc_stat.rs\<close>): the counting allocator and its report.

  \<^bold>\<open>How code becomes definitions.\<close> Structures are records, enumerations datatypes, \<open>u8\<close>, \<open>u32\<close> and
  \<open>u64\<close> words with their wrap-around, lengths natural numbers. A function that can panic or fail
  returns an outcome. Loops are recursive functions, total by structure or by a measure (bytes
  left); no fuel is used. Loops without end (the main loops, the clients) are step relations, so
  that a property holds in every reachable state. Where a loop waits for the outside (a channel, the
  ring, a socket), what arrives is an input of the step. Reply channels are numbers, what is sent on
  them is a list of pairs.

  \<^bold>\<open>What is outside.\<close> The io_uring is a relation \<open>kstep\<close> on submitted entries, completions, page
  cache and stable storage, of which \<open>ring_contract\<close> assumes what its documentation says: an entry
  with the drain flag starts after all before it and before all behind it, a write puts a beginning
  of its bytes at its offset, a data sync makes the cache stable. \<open>full_writes\<close> adds that
  writes are neither cut short nor interrupted; only the theorems that need it assume it. The slab
  is its choice of a vacant key (\<open>slab_contract\<close>). The file system is the state of one directory.
  TCP delivers prefixes of the bytes sent.

  \<^bold>\<open>What is shown.\<close> Formats: every encoder is inverted by its decoder, on streams, cut streams and
  chunks; a change of one byte of a log record is detected; malformed requests panic exactly when
  stated. Table: values handed to responses never change. Durability (mode Sync): an acknowledged
  batch is on stable storage; with full writes the acknowledged batches lie in a stable prefix of
  the log, and recovery after a crash returns a table that contains them; without, a batch behind an
  interrupted write can be acknowledged and lost. The same holds of the whole process with any
  connections and any interleaving, with full writes and from a directory without torn segments:
  after a power loss that keeps the directory entry of the segment and its stable bytes, and of the
  others whatever the checksum tells from damage, recovery returns the table after a prefix of the
  requests taken, with at least as many PUTs of each connection as it was sent Oks. A restart after
  all queued writes returns table and next sequence number; removing retired segments changes
  recovery only by records that no snapshot covers; snapshots keep the table. Pipeline: no buffer is
  lost, batches continue each other, each response is sent exactly once, and with full writes
  stage 3 in mode Sync never blocks while it holds every buffer. Every answer of the fsync planner
  is the one due after its history.
  Process: with its connections it implements the server of queues, everything under way has its
  type, and in mode NoFsync every connection gets the answers due to its requests. End to end (mode
  NoFsync): every call of a client gets the answer due at its place in the server's history, and a
  program whose keys nobody else writes reads back what it wrote. Clients: the n-th response goes
  to the n-th call, every call has one result, both clients agree. Load generator: it writes its
  key space once, so that no GET misses, and counts exactly what it reads. The properties that describe defects (lost wake-up, deadlock after an
  interrupted write, a client that stops the server, answers swapped, torn tails, dropped answers,
  truncated snapshots, endless reconnects) state what the code does.

  \<^bold>\<open>Bounds.\<close> Sequence numbers and file offsets are assumed not to wrap around at \<open>2 ^ 64\<close> where a
  theorem needs it; its hypotheses say so.

  \<^bold>\<open>Not modelled.\<close> Thread creation, socket options, logging and command line (they keep no state of
  the program; the command line is parsed by a library); the end of a writer task whose senders are
  all gone, which nothing observes; capacities of buffers; the system allocator; the commented-out
  snapshot trigger of stage 2 and \<open>try_begin\<close> and \<open>poll\<close> of the snapshotter beyond their panic; the
  main thread of the load generator, which sets flags by timers, and the figures in floating point
  that it and the benchmark print.
\<close>

end
